(* ===== verification/Provsan_Prelude.thy ===== *)
theory Provsan_Prelude
  imports Main "HOL-Library.Word"
begin

section \<open>Shared types, result values and generic lemmas\<close>

text \<open>
  The machine types of the runtime (a 64-bit target), the error values of its assertions and
  undefined operations, the sequencing of fallible steps, numbers as text, and the lemmas on
  words and lists that several components use. \<open>site_simps\<close> collects the unfoldings of the small accessors
  of the model, \<open>inv_intros\<close> the preservation lemmas of the runtime's invariants.
\<close>

unbundle bit_operations_syntax

named_theorems site_simps \<open>unfoldings of small accessors and predicates on allocation sites\<close>
named_theorems inv_intros \<open>operations keep the invariant of the component\<close>

type_synonym u32 = "32 word"
type_synonym u64 = "64 word"
type_synonym i32 = "32 word"
type_synonym i64 = "64 word"
type_synonym rust_ptr = "64 word"
type_synonym thread_id = "32 word"

text \<open>A C string argument: \<open>None\<close> is the null pointer.\<close>

type_synonym c_string = "string option"

subsection \<open>Errors and fallible steps\<close>

text \<open>
  The ways in which the runtime stops the process: a failed \<open>assert\<close>, a \<open>std::string\<close>
  constructed from a null pointer, a member call through a null handler, a call through a null
  or mistyped signal handler.
\<close>

datatype rt_error =
    AssertPtrNonNull
  | AssertSizePositive
  | AssertLocalIDNonNeg
  | AssertSiteCount
  | NullCString
  | NullHandler
  | BadHandlerCall

definition and_then :: "'e + 'a \<Rightarrow> ('a \<Rightarrow> 'e + 'b) \<Rightarrow> 'e + 'b" where
  "and_then r f = (case r of Inl e \<Rightarrow> Inl e | Inr x \<Rightarrow> f x)"

lemma and_then_simps [simp]:
  "and_then (Inl e) f = Inl e"
  "and_then (Inr x) f = f x"
  by (simp_all add: and_then_def)

lemma and_then_eq_Inr:
  "and_then r f = Inr y \<longleftrightarrow> (\<exists>x. r = Inr x \<and> f x = Inr y)"
  by (cases r) simp_all

lemma list_all2_mem2: "list_all2 P xs ys \<Longrightarrow> y \<in> set ys \<Longrightarrow> \<exists>x\<in>set xs. P x y"
  by (induction rule: list_all2_induct) auto

lemma map_sum_eq_Inr: "map_sum f g x = Inr y \<longleftrightarrow> (\<exists>z. x = Inr z \<and> y = g z)"
  by (cases x) auto

definition c_str :: "c_string \<Rightarrow> rt_error + string" where
  "c_str s = (case s of None \<Rightarrow> Inl NullCString | Some t \<Rightarrow> Inr t)"

lemma c_str_simps [simp]:
  "c_str (Some t) = Inr t"
  "c_str None = Inl NullCString"
  by (simp_all add: c_str_def)

subsection \<open>Words\<close>

text \<open>
  The half-open interval test \<open>a \<le> q < a + n\<close> on wrapping words holds exactly when \<open>q\<close> lies
  in the interval of integers and the interval ends below the modulus.
\<close>

lemma word_interval_iff:
  fixes a n q :: "'a::len word"
  shows "(a \<le> q \<and> q < a + n) \<longleftrightarrow>
    uint a \<le> uint q \<and> uint q < uint a + uint n \<and> uint a + uint n < 2 ^ LENGTH('a)"
proof -
  have qb: "uint q < 2 ^ LENGTH('a)" by (rule uint_lt2p)
  have ab: "uint a < 2 ^ LENGTH('a)" by (rule uint_lt2p)
  have nb: "uint n < 2 ^ LENGTH('a)" by (rule uint_lt2p)
  have eq: "uint (a + n) =
      (if uint a + uint n < 2 ^ LENGTH('a) then uint a + uint n
       else uint a + uint n - 2 ^ LENGTH('a))"
    by (rule uint_plus_if')
  show ?thesis
  proof (cases "uint a + uint n < 2 ^ LENGTH('a)")
    case True
    then show ?thesis
      unfolding word_le_def word_less_def eq by simp
  next
    case False
    then have "uint (a + n) = uint a + uint n - 2 ^ LENGTH('a)"
      using eq by simp
    with nb have "uint (a + n) < uint a"
      by linarith
    with False show ?thesis
      unfolding word_le_def word_less_def by linarith
  qed
qed

lemma sint_pos_eq_uint:
  fixes w :: "'a::len word"
  assumes "0 \<le> sint w"
  shows "sint w = uint w"
proof -
  have "sint w < 2 ^ (LENGTH('a) - 1)" by (rule sint_lt)
  also have "\<dots> \<le> (2::int) ^ LENGTH('a)" by (rule power_increasing) simp_all
  finally have "take_bit LENGTH('a) (sint w) = sint w"
    using assms by (simp add: take_bit_int_eq_self)
  then show ?thesis by (simp add: uint_sint)
qed

lemma unat_decr: "x \<noteq> 0 \<Longrightarrow> unat (x - 1) < unat (x :: 'a::len word)"
  by (simp add: unat_minus_one unat_gt_0)

text \<open>Setting bits that were clear and clearing them again.\<close>

lemma set_then_clear:
  fixes x m :: "'a::len word"
  assumes "x AND m = 0"
  shows "(x OR m) AND NOT m = x"
proof (rule bit_word_eqI)
  fix n assume n: "n < LENGTH('a)"
  have "\<not> bit (x AND m) n" using assms by simp
  then show "bit ((x OR m) AND NOT m) n \<longleftrightarrow> bit x n"
    using n by (auto simp: bit_and_iff bit_or_iff bit_not_iff)
qed

subsection \<open>Lists\<close>

lemma takeWhile_length_less_iff:
  "length (takeWhile P xs) < length xs \<longleftrightarrow> (\<exists>x\<in>set xs. \<not> P x)"
  by (induction xs) auto

lemma nth_takeWhile_length:
  "i < length (takeWhile P xs) \<Longrightarrow> P (xs ! i)"
  by (metis nth_mem set_takeWhileD takeWhile_nth)

lemma all_from_Suc:
  "a < n \<Longrightarrow> (\<forall>i. a \<le> i \<and> i < n \<longrightarrow> P i) \<longleftrightarrow> P a \<and> (\<forall>i. Suc a \<le> i \<and> i < n \<longrightarrow> P i)"
  by (metis Suc_leD Suc_leI le_refl order_le_less)

subsection \<open>Numbers as text\<close>

definition digit_char :: "nat \<Rightarrow> char" where
  "digit_char d = (if d < 10 then char_of (48 + d) else char_of (87 + d))"

function base_text :: "nat \<Rightarrow> nat \<Rightarrow> string" where
  "base_text b n =
    (if n < b \<or> b < 2 then [digit_char n] else base_text b (n div b) @ [digit_char (n mod b)])"
  by pat_completeness auto
termination
  by (relation "measure snd") auto

declare base_text.simps [simp del]

definition dec_int :: "int \<Rightarrow> string" where
  "dec_int i = (if i < 0 then ''-'' @ base_text 10 (nat (- i)) else base_text 10 (nat i))"

definition dec_u64 :: "u64 \<Rightarrow> string" where
  "dec_u64 w = base_text 10 (unat w)"

end
