(* ===== verification/Std_Containers.thy ===== *)
theory Std_Containers
  imports Provsan_Prelude
begin

section \<open>The C++ standard containers the runtime uses\<close>

text \<open>
  The runtime keeps its data in \<open>std::unordered_set\<close> and \<open>std::unordered_map\<close>, compared with
  the key type's own \<open>operator==\<close> and \<open>std::hash\<close>, and in a \<open>std::map\<close> ordered by address.
  This theory writes their operations on lists and states their contracts as two locales:
  \<open>unordered_keys\<close> (what a key type owes an unordered container, and what the container then
  gives back) and \<open>ordered_map\<close> (the iterator interface of \<open>std::map\<close>). Neither \<open>emplace\<close> nor
  \<open>insert\<close> overwrites an entry that is already present.
\<close>

subsection \<open>Unordered containers\<close>

text \<open>
  A set is a list with no two equal elements, a map a list of pairs with no two equal keys; the
  list order stands for the unspecified iteration order. The comparison is an argument.
\<close>

definition us_mem :: "('a \<Rightarrow> 'a \<Rightarrow> bool) \<Rightarrow> 'a \<Rightarrow> 'a list \<Rightarrow> bool" where
  "us_mem eq x xs = list_ex (eq x) xs"

definition us_insert :: "('a \<Rightarrow> 'a \<Rightarrow> bool) \<Rightarrow> 'a \<Rightarrow> 'a list \<Rightarrow> 'a list" where
  "us_insert eq x xs = (if us_mem eq x xs then xs else xs @ [x])"

definition us_invar :: "('a \<Rightarrow> 'a \<Rightarrow> bool) \<Rightarrow> 'a list \<Rightarrow> bool" where
  "us_invar eq xs = sorted_wrt (\<lambda>x y. \<not> eq x y) xs"

fun um_find :: "('a \<Rightarrow> 'a \<Rightarrow> bool) \<Rightarrow> 'a \<Rightarrow> ('a \<times> 'v) list \<Rightarrow> 'v option" where
  "um_find eq k [] = None"
| "um_find eq k (e # m) = (if eq (fst e) k then Some (snd e) else um_find eq k m)"

definition um_emplace ::
    "('a \<Rightarrow> 'a \<Rightarrow> bool) \<Rightarrow> 'a \<Rightarrow> 'v \<Rightarrow> ('a \<times> 'v) list \<Rightarrow> ('a \<times> 'v) list" where
  "um_emplace eq k v m = (case um_find eq k m of None \<Rightarrow> m @ [(k, v)] | Some _ \<Rightarrow> m)"

definition um_erase :: "('a \<Rightarrow> 'a \<Rightarrow> bool) \<Rightarrow> 'a \<Rightarrow> ('a \<times> 'v) list \<Rightarrow> ('a \<times> 'v) list" where
  "um_erase eq k m = filter (\<lambda>e. \<not> eq (fst e) k) m"

text \<open>A lookup that inspects only the bucket of the key's hash.\<close>

definition um_find_bucket ::
    "('a \<Rightarrow> 'h) \<Rightarrow> ('a \<Rightarrow> 'a \<Rightarrow> bool) \<Rightarrow> 'a \<Rightarrow> ('a \<times> 'v) list \<Rightarrow> 'v option" where
  "um_find_bucket hash eq k m = um_find eq k (filter (\<lambda>e. hash (fst e) = hash k) m)"

locale unordered_keys =
  fixes eq :: "'a \<Rightarrow> 'a \<Rightarrow> bool"
    and hash :: "'a \<Rightarrow> 'h"
  assumes eq_refl: "eq x x"
    and eq_sym: "eq x y \<Longrightarrow> eq y x"
    and eq_trans: "eq x y \<Longrightarrow> eq y z \<Longrightarrow> eq x z"
    and eq_hash: "eq x y \<Longrightarrow> hash x = hash y"
begin

lemma mem_iff: "us_mem eq x xs \<longleftrightarrow> (\<exists>y\<in>set xs. eq x y)"
  by (auto simp: us_mem_def list_ex_iff)

lemma mem_insert: "us_mem eq y (us_insert eq x xs) \<longleftrightarrow> eq y x \<or> us_mem eq y xs"
  by (auto simp: us_insert_def mem_iff intro: eq_refl eq_sym eq_trans)

lemma mem_cong: "eq x y \<Longrightarrow> us_mem eq x xs \<longleftrightarrow> us_mem eq y xs"
  by (auto simp: mem_iff intro: eq_sym eq_trans)

lemma insert_mem: "us_mem eq x xs \<Longrightarrow> us_insert eq x xs = xs"
  by (simp add: us_insert_def)

lemma insert_keeps: "x \<in> set xs \<Longrightarrow> x \<in> set (us_insert eq y xs)"
  by (simp add: us_insert_def)

lemma set_insert_subset: "set (us_insert eq y xs) \<subseteq> insert y (set xs)"
  by (auto simp: us_insert_def)

lemma invar_insert: "us_invar eq xs \<Longrightarrow> us_invar eq (us_insert eq x xs)"
  by (auto simp: us_invar_def us_insert_def mem_iff sorted_wrt_append dest: eq_sym)

lemma find_cong_key: "eq k k' \<Longrightarrow> um_find eq k m = um_find eq k' m"
  by (induction m) (auto intro: eq_sym eq_trans)

lemma find_append:
  "um_find eq k (m @ n) = (case um_find eq k m of None \<Rightarrow> um_find eq k n | Some v \<Rightarrow> Some v)"
  by (induction m) auto

lemma find_emplace:
  "um_find eq k' (um_emplace eq k v m) =
    (case um_find eq k m of
       Some _ \<Rightarrow> um_find eq k' m
     | None \<Rightarrow> (if eq k k' then Some v else um_find eq k' m))"
  using find_cong_key [of k k' m]
  by (auto simp: um_emplace_def find_append split: option.splits)

lemma find_erase:
  "um_find eq k' (um_erase eq k m) = (if eq k k' then None else um_find eq k' m)"
  by (induction m) (auto simp: um_erase_def dest: eq_sym intro: eq_trans)

lemma find_Some: "um_find eq k m = Some v \<Longrightarrow> \<exists>k'. (k', v) \<in> set m \<and> eq k' k"
  by (induction m) (auto split: if_splits)

lemma find_None: "um_find eq k m = None \<longleftrightarrow> (\<forall>e\<in>set m. \<not> eq (fst e) k)"
  by (induction m) auto

lemma set_emplace_subset: "set (um_emplace eq k v m) \<subseteq> insert (k, v) (set m)"
  by (auto simp: um_emplace_def split: option.splits)

text \<open>The hash law makes the bucket lookup exact.\<close>

lemma find_bucket: "um_find_bucket hash eq k m = um_find eq k m"
  by (induction m) (auto simp: um_find_bucket_def dest: eq_hash)

end

subsection \<open>Ordered map\<close>

text \<open>
  A \<open>std::map\<close> is its sequence of entries in key order; an iterator is a position in it, with
  \<open>begin()\<close> position 0 and \<open>end()\<close> the length.
\<close>

fun om_emplace :: "'k::linorder \<Rightarrow> 'v \<Rightarrow> ('k \<times> 'v) list \<Rightarrow> ('k \<times> 'v) list" where
  "om_emplace k v [] = [(k, v)]"
| "om_emplace k v ((k', v') # m) =
     (if k < k' then (k, v) # (k', v') # m
      else if k = k' then (k', v') # m
      else (k', v') # om_emplace k v m)"

definition om_erase :: "'k \<Rightarrow> ('k \<times> 'v) list \<Rightarrow> ('k \<times> 'v) list" where
  "om_erase k m = filter (\<lambda>e. fst e \<noteq> k) m"

definition om_lower_bound :: "'k::linorder \<Rightarrow> ('k \<times> 'v) list \<Rightarrow> nat" where
  "om_lower_bound k m = length (takeWhile (\<lambda>e. fst e < k) m)"

definition om_invar :: "('k::linorder \<times> 'v) list \<Rightarrow> bool" where
  "om_invar m = sorted_wrt (<) (map fst m)"

locale ordered_map =
  fixes emplace :: "'k::linorder \<Rightarrow> 'v \<Rightarrow> 'm \<Rightarrow> 'm"
    and erase :: "'k \<Rightarrow> 'm \<Rightarrow> 'm"
    and lower_bound :: "'k \<Rightarrow> 'm \<Rightarrow> nat"
    and entry :: "'m \<Rightarrow> nat \<Rightarrow> 'k \<times> 'v"
    and count :: "'m \<Rightarrow> nat"
    and lookup :: "'m \<Rightarrow> 'k \<Rightarrow> 'v option"
    and invar :: "'m \<Rightarrow> bool"
  assumes invar_emplace: "invar m \<Longrightarrow> invar (emplace k v m)"
    and invar_erase: "invar m \<Longrightarrow> invar (erase k m)"
    and lookup_emplace: "invar m \<Longrightarrow> lookup (emplace k v m) =
          (if lookup m k = None then (lookup m)(k \<mapsto> v) else lookup m)"
    and lookup_erase: "invar m \<Longrightarrow> lookup (erase k m) = (lookup m)(k := None)"
    and entry_mono: "invar m \<Longrightarrow> i < j \<Longrightarrow> j < count m \<Longrightarrow> fst (entry m i) < fst (entry m j)"
    and lookup_entry: "invar m \<Longrightarrow> lookup m k = Some v \<longleftrightarrow> (\<exists>i<count m. entry m i = (k, v))"
    and lower_bound_le: "invar m \<Longrightarrow> lower_bound k m \<le> count m"
    and below_lower_bound: "invar m \<Longrightarrow> i < lower_bound k m \<Longrightarrow> fst (entry m i) < k"
    and from_lower_bound: "invar m \<Longrightarrow> lower_bound k m \<le> i \<Longrightarrow> i < count m \<Longrightarrow> k \<le> fst (entry m i)"
begin

text \<open>An exact key is at its lower bound, and nowhere else.\<close>

lemma exact_at_lower_bound:
  assumes "invar m" and "lookup m k = Some v"
  shows "lower_bound k m < count m \<and> entry m (lower_bound k m) = (k, v)"
proof -
  obtain i where i: "i < count m" "entry m i = (k, v)"
    using assms lookup_entry by blast
  have "lower_bound k m = i"
  proof (rule antisym)
    show "lower_bound k m \<le> i"
      using below_lower_bound [OF assms(1), of i k] i by (fastforce simp: not_le)
    show "i \<le> lower_bound k m"
    proof (rule ccontr)
      assume "\<not> i \<le> lower_bound k m"
      then have "fst (entry m (lower_bound k m)) < k" "k \<le> fst (entry m (lower_bound k m))"
        using entry_mono [OF assms(1), of "lower_bound k m" i]
          from_lower_bound [OF assms(1), of k "lower_bound k m"] i by auto
      then show False by simp
    qed
  qed
  with i show ?thesis by simp
qed

lemma missing_at_lower_bound:
  assumes "invar m" and "lookup m k = None" and "lower_bound k m < count m"
  shows "fst (entry m (lower_bound k m)) \<noteq> k"
  using assms lookup_entry [of m k] by (metis option.distinct(1) prod.collapse)

text \<open>The entry before a positive lower bound is the greatest one below the key.\<close>

lemma predecessor:
  assumes "invar m" and "lower_bound k m \<noteq> 0"
  shows "lookup m (fst (entry m (lower_bound k m - 1))) = Some (snd (entry m (lower_bound k m - 1)))"
    and "fst (entry m (lower_bound k m - 1)) < k"
    and "lookup m p = Some s \<Longrightarrow> p < k \<Longrightarrow> p \<le> fst (entry m (lower_bound k m - 1))"
proof -
  let ?j = "lower_bound k m - 1"
  have j: "?j < count m" "?j < lower_bound k m"
    using assms lower_bound_le [OF assms(1), of k] by auto
  show "lookup m (fst (entry m ?j)) = Some (snd (entry m ?j))"
    using j assms(1) lookup_entry [of m "fst (entry m ?j)" "snd (entry m ?j)"] by auto
  show "fst (entry m ?j) < k"
    using below_lower_bound [OF assms(1) j(2)] .
  show "p \<le> fst (entry m ?j)" if p: "lookup m p = Some s" "p < k"
  proof -
    obtain i where i: "i < count m" "entry m i = (p, s)"
      using p assms(1) lookup_entry by blast
    have "i < lower_bound k m"
      using from_lower_bound [OF assms(1), of k i] i p by (fastforce simp: not_le)
    then have "i = ?j \<or> i < ?j" by linarith
    then show ?thesis
      using entry_mono [OF assms(1) _ j(1), of i] i by auto
  qed
qed

lemma no_predecessor:
  assumes "invar m" and "lower_bound k m = 0" and "lookup m p = Some s"
  shows "k \<le> p"
  using assms lookup_entry [of m p s] from_lower_bound [of m k] by fastforce

end

text \<open>The sorted list keeps the contract.\<close>

lemma set_om_emplace_keys: "fst ` set (om_emplace k v m) = insert k (fst ` set m)"
  by (induction k v m rule: om_emplace.induct) auto

lemma om_invar_simps [simp]:
  "om_invar []"
  "om_invar (e # m) \<longleftrightarrow> (\<forall>k\<in>fst ` set m. fst e < k) \<and> om_invar m"
  by (simp_all add: om_invar_def)

lemma om_invar_emplace: "om_invar m \<Longrightarrow> om_invar (om_emplace k v m)"
  by (induction k v m rule: om_emplace.induct) (auto simp del: image_iff simp: set_om_emplace_keys)

lemma om_invar_erase: "om_invar m \<Longrightarrow> om_invar (om_erase k m)"
  by (induction m) (auto simp: om_erase_def)

lemma map_of_om_emplace:
  "om_invar m \<Longrightarrow>
    map_of (om_emplace k v m) = (if map_of m k = None then (map_of m)(k \<mapsto> v) else map_of m)"
  by (induction k v m rule: om_emplace.induct)
     (auto simp: fun_eq_iff dest!: map_of_SomeD)

lemma map_of_om_erase: "map_of (om_erase k m) = (map_of m)(k := None)"
  by (induction m) (auto simp: om_erase_def fun_eq_iff)

lemma om_invar_distinct: "om_invar m \<Longrightarrow> distinct (map fst m)"
  by (simp add: om_invar_def strict_sorted_iff)

interpretation std_map: ordered_map om_emplace om_erase om_lower_bound nth length map_of om_invar
proof unfold_locales
  fix m :: "('k::linorder \<times> 'v) list" and k v i j
  assume inv: "om_invar m"
  show "i < j \<Longrightarrow> j < length m \<Longrightarrow> fst (m ! i) < fst (m ! j)"
    using inv by (simp add: om_invar_def sorted_wrt_iff_nth_less)
  show "map_of m k = Some v \<longleftrightarrow> (\<exists>i<length m. m ! i = (k, v))"
    using om_invar_distinct [OF inv] by (simp add: map_of_eq_Some_iff in_set_conv_nth)
  show "k \<le> fst (m ! i)" if "om_lower_bound k m \<le> i" "i < length m"
  proof -
    let ?n = "om_lower_bound k m"
    have "k \<le> fst (m ! ?n)"
      using that nth_length_takeWhile [of "\<lambda>e. fst e < k" m] by (simp add: om_lower_bound_def not_less)
    moreover have "fst (m ! ?n) \<le> fst (m ! i)"
      using that inv by (cases "?n = i") (auto simp: om_invar_def sorted_wrt_iff_nth_less intro: less_imp_le)
    ultimately show ?thesis by (rule order_trans)
  qed
  show "i < om_lower_bound k m \<Longrightarrow> fst (m ! i) < k"
    by (auto simp: om_lower_bound_def dest: nth_takeWhile_length)
qed (simp_all add: om_invar_emplace om_invar_erase map_of_om_emplace map_of_om_erase
      om_lower_bound_def length_takeWhile_le)

end
