(* ===== verification/Alloc_Site.thy ===== *)
theory Alloc_Site
  imports Std_Containers
begin

section \<open>Allocation sites\<close>

text \<open>
  The class \<open>AllocSite\<close> of \<open>Runtime/alloc_site_handler.h\<close>: the metadata of one allocation call,
  its checked constructor and error value, the range test \<open>containsPtr\<close>, the comparison and the
  hash that make sites keys of the unordered containers. The hash of strings and integers comes
  from the standard library and is an argument of \<open>site_hash\<close>.
\<close>

record alloc_site =
  as_ptr :: rust_ptr
  as_size :: i64
  as_localID :: i64
  as_bbName :: string
  as_funcName :: string
  as_pkey :: u32
  as_isRealloc :: bool

definition AllocSite_error :: alloc_site where
  "AllocSite_error =
    \<lparr>as_ptr = 0, as_size = -1, as_localID = -1, as_bbName = [], as_funcName = [],
     as_pkey = 0, as_isRealloc = False\<rparr>"

definition AllocSite ::
    "rust_ptr \<Rightarrow> i64 \<Rightarrow> i64 \<Rightarrow> string \<Rightarrow> string \<Rightarrow> u32 \<Rightarrow> bool \<Rightarrow> rt_error + alloc_site" where
  "AllocSite p sz lid bb fn pk re =
    (if p = 0 then Inl AssertPtrNonNull
     else if \<not> 0 < sint sz then Inl AssertSizePositive
     else if \<not> 0 \<le> sint lid then Inl AssertLocalIDNonNeg
     else Inr \<lparr>as_ptr = p, as_size = sz, as_localID = lid, as_bbName = bb, as_funcName = fn,
               as_pkey = pk, as_isRealloc = re\<rparr>)"

definition containsPtr :: "alloc_site \<Rightarrow> rust_ptr \<Rightarrow> bool" where
  "containsPtr s q \<longleftrightarrow> as_ptr s \<le> q \<and> q < as_ptr s + as_size s"

definition isValid :: "alloc_site \<Rightarrow> bool" where
  "isValid s \<longleftrightarrow> as_ptr s \<noteq> 0 \<and> 0 < sint (as_size s) \<and> 0 \<le> sint (as_localID s)"

definition addPkey :: "u32 \<Rightarrow> alloc_site \<Rightarrow> alloc_site" where
  "addPkey k s = s\<lparr>as_pkey := k\<rparr>"

definition site_eq :: "alloc_site \<Rightarrow> alloc_site \<Rightarrow> bool" where
  "site_eq a b \<longleftrightarrow>
    as_funcName a = as_funcName b \<and> as_bbName a = as_bbName b \<and> as_localID a = as_localID b"

definition site_hash :: "(string \<Rightarrow> u64) \<Rightarrow> (i64 \<Rightarrow> u64) \<Rightarrow> alloc_site \<Rightarrow> u64" where
  "site_hash hs hi s =
    drop_bit 1 (hs (as_funcName s) XOR push_bit 1 (hs (as_bbName s)))
      XOR push_bit 1 (hi (as_localID s))"

text \<open>What the comparison looks at: the position of the call in the source.\<close>

type_synonym site_key = "string \<times> string \<times> i64"

definition site_key :: "alloc_site \<Rightarrow> site_key" where
  "site_key s = (as_funcName s, as_bbName s, as_localID s)"

subsection \<open>The class invariant\<close>

lemma isValid_error [simp]: "\<not> isValid AllocSite_error"
  by (simp add: isValid_def AllocSite_error_def)

lemma isValid_addPkey [simp, site_simps]: "isValid (addPkey k s) = isValid s"
  by (simp add: isValid_def addPkey_def)

lemma site_key_addPkey [simp, site_simps]: "site_key (addPkey k s) = site_key s"
  by (simp add: site_key_def addPkey_def)

lemma as_ptr_addPkey [simp]: "as_ptr (addPkey k s) = as_ptr s"
  by (simp add: addPkey_def)

lemma as_pkey_addPkey [simp]: "as_pkey (addPkey k s) = k"
  by (simp add: addPkey_def)

lemma AllocSite_Inr:
  "AllocSite p sz lid bb fn pk re = Inr s \<longleftrightarrow>
    isValid s \<and>
    s = \<lparr>as_ptr = p, as_size = sz, as_localID = lid, as_bbName = bb, as_funcName = fn,
         as_pkey = pk, as_isRealloc = re\<rparr>"
  by (auto simp: AllocSite_def isValid_def)

lemma AllocSite_Inr_fields:
  assumes "AllocSite p sz lid bb fn pk re = Inr s"
  shows "isValid s" "as_ptr s = p" "as_size s = sz" "site_key s = (fn, bb, lid)"
    "as_pkey s = pk" "as_isRealloc s = re"
  using assms by (auto simp: AllocSite_Inr site_key_def)

text \<open>
  On a valid site the wrapping range test is the test on integers, and fails everywhere when
  the allocation would reach the end of the address space.
\<close>

lemma containsPtr_valid:
  assumes "isValid s"
  shows "containsPtr s q \<longleftrightarrow>
    uint (as_ptr s) \<le> uint q \<and> uint q < uint (as_ptr s) + sint (as_size s) \<and>
    uint (as_ptr s) + sint (as_size s) < 2 ^ 64"
proof -
  have "sint (as_size s) = uint (as_size s)"
    using assms by (intro sint_pos_eq_uint) (simp add: isValid_def)
  then show ?thesis
    unfolding containsPtr_def by (simp add: word_interval_iff)
qed

lemma containsPtr_below: "q < as_ptr s \<Longrightarrow> \<not> containsPtr s q"
  by (auto simp: containsPtr_def not_less [symmetric])

subsection \<open>Sites as keys\<close>

lemma site_eq_key: "site_eq a b \<longleftrightarrow> site_key a = site_key b"
  by (auto simp: site_eq_def site_key_def)

interpretation site: unordered_keys site_eq "site_hash hs hi" for hs hi
  by unfold_locales (auto simp: site_eq_def site_hash_def)

lemma us_mem_site: "us_mem site_eq s xs \<longleftrightarrow> site_key s \<in> site_key ` set xs"
  by (auto simp: site.mem_iff site_eq_key)

lemma keys_us_insert:
  "site_key ` set (us_insert site_eq s xs) = insert (site_key s) (site_key ` set xs)"
  by (auto simp: us_insert_def us_mem_site image_iff)

lemma us_invar_site: "us_invar site_eq xs \<longleftrightarrow> distinct (map site_key xs)"
  by (induction xs) (auto simp: us_invar_def site_eq_key image_iff)

subsection \<open>The hash\<close>

text \<open>Comparison and hash of sites fit together: the lookup of a site that an unordered map does
  in the bucket of its hash finds what a search of the whole map finds, for any hash of strings
  and integers.\<close>

lemma chain_lookup_by_hash:
  "um_find_bucket (site_hash hs hi) site_eq s m = um_find site_eq s m"
  by (rule site.find_bucket)

end
