(* ===== verification/Site_Handler.thy ===== *)
theory Site_Handler
  imports Alloc_Site
begin

section \<open>The allocation site handler\<close>

text \<open>
  The class \<open>AllocSiteHandler\<close> of \<open>Runtime/alloc_site_handler.h\<close>: the address map, the set of
  faulted sites, the protection keys of threads that are single stepping, and the reallocation
  chains \<open>FM\<close>. Every operation runs under the mutex of the field it touches and is one function
  on the record. The statistics the operations count (\<open>MPK_STATS\<close>) are a record of their own.
\<close>

record PendingPKeyInfo =
  pk_pkey :: u32
  pk_access_rights :: u32

record handler =
  allocation_map :: "(rust_ptr \<times> alloc_site) list"
  fault_set :: "alloc_site list"
  pkey_by_tid_map :: "(thread_id \<times> PendingPKeyInfo) list"
  FM :: "(alloc_site \<times> alloc_site list) list"

definition AllocSiteHandler :: handler where
  "AllocSiteHandler =
    \<lparr>allocation_map = [], fault_set = [], pkey_by_tid_map = [], FM = []\<rparr>"

text \<open>The globals of \<open>MPK_STATS\<close>; an unallocated counter array is the empty list.\<close>

record stats =
  AllocSiteCount :: u64
  AllocSiteUseCounter :: "u64 list"
  allocHookCalls :: u64
  reallocHookCalls :: u64
  deallocHookCalls :: u64

subsection \<open>The address map\<close>

definition insertAllocSite :: "rust_ptr \<Rightarrow> alloc_site \<Rightarrow> handler \<Rightarrow> handler" where
  "insertAllocSite p s h = h\<lparr>allocation_map := om_emplace p s (allocation_map h)\<rparr>"

definition removeAllocSite :: "rust_ptr \<Rightarrow> handler \<Rightarrow> handler" where
  "removeAllocSite p h = h\<lparr>allocation_map := om_erase p (allocation_map h)\<rparr>"

definition getAllocSite :: "rust_ptr \<Rightarrow> handler \<Rightarrow> alloc_site" where
  "getAllocSite q h =
    (let m = allocation_map h in
     if m = [] then AllocSite_error
     else
       let it = om_lower_bound q m in
       if it \<noteq> length m \<and> fst (m ! it) = q then snd (m ! it)
       else
         let it = (if it \<noteq> 0 then it - 1 else it) in
         if containsPtr (snd (m ! it)) q then snd (m ! it) else AllocSite_error)"

subsection \<open>Faults\<close>

definition count_fault :: "alloc_site \<Rightarrow> stats \<Rightarrow> rt_error + stats" where
  "count_fault s st =
    (if AllocSiteCount st \<noteq> 0 then
       (if as_localID s < AllocSiteCount st \<and> 0 \<le> sint (as_localID s) then
          let i = unat (as_localID s); c = AllocSiteUseCounter st
          in Inr (st\<lparr>AllocSiteUseCounter := c[i := c ! i + 1]\<rparr>)
        else Inl AssertSiteCount)
     else Inr st)"

text \<open>The loop over the reallocation chain of a faulted site.\<close>

fun mark_chain ::
    "u32 \<Rightarrow> alloc_site list \<Rightarrow> stats \<Rightarrow> alloc_site list \<Rightarrow> rt_error + stats \<times> alloc_site list" where
  "mark_chain pk [] st fs = Inr (st, fs)"
| "mark_chain pk (a # as) st fs =
     (let a = addPkey pk a; fs = us_insert site_eq a fs
      in and_then (count_fault a st) (\<lambda>st. mark_chain pk as st fs))"

definition addFaultAlloc ::
    "rust_ptr \<Rightarrow> u32 \<Rightarrow> stats \<Rightarrow> handler \<Rightarrow> rt_error + stats \<times> handler" where
  "addFaultAlloc q pk st h =
    (let alloc = getAllocSite q h in
     if \<not> isValid alloc then Inr (st, h)
     else and_then (count_fault alloc st) (\<lambda>st.
       let alloc = addPkey pk alloc;
           fs = us_insert site_eq alloc (fault_set h)
       in case um_find site_eq alloc (FM h) of
            None \<Rightarrow> Inr (st, h\<lparr>fault_set := fs\<rparr>)
          | Some chain \<Rightarrow>
              and_then (mark_chain pk chain st fs) (\<lambda>(st, fs). Inr (st, h\<lparr>fault_set := fs\<rparr>))))"

definition faultingAllocs :: "handler \<Rightarrow> alloc_site list" where
  "faultingAllocs h = fault_set h"

subsection \<open>Pending protection keys\<close>

definition storePendingPKeyInfo :: "thread_id \<Rightarrow> PendingPKeyInfo \<Rightarrow> handler \<Rightarrow> handler" where
  "storePendingPKeyInfo t info h =
    h\<lparr>pkey_by_tid_map := um_emplace (=) t info (pkey_by_tid_map h)\<rparr>"

definition getAndRemove :: "thread_id \<Rightarrow> handler \<Rightarrow> PendingPKeyInfo option \<times> handler" where
  "getAndRemove t h =
    (case um_find (=) t (pkey_by_tid_map h) of
       None \<Rightarrow> (None, h)
     | Some info \<Rightarrow> (Some info, h\<lparr>pkey_by_tid_map := um_erase (=) t (pkey_by_tid_map h)\<rparr>))"

subsection \<open>Reallocation chains\<close>

definition updateReallocChain :: "alloc_site \<Rightarrow> alloc_site \<Rightarrow> handler \<Rightarrow> handler" where
  "updateReallocChain oldAS newAS h =
    (case um_find site_eq oldAS (FM h) of
       None \<Rightarrow> h\<lparr>FM := um_emplace site_eq newAS (us_insert site_eq oldAS []) (FM h)\<rparr>
     | Some chain \<Rightarrow> h\<lparr>FM := um_emplace site_eq newAS (us_insert site_eq oldAS chain) (FM h)\<rparr>)"

text \<open>Threads are compared with the built-in equality.\<close>

interpretation tid: unordered_keys "(=) :: thread_id \<Rightarrow> thread_id \<Rightarrow> bool" "\<lambda>t. t"
  by unfold_locales auto

subsection \<open>The class invariant\<close>

text \<open>
  The map is ordered and every entry is a valid site filed under its own address; the fault set
  and every chain hold valid sites without duplicates; chains belong to reallocation sites.
\<close>

definition map_inv :: "(rust_ptr \<times> alloc_site) list \<Rightarrow> bool" where
  "map_inv m \<longleftrightarrow> om_invar m \<and> (\<forall>e\<in>set m. as_ptr (snd e) = fst e \<and> isValid (snd e))"

definition sites_inv :: "alloc_site list \<Rightarrow> bool" where
  "sites_inv xs \<longleftrightarrow> us_invar site_eq xs \<and> (\<forall>s\<in>set xs. isValid s)"

definition chains_inv :: "(alloc_site \<times> alloc_site list) list \<Rightarrow> bool" where
  "chains_inv m \<longleftrightarrow> (\<forall>e\<in>set m. isValid (fst e) \<and> as_isRealloc (fst e) \<and> snd e \<noteq> [] \<and> sites_inv (snd e))"

definition handler_inv :: "handler \<Rightarrow> bool" where
  "handler_inv h \<longleftrightarrow> map_inv (allocation_map h) \<and> sites_inv (fault_set h) \<and> chains_inv (FM h)"

lemma sites_inv_insert [inv_intros]: "sites_inv xs \<Longrightarrow> isValid s \<Longrightarrow> sites_inv (us_insert site_eq s xs)"
  using site.set_insert_subset [of s xs] by (auto simp: sites_inv_def site.invar_insert)

lemma set_om_emplace: "set (om_emplace k v m) \<subseteq> insert (k, v) (set m)"
  by (induction k v m rule: om_emplace.induct) auto

lemma map_inv_emplace [inv_intros]:
  "map_inv m \<Longrightarrow> isValid s \<Longrightarrow> as_ptr s = p \<Longrightarrow> map_inv (om_emplace p s m)"
  using set_om_emplace [of p s m] by (auto simp: map_inv_def om_invar_emplace)

lemma map_inv_erase [inv_intros]: "map_inv m \<Longrightarrow> map_inv (om_erase p m)"
  by (auto simp: map_inv_def om_invar_erase) (auto simp: om_erase_def)

lemma chains_inv_emplace [inv_intros]:
  "chains_inv m \<Longrightarrow> isValid s \<Longrightarrow> as_isRealloc s \<Longrightarrow> c \<noteq> [] \<Longrightarrow> sites_inv c \<Longrightarrow>
    chains_inv (um_emplace site_eq s c m)"
  using site.set_emplace_subset [of s c m] by (fastforce simp: chains_inv_def)

lemma chains_inv_find: "chains_inv m \<Longrightarrow> um_find site_eq s m = Some c \<Longrightarrow> sites_inv c \<and> c \<noteq> []"
  using site.find_Some [of s m c] by (fastforce simp: chains_inv_def)

lemma us_insert_nonempty [simp]: "us_insert eq x xs \<noteq> []"
  by (auto simp: us_insert_def us_mem_def)

end
