(* ===== verification/Handler_Spec.thy ===== *)
theory Handler_Spec
  imports Site_Handler
begin

section \<open>What the handler promises\<close>

text \<open>
  The abstract state of the handler: which address belongs to which live allocation, which
  source positions have been reported, which positions each reallocation position stands for,
  and which thread waits for which key. \<open>abs_handler\<close> reads it off the concrete containers,
  and each operation of \<open>Site_Handler\<close> is shown to act on it as stated here.
\<close>

record spec_state =
  live :: "rust_ptr \<Rightarrow> alloc_site option"
  reported :: "site_key set"
  origins :: "site_key \<Rightarrow> site_key set option"
  waiting :: "thread_id \<Rightarrow> PendingPKeyInfo option"

definition abs_chains :: "(alloc_site \<times> alloc_site list) list \<Rightarrow> site_key \<Rightarrow> site_key set option" where
  "abs_chains m = map_of (map (\<lambda>e. (site_key (fst e), site_key ` set (snd e))) m)"

definition abs_handler :: "handler \<Rightarrow> spec_state" where
  "abs_handler h =
    \<lparr>live = map_of (allocation_map h), reported = site_key ` set (fault_set h),
     origins = abs_chains (FM h), waiting = (\<lambda>t. um_find (=) t (pkey_by_tid_map h))\<rparr>"

subsection \<open>The site of an address\<close>

text \<open>
  An address filed in the map belongs to its own entry; any other address belongs to the nearest
  entry below it, if that allocation reaches so far.
\<close>

definition spec_site :: "(rust_ptr \<Rightarrow> alloc_site option) \<Rightarrow> rust_ptr \<Rightarrow> alloc_site option" where
  "spec_site L q =
    (case L q of
       Some s \<Rightarrow> Some s
     | None \<Rightarrow>
         (let below = {p. p < q \<and> L p \<noteq> None} in
          if below = {} then None
          else (case L (Max below) of
                  None \<Rightarrow> None
                | Some s \<Rightarrow> (if containsPtr s q then Some s else None))))"

definition spec_site_or_error :: "(rust_ptr \<Rightarrow> alloc_site option) \<Rightarrow> rust_ptr \<Rightarrow> alloc_site" where
  "spec_site_or_error L q = (case spec_site L q of None \<Rightarrow> AllocSite_error | Some s \<Rightarrow> s)"

definition owns :: "alloc_site \<Rightarrow> rust_ptr \<Rightarrow> bool" where
  "owns s q \<longleftrightarrow> uint (as_ptr s) \<le> uint q \<and> uint q < uint (as_ptr s) + sint (as_size s)"

definition well_placed :: "(rust_ptr \<Rightarrow> alloc_site option) \<Rightarrow> bool" where
  "well_placed L \<longleftrightarrow>
    (\<forall>p s. L p = Some s \<longrightarrow>
       as_ptr s = p \<and> isValid s \<and> uint p + sint (as_size s) < 2 ^ 64)"

definition disjoint_live :: "(rust_ptr \<Rightarrow> alloc_site option) \<Rightarrow> bool" where
  "disjoint_live L \<longleftrightarrow>
    (\<forall>p s p' s'. L p = Some s \<longrightarrow> L p' = Some s' \<longrightarrow> uint p < uint p' \<longrightarrow>
       uint p + sint (as_size s) \<le> uint p')"

lemma well_placedD:
  assumes "well_placed L" and "L p = Some s"
  shows "as_ptr s = p" "isValid s" "containsPtr s q \<longleftrightarrow> owns s q" "owns s p"
  using assms containsPtr_valid [of s q]
  by (auto simp: well_placed_def owns_def isValid_def)

lemma spec_site_below:
  assumes "L q = None" and "L p = Some s" and "p < q"
    and "\<And>p' s'. L p' = Some s' \<Longrightarrow> p' < q \<Longrightarrow> p' \<le> p"
  shows "spec_site L q = (if containsPtr s q then Some s else None)"
proof -
  have "Max {p'. p' < q \<and> L p' \<noteq> None} = p"
    using assms by (intro Max_eqI) auto
  moreover have "p \<in> {p'. p' < q \<and> L p' \<noteq> None}" using assms by simp
  ultimately show ?thesis
    using assms(1,2) by (auto simp: spec_site_def Let_def)
qed

text \<open>Over disjoint allocations the site of an address is the one whose block it lies in.\<close>

lemma spec_site_Some_iff:
  assumes wp: "well_placed L" and dj: "disjoint_live L"
  shows "spec_site L q = Some s \<longleftrightarrow> L (as_ptr s) = Some s \<and> owns s q"
proof
  assume "spec_site L q = Some s"
  then obtain p where "L p = Some s" "p = q \<or> containsPtr s q"
    by (auto simp: spec_site_def Let_def split: option.splits if_splits)
  moreover from this have "as_ptr s = p" "containsPtr s q \<longleftrightarrow> owns s q" "owns s p"
    using well_placedD [OF wp] by auto
  ultimately show "L (as_ptr s) = Some s \<and> owns s q" by auto
next
  assume s: "L (as_ptr s) = Some s \<and> owns s q"
  have nearest: "p' \<le> as_ptr s" if "L p' = Some s'" "p' \<le> q" for p' s'
  proof (rule ccontr)
    assume "\<not> p' \<le> as_ptr s"
    then have "uint (as_ptr s) + sint (as_size s) \<le> uint p'"
      using dj s that(1) by (auto simp: disjoint_live_def word_le_def)
    with s that(2) show False by (auto simp: owns_def word_le_def)
  qed
  show "spec_site L q = Some s"
  proof (cases "L q")
    case (Some s')
    then have "q \<le> as_ptr s" using nearest by blast
    then have "as_ptr s = q" using s by (auto simp: owns_def word_le_def intro: antisym)
    with Some s show ?thesis by (simp add: spec_site_def)
  next
    case None
    then have "as_ptr s < q" using s by (metis option.distinct(1) order_le_less owns_def word_le_def)
    then have "spec_site L q = (if containsPtr s q then Some s else None)"
      using s nearest None by (intro spec_site_below) auto
    then show ?thesis using s well_placedD(3) [OF wp] by auto
  qed
qed

lemma spec_site_isValid:
  "spec_site L q = Some s \<Longrightarrow> (\<And>p s. L p = Some s \<Longrightarrow> isValid s) \<Longrightarrow> isValid s"
  by (auto simp: spec_site_def Let_def split: option.splits if_splits)

subsection \<open>The address map implements it\<close>

lemma map_inv_map_of:
  "map_inv m \<Longrightarrow> map_of m p = Some s \<Longrightarrow> as_ptr s = p \<and> isValid s"
  by (force simp: map_inv_def dest: map_of_SomeD)

lemma map_of_eq_empty: "map_of m = Map.empty \<longleftrightarrow> m = []"
  by (cases m) (auto simp: fun_eq_iff)

lemma lookup_site:
  assumes "map_inv (allocation_map h)"
  shows "getAllocSite q h = spec_site_or_error (map_of (allocation_map h)) q"
proof -
  define m where "m = allocation_map h"
  let ?L = "map_of m" and ?i = "om_lower_bound q m"
  have inv: "om_invar m" using assms by (simp add: map_inv_def m_def)
  consider (empty) "m = []" | (exact) s where "?L q = Some s"
    | (below) "m \<noteq> []" "?L q = None" "?i \<noteq> 0" | (none) "m \<noteq> []" "?L q = None" "?i = 0"
    by (cases "?L q") auto
  then show ?thesis
  proof cases
    case empty
    then show ?thesis by (simp add: getAllocSite_def spec_site_or_error_def spec_site_def m_def)
  next
    case exact
    then have "m \<noteq> []" by auto
    moreover have "?i < length m" "m ! ?i = (q, s)"
      using std_map.exact_at_lower_bound [OF inv exact] by auto
    ultimately show ?thesis
      using exact by (simp add: getAllocSite_def spec_site_or_error_def spec_site_def m_def)
  next
    case below
    note pred = std_map.predecessor [OF inv below(3)]
    have "\<not> (?i \<noteq> length m \<and> fst (m ! ?i) = q)"
      using std_map.missing_at_lower_bound [OF inv below(2)] std_map.lower_bound_le [OF inv, of q]
      by auto
    then have "getAllocSite q h =
        (if containsPtr (snd (m ! (?i - 1))) q then snd (m ! (?i - 1)) else AllocSite_error)"
      using below by (auto simp: getAllocSite_def m_def [symmetric] Let_def)
    then show ?thesis
      using spec_site_below [OF below(2) pred(1,2) pred(3)]
      by (simp add: spec_site_or_error_def m_def)
  next
    case none
    have "q \<le> fst (m ! 0)" and first: "m ! 0 \<in> set m"
      using none std_map.from_lower_bound [OF inv, of q 0] by auto
    moreover have "fst (m ! 0) \<noteq> q"
      using none first std_map.missing_at_lower_bound [OF inv none(2)] by auto
    moreover have "as_ptr (snd (m ! 0)) = fst (m ! 0)"
      using assms first by (simp add: map_inv_def m_def)
    ultimately have "\<not> containsPtr (snd (m ! 0)) q" "fst (m ! 0) \<noteq> q"
      using containsPtr_below [of q "snd (m ! 0)"] by auto
    moreover have "{p. p < q \<and> ?L p \<noteq> None} = {}"
      using std_map.no_predecessor [OF inv none(3)] by fastforce
    ultimately show ?thesis
      using none by (simp add: getAllocSite_def m_def [symmetric] spec_site_or_error_def spec_site_def)
  qed
qed

lemma getAllocSite_spec:
  "handler_inv h \<Longrightarrow> getAllocSite q h = spec_site_or_error (live (abs_handler h)) q"
  by (simp add: handler_inv_def lookup_site abs_handler_def)

lemma spec_site_or_error_isValid:
  assumes "map_inv m"
  shows "isValid (spec_site_or_error (map_of m) q) \<longleftrightarrow> spec_site (map_of m) q \<noteq> None"
  using spec_site_isValid [of "map_of m" q] map_inv_map_of [OF assms]
  by (auto simp: spec_site_or_error_def split: option.splits)

subsection \<open>The other operations on the abstract state\<close>

definition spec_insert :: "rust_ptr \<Rightarrow> alloc_site \<Rightarrow> spec_state \<Rightarrow> spec_state" where
  "spec_insert p s a = a\<lparr>live := (if live a p = None then (live a)(p \<mapsto> s) else live a)\<rparr>"

definition spec_remove :: "rust_ptr \<Rightarrow> spec_state \<Rightarrow> spec_state" where
  "spec_remove p a = a\<lparr>live := (live a)(p := None)\<rparr>"

text \<open>A chain, once begun for a source position, is never replaced.\<close>

definition spec_chain :: "site_key \<Rightarrow> site_key \<Rightarrow> spec_state \<Rightarrow> spec_state" where
  "spec_chain old new a =
    (if origins a new \<noteq> None then a
     else a\<lparr>origins := (origins a)(new \<mapsto>
            insert old (case origins a old of None \<Rightarrow> {} | Some c \<Rightarrow> c))\<rparr>)"

definition spec_fault :: "rust_ptr \<Rightarrow> spec_state \<Rightarrow> spec_state" where
  "spec_fault q a =
    (case spec_site (live a) q of
       None \<Rightarrow> a
     | Some s \<Rightarrow> a\<lparr>reported := reported a \<union> {site_key s} \<union>
         (case origins a (site_key s) of None \<Rightarrow> {} | Some c \<Rightarrow> c)\<rparr>)"

definition spec_store :: "thread_id \<Rightarrow> PendingPKeyInfo \<Rightarrow> spec_state \<Rightarrow> spec_state" where
  "spec_store t i a =
    a\<lparr>waiting := (if waiting a t = None then (waiting a)(t \<mapsto> i) else waiting a)\<rparr>"

definition spec_take :: "thread_id \<Rightarrow> spec_state \<Rightarrow> spec_state" where
  "spec_take t a = a\<lparr>waiting := (waiting a)(t := None)\<rparr>"

lemma chains_find:
  "abs_chains m (site_key s) = map_option (\<lambda>c. site_key ` set c) (um_find site_eq s m)"
  by (induction m) (auto simp: abs_chains_def site_eq_key)

lemma abs_chains_append:
  "abs_chains (m @ [(s, c)]) = (\<lambda>k. case abs_chains m k of
     None \<Rightarrow> (if k = site_key s then Some (site_key ` set c) else None) | Some d \<Rightarrow> Some d)"
  by (auto simp: abs_chains_def map_add_def fun_eq_iff split: option.splits)

lemma abs_chains_emplace:
  "abs_chains (um_emplace site_eq s c m) =
    (if abs_chains m (site_key s) \<noteq> None then abs_chains m
     else (abs_chains m)(site_key s \<mapsto> site_key ` set c))"
  by (auto simp: um_emplace_def chains_find abs_chains_append fun_eq_iff split: option.splits)

lemma abs_insert:
  "handler_inv h \<Longrightarrow> abs_handler (insertAllocSite p s h) = spec_insert p s (abs_handler h)"
  by (simp add: handler_inv_def map_inv_def abs_handler_def insertAllocSite_def spec_insert_def
      map_of_om_emplace)

lemma abs_remove: "abs_handler (removeAllocSite p h) = spec_remove p (abs_handler h)"
  by (simp add: abs_handler_def removeAllocSite_def spec_remove_def map_of_om_erase)

lemma abs_update_chain:
  "abs_handler (updateReallocChain old new h) =
    spec_chain (site_key old) (site_key new) (abs_handler h)"
  by (auto simp: abs_handler_def updateReallocChain_def spec_chain_def abs_chains_emplace
      chains_find keys_us_insert split: option.splits)

lemma abs_store: "abs_handler (storePendingPKeyInfo t i h) = spec_store t i (abs_handler h)"
  by (auto simp: abs_handler_def storePendingPKeyInfo_def spec_store_def tid.find_emplace
      split: option.splits)

lemma abs_getAndRemove:
  "fst (getAndRemove t h) = waiting (abs_handler h) t"
  "abs_handler (snd (getAndRemove t h)) = spec_take t (abs_handler h)"
  by (auto simp: abs_handler_def getAndRemove_def spec_take_def tid.find_erase fun_eq_iff
      split: option.splits)

subsection \<open>Faults\<close>

lemma count_fault_cases:
  "count_fault s st = Inr st' \<Longrightarrow> AllocSiteCount st' = AllocSiteCount st"
  by (auto simp: count_fault_def Let_def split: if_splits)

lemma mark_chain_Cons:
  "mark_chain pk (a # c) st fs = Inr r \<longleftrightarrow>
    (\<exists>st'. count_fault (addPkey pk a) st = Inr st' \<and>
       mark_chain pk c st' (us_insert site_eq (addPkey pk a) fs) = Inr r)"
  by (simp add: Let_def and_then_eq_Inr)

lemma sites_inv_insert_addPkey:
  "sites_inv xs \<Longrightarrow> isValid s \<Longrightarrow> sites_inv (us_insert site_eq (addPkey k s) xs)"
  by (simp add: sites_inv_insert)

lemma mark_chain_keys:
  "mark_chain pk c st fs = Inr (st', fs') \<Longrightarrow>
    site_key ` set fs' = site_key ` set fs \<union> site_key ` set c"
  by (induction c arbitrary: st fs)
     (fastforce simp: mark_chain_Cons keys_us_insert simp del: mark_chain.simps(2))+

lemma mark_chain_inv:
  "mark_chain pk c st fs = Inr (st', fs') \<Longrightarrow> sites_inv fs \<Longrightarrow> (\<forall>s\<in>set c. isValid s) \<Longrightarrow>
    sites_inv fs'"
  by (induction c arbitrary: st fs)
     (auto simp: mark_chain_Cons simp del: mark_chain.simps(2) dest: sites_inv_insert_addPkey)

lemma mark_chain_keeps:
  "mark_chain pk c st fs = Inr (st', fs') \<Longrightarrow> s \<in> set fs \<Longrightarrow> s \<in> set fs'"
  by (induction c arbitrary: st fs)
     (auto simp: mark_chain_Cons simp del: mark_chain.simps(2) dest: site.insert_keeps)

text \<open>What a successful \<open>addFaultAlloc\<close> did, on the branch it took.\<close>

lemma addFaultAlloc_cases:
  assumes "addFaultAlloc q pk st h = Inr (st', h')"
  obtains (miss) "\<not> isValid (getAllocSite q h)" "st' = st" "h' = h"
    | (plain) fs where "isValid (getAllocSite q h)"
        "um_find site_eq (getAllocSite q h) (FM h) = None"
        "fs = us_insert site_eq (addPkey pk (getAllocSite q h)) (fault_set h)"
        "h' = h\<lparr>fault_set := fs\<rparr>"
    | (chain) c st'' fs where "isValid (getAllocSite q h)"
        "um_find site_eq (getAllocSite q h) (FM h) = Some c"
        "mark_chain pk c st'' (us_insert site_eq (addPkey pk (getAllocSite q h)) (fault_set h)) =
          Inr (st', fs)"
        "h' = h\<lparr>fault_set := fs\<rparr>"
proof -
  have same: "um_find site_eq (addPkey pk (getAllocSite q h)) (FM h) =
      um_find site_eq (getAllocSite q h) (FM h)"
    by (rule site.find_cong_key) (simp add: site_eq_key)
  let ?fs = "us_insert site_eq (addPkey pk (getAllocSite q h)) (fault_set h)"
  show ?thesis
  proof (cases "isValid (getAllocSite q h)")
    case False
    with assms have "st' = st" "h' = h" by (simp_all add: addFaultAlloc_def Let_def)
    with False show ?thesis by (rule miss)
  next
    case True
    show ?thesis
    proof (cases "um_find site_eq (getAllocSite q h) (FM h)")
      case None
      with assms True have "h' = h\<lparr>fault_set := ?fs\<rparr>"
        by (auto simp: addFaultAlloc_def Let_def same and_then_eq_Inr)
      with True None show ?thesis by (intro plain) simp_all
    next
      case (Some c)
      with assms True obtain st'' fs where
        "mark_chain pk c st'' ?fs = Inr (st', fs)" "h' = h\<lparr>fault_set := fs\<rparr>"
        by (auto simp: addFaultAlloc_def Let_def same and_then_eq_Inr)
      with True Some show ?thesis by (intro chain)
    qed
  qed
qed

lemma addFaultAlloc_frame:
  assumes "addFaultAlloc q pk st h = Inr (st', h')"
  shows "allocation_map h' = allocation_map h" "FM h' = FM h"
    "pkey_by_tid_map h' = pkey_by_tid_map h" "set (fault_set h) \<subseteq> set (fault_set h')"
  using assms by (auto elim!: addFaultAlloc_cases dest: site.insert_keeps mark_chain_keeps)

lemma addFaultAlloc_inv:
  assumes "addFaultAlloc q pk st h = Inr (st', h')" and "handler_inv h"
  shows "handler_inv h'"
  using assms(1)
proof (cases rule: addFaultAlloc_cases)
  case miss
  then show ?thesis using assms(2) by simp
next
  case (plain fs)
  then show ?thesis using assms(2) by (simp add: handler_inv_def sites_inv_insert)
next
  case (chain c st'' fs)
  moreover have "sites_inv c"
    using chains_inv_find [of "FM h"] chain(2) assms(2) by (auto simp: handler_inv_def)
  ultimately have "sites_inv fs"
    using assms(2) mark_chain_inv [OF chain(3)]
    by (auto simp: handler_inv_def sites_inv_def [of c] dest: sites_inv_insert_addPkey)
  then show ?thesis using chain assms(2) by (simp add: handler_inv_def)
qed

lemma abs_addFaultAlloc:
  assumes "addFaultAlloc q pk st h = Inr (st', h')" and inv: "handler_inv h"
  shows "abs_handler h' = spec_fault q (abs_handler h)"
proof -
  let ?L = "map_of (allocation_map h)"
  have mi: "map_inv (allocation_map h)" using inv by (simp add: handler_inv_def)
  have site: "getAllocSite q h = spec_site_or_error ?L q" by (rule lookup_site [OF mi])
  note valid = spec_site_or_error_isValid [OF mi, of q]
  show ?thesis
    using assms(1)
  proof (cases rule: addFaultAlloc_cases)
    case miss
    then show ?thesis using site valid by (simp add: spec_fault_def abs_handler_def)
  next
    case (plain fs)
    then obtain s where "spec_site ?L q = Some s" "getAllocSite q h = s"
      using site valid by (auto simp: spec_site_or_error_def)
    with plain show ?thesis
      by (simp add: spec_fault_def abs_handler_def chains_find keys_us_insert)
  next
    case (chain c st'' fs)
    then obtain s where "spec_site ?L q = Some s" "getAllocSite q h = s"
      using site valid by (auto simp: spec_site_or_error_def)
    with chain mark_chain_keys [OF chain(3)] show ?thesis
      by (simp add: spec_fault_def abs_handler_def chains_find keys_us_insert)
  qed
qed

lemma handler_inv_insert [inv_intros]:
  "handler_inv h \<Longrightarrow> isValid s \<Longrightarrow> as_ptr s = p \<Longrightarrow> handler_inv (insertAllocSite p s h)"
  by (simp add: handler_inv_def insertAllocSite_def map_inv_emplace)

lemma handler_inv_remove [inv_intros]: "handler_inv h \<Longrightarrow> handler_inv (removeAllocSite p h)"
  by (simp add: handler_inv_def removeAllocSite_def map_inv_erase)

lemma handler_inv_chain [inv_intros]:
  assumes "handler_inv h" and "isValid old" and "isValid new" and "as_isRealloc new"
  shows "handler_inv (updateReallocChain old new h)"
  using assms chains_inv_find [of "FM h" old]
  by (auto simp: handler_inv_def updateReallocChain_def intro!: chains_inv_emplace sites_inv_insert
      split: option.splits) (auto simp: sites_inv_def us_invar_def)

lemma handler_inv_pending [inv_intros]:
  "handler_inv h \<Longrightarrow> handler_inv (storePendingPKeyInfo t i h)"
  "handler_inv h \<Longrightarrow> handler_inv (snd (getAndRemove t h))"
  by (auto simp: handler_inv_def storePendingPKeyInfo_def getAndRemove_def split: option.splits)

lemma handler_inv_init [inv_intros]: "handler_inv AllocSiteHandler"
  by (simp add: handler_inv_def AllocSiteHandler_def map_inv_def sites_inv_def chains_inv_def
      us_invar_def)

subsection \<open>Properties\<close>

text \<open>A block of 16 bytes.\<close>

definition demo_site :: alloc_site where
  "demo_site =
    \<lparr>as_ptr = 0x1000, as_size = 16, as_localID = 0, as_bbName = ''entry'', as_funcName = ''f'',
     as_pkey = 0, as_isRealloc = False\<rparr>"

text \<open>C32: The wrapping range test of a valid site accepts exactly the addresses of its block; if the
  block would reach the end of the address space it accepts none, as the source notes.\<close>

theorem containsPtr_range:
  assumes "isValid s"
  shows "containsPtr s q \<longleftrightarrow> uint (as_ptr s) + sint (as_size s) < 2 ^ 64 \<and> owns s q"
  using containsPtr_valid [OF assms, of q] by (auto simp: owns_def)

theorem containsPtr_range_witness: "containsPtr demo_site 0x100F \<and> \<not> containsPtr demo_site 0x1010"
  using containsPtr_range [of demo_site "0x100F"] containsPtr_range [of demo_site "0x1010"]
  by (simp add: demo_site_def isValid_def owns_def)

text \<open>A position that was reported once keeps the entry of its first fault, with the key of that
  fault: a later fault, also with another key, leaves one entry per position and does not
  change it.\<close>

lemma first_pkey_wins:
  assumes "handler_inv h" and "addFaultAlloc q pk st h = Inr (st', h')"
    and "s \<in> set (fault_set h)" and "s' \<in> set (fault_set h')" and "site_key s' = site_key s"
  shows "s' = s"
proof -
  have "s \<in> set (fault_set h')" using addFaultAlloc_frame(4) [OF assms(2)] assms(3) by blast
  moreover have "distinct (map site_key (fault_set h'))"
    using addFaultAlloc_inv [OF assms(2,1)] by (simp add: handler_inv_def sites_inv_def us_invar_site)
  ultimately show ?thesis using assms(4,5) by (auto simp: distinct_map inj_on_def)
qed

end
