(* ===== verification/Signal_Setup.thy ===== *)
theory Signal_Setup
  imports Provsan_Prelude
begin

section \<open>Installing the signal handlers\<close>

text \<open>
  \<open>Runtime/provsan_init.cpp\<close>: the globals \<open>prevAction\<close>, \<open>SEGVAction\<close> and \<open>SIGTAction\<close> point
  to static \<open>struct sigaction\<close> objects, which the functions share and overwrite. The store
  \<open>sa_mem\<close> keeps the objects by address, \<open>disposition\<close> is the kernel's table, and
  \<open>sigaction_call\<close> is the system call.
\<close>

datatype signal = SIGSEGV | SIGTRAP | OtherSignal nat

text \<open>The function in a disposition; \<open>User_fn\<close> are handlers of the instrumented program.\<close>

datatype sig_fn = SIG_DFL | SIG_IGN | Pku_segv_handler | Pku_trap_handler | User_fn nat

abbreviation SA_SIGINFO :: u32 where "SA_SIGINFO \<equiv> 4"

record sigact =
  sa_flags :: u32
  sa_mask :: "signal list"
  sa_fn :: sig_fn

text \<open>The static objects, by the function that declares them, and objects of the program.\<close>

datatype sa_loc = Fault_handler_sa | Constructor_sa | Constructor_sa_old | Constructor_sa_trap | User_sa nat

record sig_state =
  disposition :: "signal \<Rightarrow> sigact"
  sa_mem :: "sa_loc \<Rightarrow> sigact"
  prevAction :: "sa_loc option"
  SEGVAction :: "sa_loc option"
  SIGTAction :: "sa_loc option"

definition zero_sa :: sigact where
  "zero_sa = \<lparr>sa_flags = 0, sa_mask = [], sa_fn = SIG_DFL\<rparr>"

definition siginfo_sa :: "sig_fn \<Rightarrow> sigact" where
  "siginfo_sa f = \<lparr>sa_flags = SA_SIGINFO, sa_mask = [], sa_fn = f\<rparr>"

text \<open>\<open>sigaction(sig, &act, old)\<close>.\<close>

definition sigaction_call :: "signal \<Rightarrow> sa_loc \<Rightarrow> sa_loc option \<Rightarrow> sig_state \<Rightarrow> sig_state" where
  "sigaction_call sig act old s =
    s\<lparr>disposition := (disposition s)(sig := sa_mem s act),
      sa_mem := (case old of None \<Rightarrow> sa_mem s | Some l \<Rightarrow> (sa_mem s)(l := disposition s sig))\<rparr>"

definition provsan_SEGV_fault_handler :: "sa_loc option \<Rightarrow> sig_state \<Rightarrow> sig_state" where
  "provsan_SEGV_fault_handler oldact s =
    (let s = (if SEGVAction s = None
              then s\<lparr>sa_mem := (sa_mem s)(Fault_handler_sa := siginfo_sa Pku_segv_handler),
                     SEGVAction := Some Fault_handler_sa\<rparr>
              else s);
         s = (case (oldact, prevAction s) of
                (Some l, Some p) \<Rightarrow> s\<lparr>sa_mem := (sa_mem s)(l := sa_mem s p)\<rparr>
              | _ \<Rightarrow> s)
     in case SEGVAction s of None \<Rightarrow> s | Some act \<Rightarrow> sigaction_call SIGSEGV act (prevAction s) s)"

text \<open>
  The signal part of \<open>provsan_untrusted_constructor\<close>; the flag says whether the runtime was built
  with \<open>PAGE_MPK\<close>.
\<close>

definition install_handlers :: "bool \<Rightarrow> sig_state \<Rightarrow> sig_state" where
  "install_handlers page_mpk s =
    (let s = s\<lparr>sa_mem := (sa_mem s)(Constructor_sa := siginfo_sa Pku_segv_handler)\<rparr>;
         s = sigaction_call SIGSEGV Constructor_sa (Some Constructor_sa_old) s;
         s = (if SEGVAction s = None then s\<lparr>SEGVAction := Some Constructor_sa\<rparr> else s);
         s = s\<lparr>prevAction := Some Constructor_sa_old\<rparr>
     in if page_mpk then s
        else
          let s = s\<lparr>sa_mem := (sa_mem s)(Constructor_sa_trap := siginfo_sa Pku_trap_handler)\<rparr>;
              s = sigaction_call SIGTRAP Constructor_sa_trap None s
          in if SIGTAction s = None then s\<lparr>SIGTAction := Some Constructor_sa_trap\<rparr> else s)"

text \<open>What \<open>prevAction\<close> points to.\<close>

definition prev_sa :: "sig_state \<Rightarrow> sigact option" where
  "prev_sa s = map_option (sa_mem s) (prevAction s)"

lemmas sigaction_simps = sigaction_call_def siginfo_sa_def prev_sa_def Let_def

text \<open>
  Once installed, whatever \<open>SEGVAction\<close> points to is a three-argument disposition of
  \<open>pku_segv_handler\<close>; this is what every later call installs again.
\<close>

definition segv_action_ok :: "sig_state \<Rightarrow> bool" where
  "segv_action_ok s \<longleftrightarrow>
    (case SEGVAction s of
       None \<Rightarrow> True
     | Some l \<Rightarrow> l \<in> {Fault_handler_sa, Constructor_sa} \<and> sa_mem s l = siginfo_sa Pku_segv_handler) \<and>
    (case prevAction s of None \<Rightarrow> True | Some l \<Rightarrow> l = Constructor_sa_old)"

lemma install_handlers_ok: "segv_action_ok s \<Longrightarrow> segv_action_ok (install_handlers pm s)"
  by (auto simp: segv_action_ok_def install_handlers_def sigaction_call_def Let_def
      split: option.splits)

lemma fault_handler_ok:
  assumes "segv_action_ok s" and "oldact \<notin> {Some Fault_handler_sa, Some Constructor_sa}"
  shows "segv_action_ok (provsan_SEGV_fault_handler oldact s)"
  using assms
  by (auto simp: segv_action_ok_def provsan_SEGV_fault_handler_def sigaction_call_def Let_def
      split: option.splits)

lemma install_handlers_effect:
  "disposition (install_handlers pm s) SIGSEGV = siginfo_sa Pku_segv_handler"
  "prev_sa (install_handlers pm s) = Some (disposition s SIGSEGV)"
  "disposition (install_handlers pm s) SIGTRAP =
    (if pm then disposition s SIGTRAP else siginfo_sa Pku_trap_handler)"
  by (auto simp: install_handlers_def sigaction_simps)

lemma install_handlers_prev: "prevAction (install_handlers pm s) = Some Constructor_sa_old"
  by (simp add: install_handlers_def Let_def sigaction_call_def)

lemma fault_handler_effect:
  assumes "segv_action_ok s" and "oldact \<notin> {Some Fault_handler_sa, Some Constructor_sa}"
  shows "disposition (provsan_SEGV_fault_handler oldact s) SIGSEGV = siginfo_sa Pku_segv_handler"
    and "prev_sa (provsan_SEGV_fault_handler oldact s) =
      (if prevAction s = None then None else Some (disposition s SIGSEGV))"
  using assms
  by (auto simp: segv_action_ok_def provsan_SEGV_fault_handler_def sigaction_call_def
      prev_sa_def Let_def split: option.splits)

subsection \<open>Properties\<close>

text \<open>When the program replaced the handler after initialisation,
  \<open>provsan_SEGV_fault_handler\<close> puts the sanitizer's back, saves the program's as the action to
  forward to, and hands the caller the action that was saved before.\<close>

lemma fault_handler_reinstalls:
  assumes "segv_action_ok s" and "prevAction s \<noteq> None"
  shows "disposition (provsan_SEGV_fault_handler (Some (User_sa n)) s) SIGSEGV =
      siginfo_sa Pku_segv_handler \<and>
    prev_sa (provsan_SEGV_fault_handler (Some (User_sa n)) s) = Some (disposition s SIGSEGV) \<and>
    Some (sa_mem (provsan_SEGV_fault_handler (Some (User_sa n)) s) (User_sa n)) = prev_sa s"
proof -
  have "Some (sa_mem (provsan_SEGV_fault_handler (Some (User_sa n)) s) (User_sa n)) = prev_sa s"
    using assms
    by (auto simp: segv_action_ok_def provsan_SEGV_fault_handler_def sigaction_call_def
        prev_sa_def Let_def split: option.splits)
  then show ?thesis
    using fault_handler_effect [OF assms(1), of "Some (User_sa n)"] assms(2) by simp
qed

end
