(* ===== verification/Pkey_Utils.thy ===== *)
theory Pkey_Utils
  imports Provsan_Prelude
begin

section \<open>Protection keys and the PKRU register\<close>

text \<open>
  \<open>Runtime/provsan_utils.cpp\<close>: reading and writing the two rights bits of a protection key in
  a PKRU value, and finding the saved PKRU inside the signal frame. The frame's floating point
  save area is a byte memory indexed from \<open>fpregs\<close>; the position of PKRU in it comes from the
  \<open>cpuid\<close> instruction, which is an argument (its results for a leaf and a subleaf).
\<close>

datatype errno = EINVAL

abbreviation PKEY_ENABLE_ACCESS :: u32 where "PKEY_ENABLE_ACCESS \<equiv> 0"
abbreviation PKEY_DISABLE_ACCESS :: u32 where "PKEY_DISABLE_ACCESS \<equiv> 1"
abbreviation PKEY_DISABLE_WRITE :: u32 where "PKEY_DISABLE_WRITE \<equiv> 2"

text \<open>Return value, and the value written to \<open>errno\<close> if any.\<close>

definition pkey_get :: "u32 \<Rightarrow> i32 \<Rightarrow> i32 \<times> errno option" where
  "pkey_get pkru key =
    (if sint key < 0 \<or> sint key > 15 then (-1, Some EINVAL)
     else (drop_bit (nat (2 * sint key)) pkru AND 3, None))"

text \<open>Return value, the new register, and the value written to \<open>errno\<close> if any.\<close>

definition pkey_set :: "u32 \<Rightarrow> i32 \<Rightarrow> u32 \<Rightarrow> i32 \<times> u32 \<times> errno option" where
  "pkey_set pkru key rights =
    (if sint key < 0 \<or> sint key > 15 \<or> rights > 3 then (-1, pkru, Some EINVAL)
     else let mask = push_bit (nat (2 * sint key)) 3
          in (0, (pkru AND NOT mask) OR push_bit (nat (2 * sint key)) rights, None))"

abbreviation pkru_after_set :: "u32 \<Rightarrow> i32 \<Rightarrow> u32 \<Rightarrow> u32" where
  "pkru_after_set pkru key rights \<equiv> fst (snd (pkey_set pkru key rights))"

abbreviation valid_key :: "i32 \<Rightarrow> bool" where
  "valid_key key \<equiv> 0 \<le> sint key \<and> sint key \<le> 15"

subsection \<open>The saved register in the signal frame\<close>

type_synonym cpuid_fn = "u32 \<Rightarrow> u32 \<Rightarrow> u32 \<times> u32 \<times> u32 \<times> u32"

definition pkru_xstate_offset :: "cpuid_fn \<Rightarrow> int" where
  "pkru_xstate_offset cpuid =
    (let (eax, ebx, ecx, edx) = cpuid 0xd 9;
         xstate_offset = sint ebx;
         xstate_size = sint eax
     in if xstate_size = 0 then 0 else xstate_offset)"

record ucontext =
  fpregs :: "int \<Rightarrow> 8 word"
  REG_EFL :: "64 word"

definition load_u32 :: "(int \<Rightarrow> 8 word) \<Rightarrow> int \<Rightarrow> u32" where
  "load_u32 m i =
    ucast (m i) OR push_bit 8 (ucast (m (i + 1))) OR push_bit 16 (ucast (m (i + 2)))
      OR push_bit 24 (ucast (m (i + 3)))"

definition store_u32 :: "int \<Rightarrow> u32 \<Rightarrow> (int \<Rightarrow> 8 word) \<Rightarrow> (int \<Rightarrow> 8 word)" where
  "store_u32 i w m =
    m(i := ucast w, i + 1 := ucast (drop_bit 8 w), i + 2 := ucast (drop_bit 16 w),
      i + 3 := ucast (drop_bit 24 w))"

text \<open>\<open>pkru_ptr\<close> is the offset of the register in the save area; the handlers read and write through it.\<close>

definition pkru_ptr :: "cpuid_fn \<Rightarrow> int" where
  "pkru_ptr cpuid = pkru_xstate_offset cpuid"

definition read_pkru :: "cpuid_fn \<Rightarrow> ucontext \<Rightarrow> u32" where
  "read_pkru cpuid c = load_u32 (fpregs c) (pkru_ptr cpuid)"

definition write_pkru :: "cpuid_fn \<Rightarrow> u32 \<Rightarrow> ucontext \<Rightarrow> ucontext" where
  "write_pkru cpuid w c = c\<lparr>fpregs := store_u32 (pkru_ptr cpuid) w (fpregs c)\<rparr>"

subsection \<open>Bits of the rights\<close>

lemma rights_bit: "bit (r :: u32) n \<Longrightarrow> r \<le> 3 \<Longrightarrow> n < 2"
proof -
  assume b: "bit r n" and r: "r \<le> 3"
  have "r < 4" using r by (simp add: word_le_nat_alt word_less_nat_alt)
  then have "r mod 4 = r" by (rule mod_word_less)
  then have "take_bit 2 r = r" by (simp add: take_bit_eq_mod)
  with b show "n < 2" by (metis bit_take_bit_iff)
qed

lemma bit_three: "bit (3 :: int) n \<longleftrightarrow> n < 2"
proof -
  have m: "(3 :: int) = mask 2" by (simp add: mask_eq_exp_minus_1)
  show ?thesis unfolding m bit_mask_iff by auto
qed

lemma bit_pkey_get:
  "valid_key key \<Longrightarrow> bit (fst (pkey_get pkru key)) n \<longleftrightarrow> n < 2 \<and> bit pkru (nat (2 * sint key) + n)"
  by (auto simp: pkey_get_def bit_simps bit_three)

lemma bit_pkey_set:
  assumes "valid_key key" and "rights \<le> 3" and "n < 32"
  shows "bit (pkru_after_set pkru key rights) n \<longleftrightarrow>
    (if nat (2 * sint key) \<le> n \<and> n < nat (2 * sint key) + 2
     then bit rights (n - nat (2 * sint key)) else bit pkru n)"
  using assms rights_bit [of rights "n - nat (2 * sint key)"]
  by (auto simp: pkey_set_def Let_def bit_simps bit_three not_less)

lemma pkey_get_le_3: "valid_key key \<Longrightarrow> fst (pkey_get pkru key) \<le> 3"
  by (simp add: pkey_get_def word_and_le1)

lemma pkey_get_after_set:
  assumes "valid_key key" and "rights \<le> 3"
  shows "fst (pkey_get (pkru_after_set pkru key rights) key) = rights"
proof (rule bit_word_eqI)
  fix n assume n: "n < LENGTH(32)"
  show "bit (fst (pkey_get (pkru_after_set pkru key rights) key)) n \<longleftrightarrow> bit rights n"
    using assms rights_bit [of rights n]
    by (cases "n < 2") (auto simp: bit_pkey_get bit_pkey_set)
qed

lemma pkey_get_after_set_other:
  assumes "valid_key key" and "valid_key key'" and "key' \<noteq> key" and "rights \<le> 3"
  shows "pkey_get (pkru_after_set pkru key rights) key' = pkey_get pkru key'"
proof -
  have ne: "sint key' \<noteq> sint key" using assms(3) by (metis signed_word_eqI)
  have "fst (pkey_get (pkru_after_set pkru key rights) key') = fst (pkey_get pkru key')"
  proof (rule bit_word_eqI)
    fix n assume "n < LENGTH(32)"
    have "\<not> (nat (2 * sint key) \<le> nat (2 * sint key') + n \<and>
        nat (2 * sint key') + n < nat (2 * sint key) + 2)" if "n < 2"
      using assms ne that by arith
    then show "bit (fst (pkey_get (pkru_after_set pkru key rights) key')) n \<longleftrightarrow>
        bit (fst (pkey_get pkru key')) n"
      using assms by (cases "n < 2") (auto simp: bit_pkey_get bit_pkey_set)
  qed
  with assms(2) show ?thesis by (simp add: pkey_get_def)
qed

lemma pkey_set_restores:
  assumes "valid_key key" and "rights \<le> 3"
  shows "pkru_after_set (pkru_after_set pkru key rights) key (fst (pkey_get pkru key)) = pkru"
proof (rule bit_word_eqI)
  fix n assume "n < LENGTH(32)"
  then show "bit (pkru_after_set (pkru_after_set pkru key rights) key (fst (pkey_get pkru key))) n
      \<longleftrightarrow> bit pkru n"
    using assms pkey_get_le_3 [OF assms(1), of pkru]
    by (auto simp: bit_pkey_get bit_pkey_set)
qed

lemma pkey_set_invalid: "\<not> valid_key key \<or> rights > 3 \<Longrightarrow> pkey_set pkru key rights = (-1, pkru, Some EINVAL)"
  by (auto simp: pkey_set_def)

subsection \<open>Bytes of the saved register\<close>

lemma load_store_u32 [simp]: "load_u32 (store_u32 i w m) i = w"
proof (rule bit_word_eqI)
  fix n assume "n < LENGTH(32)"
  then consider "n < 8" | "8 \<le> n" "n < 16" | "16 \<le> n" "n < 24" | "24 \<le> n" "n < 32"
    by fastforce
  then show "bit (load_u32 (store_u32 i w m) i) n \<longleftrightarrow> bit w n"
    by cases (auto simp: load_u32_def store_u32_def bit_simps)
qed

lemma store_load_u32 [simp]: "store_u32 i (load_u32 m i) m = m"
proof (rule ext)
  have b0: "ucast (load_u32 m i) = m i"
    by (rule bit_word_eqI) (auto simp: load_u32_def bit_simps)
  have b1: "ucast (drop_bit 8 (load_u32 m i)) = m (i + 1)"
    by (rule bit_word_eqI) (auto simp: load_u32_def bit_simps dest: bit_imp_le_length)
  have b2: "ucast (drop_bit 16 (load_u32 m i)) = m (i + 2)"
    by (rule bit_word_eqI) (auto simp: load_u32_def bit_simps dest: bit_imp_le_length)
  have b3: "ucast (drop_bit 24 (load_u32 m i)) = m (i + 3)"
    by (rule bit_word_eqI) (auto simp: load_u32_def bit_simps dest: bit_imp_le_length)
  show "store_u32 i (load_u32 m i) m j = m j" for j
    by (simp add: store_u32_def b0 b1 b2 b3)
qed

lemma store_store_u32 [simp]: "store_u32 i v (store_u32 i w m) = store_u32 i v m"
  by (auto simp: store_u32_def fun_eq_iff)

lemma store_u32_other: "j < i \<or> i + 4 \<le> j \<Longrightarrow> store_u32 i w m j = m j"
  by (auto simp: store_u32_def)

lemma read_write_pkru [simp]: "read_pkru cpuid (write_pkru cpuid w c) = w"
  by (simp add: read_pkru_def write_pkru_def)

lemma write_read_pkru [simp]: "write_pkru cpuid (read_pkru cpuid c) c = c"
  by (simp add: read_pkru_def write_pkru_def)

lemma write_write_pkru [simp]: "write_pkru cpuid v (write_pkru cpuid w c) = write_pkru cpuid v c"
  by (simp add: write_pkru_def)

lemma pkru_efl_frame [simp]:
  "REG_EFL (write_pkru cpuid w c) = REG_EFL c"
  "read_pkru cpuid (c\<lparr>REG_EFL := e\<rparr>) = read_pkru cpuid c"
  "write_pkru cpuid w (c\<lparr>REG_EFL := e\<rparr>) = (write_pkru cpuid w c)\<lparr>REG_EFL := e\<rparr>"
  by (simp_all add: read_pkru_def write_pkru_def)

subsection \<open>Properties\<close>

text \<open>C30: Setting the rights of a key makes exactly these rights readable, leaves the rights of every
  other key alone, and setting the old rights again gives the old register back.\<close>

theorem pkey_set_get:
  assumes "valid_key key" and "valid_key key'" and "rights \<le> 3"
  shows "pkey_get (pkru_after_set pkru key rights) key' =
      (if key' = key then (rights, None) else pkey_get pkru key') \<and>
    pkru_after_set (pkru_after_set pkru key rights) key (fst (pkey_get pkru key)) = pkru"
proof (cases "key' = key")
  case True
  then show ?thesis
    using assms pkey_get_after_set [of key rights pkru] pkey_set_restores [of key rights pkru]
    by (auto simp: prod_eq_iff) (simp add: pkey_get_def)
next
  case False
  then show ?thesis
    using assms pkey_get_after_set_other [of key key' rights pkru] pkey_set_restores [of key rights pkru]
    by simp
qed

theorem pkey_set_get_witness:
  "pkey_get (pkru_after_set 0x55555554 1 0) 1 = (0, None) \<and>
    pkey_get (pkru_after_set 0x55555554 1 0) 15 = pkey_get 0x55555554 15"
  using pkey_set_get [of 1 1 0 "0x55555554"] pkey_set_get [of 1 15 0 "0x55555554"] by simp

text \<open>\<open>EINVAL\<close> is reported exactly for a key outside 0 to 15 or rights above 3, and then the register
  is left alone.\<close>

lemma pkey_errors:
  "(snd (snd (pkey_set pkru key rights)) = Some EINVAL \<longleftrightarrow> \<not> valid_key key \<or> 3 < rights) \<and>
    (fst (pkey_set pkru key rights) = -1 \<longleftrightarrow> \<not> valid_key key \<or> 3 < rights) \<and>
    (pkru_after_set pkru key rights = pkru \<or> valid_key key \<and> rights \<le> 3) \<and>
    (pkey_get pkru key = (-1, Some EINVAL) \<longleftrightarrow> \<not> valid_key key)"
  by (auto simp: pkey_set_def pkey_get_def Let_def)

text \<open>Writing the saved register through \<open>pkru_ptr\<close> changes its four bytes in the save area and
  nothing else of the signal frame, and reading gives the value written.\<close>

lemma pkru_write_frame:
  "read_pkru cpuid (write_pkru cpuid w c) = w \<and>
    REG_EFL (write_pkru cpuid w c) = REG_EFL c \<and>
    {j. fpregs (write_pkru cpuid w c) j \<noteq> fpregs c j} \<subseteq> {pkru_ptr cpuid..<pkru_ptr cpuid + 4}"
proof -
  have "j \<in> {pkru_ptr cpuid..<pkru_ptr cpuid + 4}" if "fpregs (write_pkru cpuid w c) j \<noteq> fpregs c j" for j
    using that store_u32_other [of j "pkru_ptr cpuid" w "fpregs c"]
    by (force simp: write_pkru_def)
  then show ?thesis by auto
qed

end
