(* ===== verification/Alloc_Hooks.thy ===== *)
theory Alloc_Hooks
  imports Handler_Spec Signal_Setup Pkey_Utils
begin

section \<open>The runtime and its allocation hooks\<close>

text \<open>
  \<open>Runtime/alloc_site_handler.cpp\<close>: the global handler, created once on first use together with
  the signal handlers, and the three entry points the instrumented program calls after each
  allocation, reallocation and deallocation. The statistics are part of the model, because the
  build defines \<open>MPK_STATS\<close> in every configuration.
\<close>

text \<open>
  What the runtime reads of its surroundings: the number of allocation sites the compiler pass
  wrote into the program, the processor's \<open>cpuid\<close>, the process id, the weak symbol
  \<open>is_safe_address\<close>, and whether \<open>PAGE_MPK\<close> was defined.
\<close>

record platform =
  AllocSiteTotal :: u64
  cpuid :: cpuid_fn
  getpid :: thread_id
  is_safe_address :: "rust_ptr \<Rightarrow> bool"
  PAGE_MPK :: bool

record runtime =
  AllocSiteHandle :: "handler option"
  AllocHandlerInitFlag :: bool
  rt_stats :: stats
  rt_sigs :: sig_state

text \<open>\<open>is_safe_address\<close> as the library itself defines it.\<close>

definition is_safe_address_default :: "rust_ptr \<Rightarrow> bool" where
  "is_safe_address_default addr = False"

definition provsan_untrusted_constructor :: "platform \<Rightarrow> runtime \<Rightarrow> runtime" where
  "provsan_untrusted_constructor pf rt =
    (let n = AllocSiteTotal pf;
         st = rt_stats rt;
         st = (if n \<noteq> 0 then st\<lparr>AllocSiteUseCounter := replicate (unat n) 0\<rparr> else st);
         st = st\<lparr>AllocSiteCount := n\<rparr>
     in rt\<lparr>rt_stats := st, rt_sigs := install_handlers (PAGE_MPK pf) (rt_sigs rt)\<rparr>)"

definition AllocSiteHandler_init :: "platform \<Rightarrow> runtime \<Rightarrow> runtime" where
  "AllocSiteHandler_init pf rt =
    provsan_untrusted_constructor pf (rt\<lparr>AllocSiteHandle := Some AllocSiteHandler\<rparr>)"

text \<open>\<open>std::call_once\<close> runs the initialiser if the flag is not set.\<close>

definition getOrInit :: "platform \<Rightarrow> runtime \<Rightarrow> runtime" where
  "getOrInit pf rt =
    (if AllocHandlerInitFlag rt then rt
     else (AllocSiteHandler_init pf rt)\<lparr>AllocHandlerInitFlag := True\<rparr>)"

text \<open>Dereferencing the pointer \<open>getOrInit\<close> returned.\<close>

definition the_handler :: "runtime \<Rightarrow> rt_error + handler" where
  "the_handler rt = (case AllocSiteHandle rt of None \<Rightarrow> Inl NullHandler | Some h \<Rightarrow> Inr h)"

definition set_handler :: "handler \<Rightarrow> runtime \<Rightarrow> runtime" where
  "set_handler h rt = rt\<lparr>AllocSiteHandle := Some h\<rparr>"

definition count_call :: "(stats \<Rightarrow> stats) \<Rightarrow> runtime \<Rightarrow> runtime" where
  "count_call f rt =
    (if AllocSiteCount (rt_stats rt) \<noteq> 0 then rt\<lparr>rt_stats := f (rt_stats rt)\<rparr> else rt)"

subsection \<open>The hooks\<close>

definition make_site ::
    "rust_ptr \<Rightarrow> i64 \<Rightarrow> i64 \<Rightarrow> c_string \<Rightarrow> c_string \<Rightarrow> u32 \<Rightarrow> bool \<Rightarrow> rt_error + alloc_site" where
  "make_site p sz lid bb fn pk re =
    and_then (c_str bb) (\<lambda>bb. and_then (c_str fn) (\<lambda>fn. AllocSite p sz lid bb fn pk re))"

definition allocHook ::
    "platform \<Rightarrow> rust_ptr \<Rightarrow> i64 \<Rightarrow> i64 \<Rightarrow> c_string \<Rightarrow> c_string \<Rightarrow> runtime \<Rightarrow> rt_error + runtime" where
  "allocHook pf p sz lid bb fn rt =
    and_then (make_site p sz lid bb fn 0 False) (\<lambda>site.
      let rt = getOrInit pf rt in
      and_then (the_handler rt) (\<lambda>h.
        let rt = set_handler (insertAllocSite p site h) rt in
        Inr (count_call (\<lambda>st. st\<lparr>allocHookCalls := allocHookCalls st + 1\<rparr>) rt)))"

definition reallocHook ::
    "platform \<Rightarrow> rust_ptr \<Rightarrow> i64 \<Rightarrow> rust_ptr \<Rightarrow> i64 \<Rightarrow> i64 \<Rightarrow> c_string \<Rightarrow> c_string \<Rightarrow> runtime
      \<Rightarrow> rt_error + runtime" where
  "reallocHook pf newPtr newSize oldPtr oldSize lid bb fn rt =
    (let rt = getOrInit pf rt in
     and_then (the_handler rt) (\<lambda>h.
       let oldAS = getAllocSite oldPtr h in
       if \<not> isValid oldAS then
         and_then (make_site newPtr newSize lid bb fn 0 False) (\<lambda>site.
           Inr (set_handler (insertAllocSite newPtr site h) rt))
       else
         and_then (make_site newPtr newSize lid bb fn 0 True) (\<lambda>newAS.
           let h = updateReallocChain oldAS newAS h;
               h = removeAllocSite oldPtr h;
               h = insertAllocSite newPtr newAS h;
               rt = set_handler h rt
           in Inr (count_call (\<lambda>st. st\<lparr>reallocHookCalls := reallocHookCalls st + 1\<rparr>) rt))))"

definition deallocHook :: "platform \<Rightarrow> rust_ptr \<Rightarrow> i64 \<Rightarrow> i64 \<Rightarrow> runtime \<Rightarrow> rt_error + runtime" where
  "deallocHook pf p sz lid rt =
    (let rt = getOrInit pf rt in
     and_then (the_handler rt) (\<lambda>h.
       let rt = set_handler (removeAllocSite p h) rt in
       Inr (count_call (\<lambda>st. st\<lparr>deallocHookCalls := deallocHookCalls st + 1\<rparr>) rt)))"

text \<open>The call to \<open>addFaultAlloc\<close> that the fault handler makes.\<close>

definition recordFault :: "platform \<Rightarrow> rust_ptr \<Rightarrow> u32 \<Rightarrow> runtime \<Rightarrow> rt_error + runtime" where
  "recordFault pf q pk rt =
    (let rt = getOrInit pf rt in
     and_then (the_handler rt) (\<lambda>h.
       and_then (addFaultAlloc q pk (rt_stats rt) h) (\<lambda>(st, h).
         Inr (set_handler h (rt\<lparr>rt_stats := st\<rparr>)))))"

subsection \<open>The runtime invariant\<close>

text \<open>
  Initialised exactly when there is a handler; the handler's invariant holds; the counter array
  has one cell per allocation site.
\<close>

definition stats_inv :: "stats \<Rightarrow> bool" where
  "stats_inv st \<longleftrightarrow> AllocSiteCount st = 0 \<or> length (AllocSiteUseCounter st) = unat (AllocSiteCount st)"

definition runtime_inv :: "runtime \<Rightarrow> bool" where
  "runtime_inv rt \<longleftrightarrow>
    (AllocHandlerInitFlag rt \<longleftrightarrow> AllocSiteHandle rt \<noteq> None) \<and>
    (case AllocSiteHandle rt of None \<Rightarrow> True | Some h \<Rightarrow> handler_inv h) \<and>
    stats_inv (rt_stats rt)"

definition stats0 :: stats where
  "stats0 = \<lparr>AllocSiteCount = 0, AllocSiteUseCounter = [], allocHookCalls = 0,
             reallocHookCalls = 0, deallocHookCalls = 0\<rparr>"

text \<open>A process before its first hook; the program chose the signal dispositions.\<close>

definition runtime0 :: "(signal \<Rightarrow> sigact) \<Rightarrow> runtime" where
  "runtime0 d =
    \<lparr>AllocSiteHandle = None, AllocHandlerInitFlag = False, rt_stats = stats0,
     rt_sigs = \<lparr>disposition = d, sa_mem = (\<lambda>_. zero_sa), prevAction = None, SEGVAction = None,
                SIGTAction = None\<rparr>\<rparr>"

lemma runtime_inv0 [inv_intros]: "runtime_inv (runtime0 d)"
  by (simp add: runtime_inv_def runtime0_def stats_inv_def stats0_def)

lemma runtime_inv_handle:
  assumes "runtime_inv rt" and "AllocSiteHandle rt = Some h"
  shows "handler_inv h" "AllocHandlerInitFlag rt"
  using assms by (auto simp: runtime_inv_def)

text \<open>After \<open>getOrInit\<close> there is a handler to dereference.\<close>

lemma getOrInit_handle:
  assumes "runtime_inv rt"
  obtains h where "AllocSiteHandle (getOrInit pf rt) = Some h" "the_handler (getOrInit pf rt) = Inr h"
    "handler_inv h" "h = (case AllocSiteHandle rt of None \<Rightarrow> AllocSiteHandler | Some h \<Rightarrow> h)"
  using assms handler_inv_init
  by (cases "AllocSiteHandle rt")
     (auto simp: runtime_inv_def getOrInit_def AllocSiteHandler_init_def the_handler_def
        provsan_untrusted_constructor_def Let_def)

lemma getOrInit_inv [inv_intros]: "runtime_inv rt \<Longrightarrow> runtime_inv (getOrInit pf rt)"
  by (auto simp: runtime_inv_def getOrInit_def AllocSiteHandler_init_def handler_inv_init
      provsan_untrusted_constructor_def Let_def stats_inv_def)

lemma getOrInit_again [simp]: "getOrInit pf' (getOrInit pf rt) = getOrInit pf rt"
  by (simp add: getOrInit_def)

lemma set_handler_inv [inv_intros]:
  "runtime_inv rt \<Longrightarrow> AllocHandlerInitFlag rt \<Longrightarrow> handler_inv h \<Longrightarrow> runtime_inv (set_handler h rt)"
  by (simp add: runtime_inv_def set_handler_def)

lemma getOrInit_flag [simp]: "AllocHandlerInitFlag (getOrInit pf rt)"
  by (simp add: getOrInit_def)

lemma count_call_frame [simp]:
  "AllocSiteHandle (count_call f rt) = AllocSiteHandle rt"
  "AllocHandlerInitFlag (count_call f rt) = AllocHandlerInitFlag rt"
  "rt_sigs (count_call f rt) = rt_sigs rt"
  by (simp_all add: count_call_def)

lemma set_handler_frame [simp]:
  "AllocSiteHandle (set_handler h rt) = Some h"
  "AllocHandlerInitFlag (set_handler h rt) = AllocHandlerInitFlag rt"
  "rt_stats (set_handler h rt) = rt_stats rt"
  "rt_sigs (set_handler h rt) = rt_sigs rt"
  by (simp_all add: set_handler_def)

subsection \<open>When a hook stops the process\<close>

lemma make_site_succeeds:
  "(\<exists>s. make_site p sz lid bb fn pk re = Inr s) \<longleftrightarrow>
    p \<noteq> 0 \<and> 0 < sint sz \<and> 0 \<le> sint lid \<and> bb \<noteq> None \<and> fn \<noteq> None"
  by (cases bb; cases fn) (auto simp: make_site_def c_str_def AllocSite_def)

text \<open>The hooks for allocation and reallocation return exactly when the new address is not null,
  the size is positive, the identifier is not negative (an instruction the pass did not number
  has -1) and both names are given; otherwise an assertion or the string constructor stops the
  process. The deallocation hook always returns.\<close>

lemma hooks_return_iff:
  assumes "runtime_inv rt"
  shows "((\<exists>rt'. allocHook pf p sz lid bb fn rt = Inr rt') \<longleftrightarrow>
      p \<noteq> 0 \<and> 0 < sint sz \<and> 0 \<le> sint lid \<and> bb \<noteq> None \<and> fn \<noteq> None) \<and>
    ((\<exists>rt'. reallocHook pf p sz q osz lid bb fn rt = Inr rt') \<longleftrightarrow>
      p \<noteq> 0 \<and> 0 < sint sz \<and> 0 \<le> sint lid \<and> bb \<noteq> None \<and> fn \<noteq> None) \<and>
    (\<exists>rt'. deallocHook pf q osz lid rt = Inr rt')"
proof -
  obtain h where h: "the_handler (getOrInit pf rt) = Inr h"
    using getOrInit_handle [OF assms] by blast
  have "(\<exists>rt'. allocHook pf p sz lid bb fn rt = Inr rt') \<longleftrightarrow> (\<exists>s. make_site p sz lid bb fn 0 False = Inr s)"
    using h by (auto simp: allocHook_def Let_def and_then_eq_Inr)
  moreover have "(\<exists>rt'. reallocHook pf p sz q osz lid bb fn rt = Inr rt') \<longleftrightarrow>
      (\<exists>s. make_site p sz lid bb fn 0 (isValid (getAllocSite q h)) = Inr s)"
    using h by (auto simp: reallocHook_def Let_def and_then_eq_Inr)
  moreover have "\<exists>rt'. deallocHook pf q osz lid rt = Inr rt'"
    using h by (simp add: deallocHook_def Let_def)
  ultimately show ?thesis unfolding make_site_succeeds by simp
qed

end
