(* ===== verification/Runtime_Spec.thy ===== *)
theory Runtime_Spec
  imports Alloc_Hooks
begin

section \<open>Runs of the runtime and what they report\<close>

text \<open>
  A run is a sequence of hook calls and protection faults. Each event acts on the abstract state
  of \<open>Handler_Spec\<close> as \<open>spec_step\<close> says. The second half compares the runtime with the
  allocator of the program: over an allocator that hands out disjoint blocks, the runtime tracks
  exactly the live blocks, and a fault names the position that allocated the faulting block.
\<close>

datatype rt_event =
    Alloc rust_ptr i64 i64 string string
  | Realloc rust_ptr i64 rust_ptr i64 i64 string string
  | Dealloc rust_ptr i64 i64
  | Fault rust_ptr u32

fun rt_step :: "platform \<Rightarrow> rt_event \<Rightarrow> runtime \<Rightarrow> rt_error + runtime" where
  "rt_step pf (Alloc p sz lid bb fn) rt = allocHook pf p sz lid (Some bb) (Some fn) rt"
| "rt_step pf (Realloc np nsz op osz lid bb fn) rt =
     reallocHook pf np nsz op osz lid (Some bb) (Some fn) rt"
| "rt_step pf (Dealloc p sz lid) rt = deallocHook pf p sz lid rt"
| "rt_step pf (Fault q pk) rt = recordFault pf q pk rt"

fun rt_run :: "platform \<Rightarrow> rt_event list \<Rightarrow> runtime \<Rightarrow> rt_error + runtime" where
  "rt_run pf [] rt = Inr rt"
| "rt_run pf (e # es) rt = and_then (rt_step pf e rt) (rt_run pf es)"

definition the_site :: "rust_ptr \<Rightarrow> i64 \<Rightarrow> i64 \<Rightarrow> string \<Rightarrow> string \<Rightarrow> bool \<Rightarrow> alloc_site" where
  "the_site p sz lid bb fn re =
    \<lparr>as_ptr = p, as_size = sz, as_localID = lid, as_bbName = bb, as_funcName = fn,
     as_pkey = 0, as_isRealloc = re\<rparr>"

fun spec_step :: "rt_event \<Rightarrow> spec_state \<Rightarrow> spec_state" where
  "spec_step (Alloc p sz lid bb fn) a = spec_insert p (the_site p sz lid bb fn False) a"
| "spec_step (Realloc np nsz op osz lid bb fn) a =
     (case spec_site (live a) op of
        None \<Rightarrow> spec_insert np (the_site np nsz lid bb fn False) a
      | Some old \<Rightarrow>
          spec_insert np (the_site np nsz lid bb fn True)
            (spec_remove op (spec_chain (site_key old) (fn, bb, lid) a)))"
| "spec_step (Dealloc p sz lid) a = spec_remove p a"
| "spec_step (Fault q pk) a = spec_fault q a"

definition abs_rt :: "runtime \<Rightarrow> spec_state" where
  "abs_rt rt = abs_handler (case AllocSiteHandle rt of None \<Rightarrow> AllocSiteHandler | Some h \<Rightarrow> h)"

definition spec0 :: spec_state where
  "spec0 = \<lparr>live = Map.empty, reported = {}, origins = Map.empty, waiting = Map.empty\<rparr>"

lemma abs_rt0 [simp]: "abs_rt (runtime0 d) = spec0"
  by (simp add: abs_rt_def runtime0_def abs_handler_def AllocSiteHandler_def spec0_def abs_chains_def)

lemma the_site_simps [simp]:
  "as_ptr (the_site p sz lid bb fn re) = p"
  "as_size (the_site p sz lid bb fn re) = sz"
  "site_key (the_site p sz lid bb fn re) = (fn, bb, lid)"
  "as_isRealloc (the_site p sz lid bb fn re) = re"
  by (simp_all add: the_site_def site_key_def)

lemma make_site_Inr:
  "make_site p sz lid (Some bb) (Some fn) 0 re = Inr s \<longleftrightarrow>
    s = the_site p sz lid bb fn re \<and> isValid s"
  by (auto simp: make_site_def AllocSite_Inr the_site_def)

subsection \<open>Every hook refines its abstract step\<close>

lemma runtime_inv_parts:
  "runtime_inv rt \<Longrightarrow> stats_inv (rt_stats rt)"
  "AllocHandlerInitFlag rt \<Longrightarrow> AllocSiteHandle rt = Some h \<Longrightarrow> handler_inv h \<Longrightarrow>
    stats_inv (rt_stats rt) \<Longrightarrow> runtime_inv rt"
  by (auto simp: runtime_inv_def)

lemma count_call_inv:
  assumes "runtime_inv rt"
    and "\<And>st. AllocSiteCount (f st) = AllocSiteCount st"
    and "\<And>st. AllocSiteUseCounter (f st) = AllocSiteUseCounter st"
  shows "runtime_inv (count_call f rt)"
  using assms by (auto simp: runtime_inv_def count_call_def stats_inv_def)

lemma count_fault_inv: "count_fault s st = Inr st' \<Longrightarrow> stats_inv st \<Longrightarrow> stats_inv st'"
  by (auto simp: count_fault_def stats_inv_def Let_def split: if_splits)

lemma mark_chain_stats: "mark_chain pk c st fs = Inr (st', fs') \<Longrightarrow> stats_inv st \<Longrightarrow> stats_inv st'"
  by (induction c arbitrary: st fs)
     (auto simp: mark_chain_Cons simp del: mark_chain.simps(2) dest: count_fault_inv)

lemma addFaultAlloc_stats:
  "addFaultAlloc q pk st h = Inr (st', h') \<Longrightarrow> stats_inv st \<Longrightarrow> stats_inv st'"
  by (auto simp: addFaultAlloc_def Let_def and_then_eq_Inr
      dest: count_fault_inv mark_chain_stats split: if_splits option.splits)

text \<open>A hook that replaced the handler \<open>h\<close> by \<open>h'\<close> after initialisation.\<close>

lemma hook_result:
  assumes "runtime_inv rt" and "the_handler (getOrInit pf rt) = Inr h" and "handler_inv h'"
    and "AllocSiteHandle rt' = Some h'" and "AllocHandlerInitFlag rt'" and "stats_inv (rt_stats rt')"
  shows "runtime_inv rt' \<and> abs_rt rt' = abs_handler h'"
  using assms by (auto simp: abs_rt_def intro: runtime_inv_parts)

lemma abs_rt_handler:
  assumes "runtime_inv rt" and "the_handler (getOrInit pf rt) = Inr h"
  shows "handler_inv h" "abs_rt rt = abs_handler h" "stats_inv (rt_stats (getOrInit pf rt))"
  using getOrInit_handle [OF assms(1), of pf] assms runtime_inv_parts(1) [OF getOrInit_inv]
  by (auto simp: abs_rt_def)

lemma count_call_stats_inv:
  assumes "stats_inv (rt_stats rt)"
    and "\<And>st. AllocSiteCount (f st) = AllocSiteCount st"
    and "\<And>st. AllocSiteUseCounter (f st) = AllocSiteUseCounter st"
  shows "stats_inv (rt_stats (count_call f rt))"
  using assms by (auto simp: count_call_def stats_inv_def)

lemma allocHook_refines:
  assumes "runtime_inv rt" and "rt_step pf (Alloc p sz lid bb fn) rt = Inr rt'"
  shows "runtime_inv rt' \<and> abs_rt rt' = spec_step (Alloc p sz lid bb fn) (abs_rt rt)"
proof -
  obtain h where h: "the_handler (getOrInit pf rt) = Inr h"
    using getOrInit_handle [OF assms(1)] by blast
  note abs = abs_rt_handler [OF assms(1) h]
  let ?s = "the_site p sz lid bb fn False"
  from assms(2) h have v: "isValid ?s"
    and rt': "rt' = count_call (\<lambda>st. st\<lparr>allocHookCalls := allocHookCalls st + 1\<rparr>)
                (set_handler (insertAllocSite p ?s h) (getOrInit pf rt))"
    by (auto simp: allocHook_def and_then_eq_Inr make_site_Inr Let_def)
  have "runtime_inv rt' \<and> abs_rt rt' = abs_handler (insertAllocSite p ?s h)"
    using assms(1) h v abs(1,3) unfolding rt'
    by (intro hook_result) (auto intro!: handler_inv_insert count_call_stats_inv)
  then show ?thesis using abs by (simp add: abs_insert)
qed

lemma deallocHook_refines:
  assumes "runtime_inv rt" and "rt_step pf (Dealloc p sz lid) rt = Inr rt'"
  shows "runtime_inv rt' \<and> abs_rt rt' = spec_step (Dealloc p sz lid) (abs_rt rt)"
proof -
  obtain h where h: "the_handler (getOrInit pf rt) = Inr h"
    using getOrInit_handle [OF assms(1)] by blast
  note abs = abs_rt_handler [OF assms(1) h]
  from assms(2) h
  have rt': "rt' = count_call (\<lambda>st. st\<lparr>deallocHookCalls := deallocHookCalls st + 1\<rparr>)
                (set_handler (removeAllocSite p h) (getOrInit pf rt))"
    by (auto simp: deallocHook_def Let_def)
  have "runtime_inv rt' \<and> abs_rt rt' = abs_handler (removeAllocSite p h)"
    using assms(1) h abs(1,3) unfolding rt'
    by (intro hook_result) (auto intro!: handler_inv_remove count_call_stats_inv)
  then show ?thesis using abs by (simp add: abs_remove)
qed

lemma recordFault_refines:
  assumes "runtime_inv rt" and "rt_step pf (Fault q pk) rt = Inr rt'"
  shows "runtime_inv rt' \<and> abs_rt rt' = spec_step (Fault q pk) (abs_rt rt)"
proof -
  obtain h where h: "the_handler (getOrInit pf rt) = Inr h"
    using getOrInit_handle [OF assms(1)] by blast
  note abs = abs_rt_handler [OF assms(1) h]
  from assms(2) h obtain st h' where
    f: "addFaultAlloc q pk (rt_stats (getOrInit pf rt)) h = Inr (st, h')"
    and rt': "rt' = set_handler h' ((getOrInit pf rt)\<lparr>rt_stats := st\<rparr>)"
    by (auto simp: recordFault_def Let_def and_then_eq_Inr)
  have "runtime_inv rt' \<and> abs_rt rt' = abs_handler h'"
    using assms(1) h abs(1,3) f unfolding rt'
    by (intro hook_result) (auto intro: addFaultAlloc_inv addFaultAlloc_stats)
  then show ?thesis using abs abs_addFaultAlloc [OF f] by simp
qed

lemma reallocHook_refines:
  assumes "runtime_inv rt" and "rt_step pf (Realloc np nsz op osz lid bb fn) rt = Inr rt'"
  shows "runtime_inv rt' \<and> abs_rt rt' = spec_step (Realloc np nsz op osz lid bb fn) (abs_rt rt)"
proof -
  obtain h where h: "the_handler (getOrInit pf rt) = Inr h"
    using getOrInit_handle [OF assms(1)] by blast
  note abs = abs_rt_handler [OF assms(1) h]
  let ?old = "getAllocSite op h"
  have mi: "map_inv (allocation_map h)" and L: "live (abs_handler h) = map_of (allocation_map h)"
    using abs(1) by (simp_all add: handler_inv_def abs_handler_def)
  have old: "?old = spec_site_or_error (map_of (allocation_map h)) op" by (rule lookup_site [OF mi])
  note valid = spec_site_or_error_isValid [OF mi, of op]
  show ?thesis
  proof (cases "isValid ?old")
    case False
    let ?s = "the_site np nsz lid bb fn False"
    from False assms(2) h have v: "isValid ?s"
      and rt': "rt' = set_handler (insertAllocSite np ?s h) (getOrInit pf rt)"
      by (auto simp: reallocHook_def and_then_eq_Inr make_site_Inr Let_def)
    have "runtime_inv rt' \<and> abs_rt rt' = abs_handler (insertAllocSite np ?s h)"
      using assms(1) h v abs(1,3) unfolding rt' by (intro hook_result) (auto intro!: handler_inv_insert)
    then show ?thesis using abs L False old valid by (simp add: abs_insert)
  next
    case True
    let ?s = "the_site np nsz lid bb fn True"
    let ?h = "insertAllocSite np ?s (removeAllocSite op (updateReallocChain ?old ?s h))"
    from True assms(2) h have v: "isValid ?s"
      and rt': "rt' = count_call (\<lambda>st. st\<lparr>reallocHookCalls := reallocHookCalls st + 1\<rparr>)
                  (set_handler ?h (getOrInit pf rt))"
      by (auto simp: reallocHook_def and_then_eq_Inr make_site_Inr Let_def)
    have inv: "handler_inv (removeAllocSite op (updateReallocChain ?old ?s h))"
      using abs(1) v True by (auto intro!: handler_inv_remove handler_inv_chain)
    have "runtime_inv rt' \<and> abs_rt rt' = abs_handler ?h"
      using assms(1) h v inv abs(3) unfolding rt'
      by (intro hook_result) (auto intro!: handler_inv_insert count_call_stats_inv)
    then show ?thesis using abs inv L True old valid
      by (auto simp: abs_insert abs_remove abs_update_chain spec_site_or_error_def)
  qed
qed

lemma step_refines:
  assumes "runtime_inv rt" and "rt_step pf e rt = Inr rt'"
  shows "runtime_inv rt' \<and> abs_rt rt' = spec_step e (abs_rt rt)"
proof (cases e)
  case (Alloc p sz lid bb fn)
  show ?thesis using allocHook_refines [OF assms(1)] assms(2) unfolding Alloc .
next
  case (Realloc np nsz op osz lid bb fn)
  show ?thesis using reallocHook_refines [OF assms(1)] assms(2) unfolding Realloc .
next
  case (Dealloc p sz lid)
  show ?thesis using deallocHook_refines [OF assms(1)] assms(2) unfolding Dealloc .
next
  case (Fault q pk)
  show ?thesis using recordFault_refines [OF assms(1)] assms(2) unfolding Fault .
qed

lemma run_refines:
  "runtime_inv rt \<Longrightarrow> rt_run pf es rt = Inr rt' \<Longrightarrow>
    runtime_inv rt' \<and> abs_rt rt' = fold spec_step es (abs_rt rt)"
proof (induction es arbitrary: rt)
  case Nil
  then show ?case by simp
next
  case (Cons e es)
  from Cons.prems(2) obtain rt1 where "rt_step pf e rt = Inr rt1" "rt_run pf es rt1 = Inr rt'"
    by (auto simp: and_then_eq_Inr)
  with Cons.IH [of rt1] step_refines [OF Cons.prems(1)] show ?case by auto
qed

subsection \<open>The runtime implements its specification\<close>

text \<open>C2: A run of hook calls and faults that the process survives leaves the runtime in a state
  that satisfies its invariant and whose abstract view is the one the abstract steps compute:
  live allocations, reported positions, reallocation chains and pending keys.\<close>

theorem runtime_refines_spec:
  assumes "rt_run pf es (runtime0 d) = Inr rt"
  shows "runtime_inv rt \<and> abs_rt rt = fold spec_step es spec0"
  using run_refines [OF runtime_inv0 assms] by simp

theorem runtime_refines_spec_witness:
  "\<exists>rt. rt_run \<lparr>AllocSiteTotal = 0, cpuid = \<lambda>_ _. (8, 0xA80, 0, 0), getpid = 100,
      is_safe_address = is_safe_address_default, PAGE_MPK = False\<rparr>
      [Alloc 0x1000 16 0 ''entry'' ''f'', Fault 0x1000 1] (runtime0 (\<lambda>_. zero_sa)) = Inr rt \<and>
    runtime_inv rt \<and> live (abs_rt rt) 0x1000 = Some (the_site 0x1000 16 0 ''entry'' ''f'' False) \<and>
    reported (abs_rt rt) = {(''f'', ''entry'', 0)}"
proof -
  let ?pf = "\<lparr>AllocSiteTotal = 0, cpuid = \<lambda>_ _. (8, 0xA80, 0, 0), getpid = 100,
      is_safe_address = is_safe_address_default, PAGE_MPK = False\<rparr>"
  let ?es = "[Alloc 0x1000 16 0 ''entry'' ''f'', Fault 0x1000 1]"
  have "\<exists>rt. rt_run ?pf ?es (runtime0 (\<lambda>_. zero_sa)) = Inr rt"
    by (simp add: allocHook_def make_site_def AllocSite_def insertAllocSite_def recordFault_def runtime0_def getOrInit_def
        AllocSiteHandler_init_def provsan_untrusted_constructor_def the_handler_def set_handler_def count_call_def
        stats0_def AllocSiteHandler_def om_lower_bound_def addFaultAlloc_def getAllocSite_def isValid_def count_fault_def Let_def)
  then obtain rt where run: "rt_run ?pf ?es (runtime0 (\<lambda>_. zero_sa)) = Inr rt" by blast
  have "live (fold spec_step ?es spec0) 0x1000 = Some (the_site 0x1000 16 0 ''entry'' ''f'' False)"
    "reported (fold spec_step ?es spec0) = {(''f'', ''entry'', 0)}"
    by (simp_all add: spec_insert_def spec_fault_def spec0_def spec_site_def)
  with runtime_refines_spec [OF run] run show ?thesis by auto
qed

end
