(* ===== verification/Provenance.thy ===== *)
theory Provenance
  imports Runtime_Spec
begin

section \<open>Provenance over a conforming allocator\<close>

text \<open>
  The program's own view of its heap, kept beside the runtime: \<open>blocks\<close> says which call allocated
  each live block, \<open>ancestors\<close> which calls a reallocated block descends from. An allocator
  conforms when it returns non-null blocks that overlap no live block and stay below the end of
  the address space, and the program frees and reallocates live blocks only.
\<close>

record ghost =
  blocks :: "rust_ptr \<Rightarrow> alloc_site option"
  ancestors :: "rust_ptr \<Rightarrow> site_key set"

definition ghost0 :: ghost where
  "ghost0 = \<lparr>blocks = Map.empty, ancestors = (\<lambda>_. {})\<rparr>"

fun ghost_step :: "rt_event \<Rightarrow> ghost \<Rightarrow> ghost" where
  "ghost_step (Alloc p sz lid bb fn) g =
     g\<lparr>blocks := (blocks g)(p \<mapsto> the_site p sz lid bb fn False),
       ancestors := (ancestors g)(p := {})\<rparr>"
| "ghost_step (Realloc np nsz op osz lid bb fn) g =
     g\<lparr>blocks := (blocks g)(op := None, np \<mapsto> the_site np nsz lid bb fn True),
       ancestors := (ancestors g)(np :=
         (case blocks g op of None \<Rightarrow> {} | Some old \<Rightarrow> insert (site_key old) (ancestors g op)))\<rparr>"
| "ghost_step (Dealloc p sz lid) g = g\<lparr>blocks := (blocks g)(p := None)\<rparr>"
| "ghost_step (Fault q pk) g = g"

definition free_range :: "(rust_ptr \<Rightarrow> alloc_site option) \<Rightarrow> alloc_site \<Rightarrow> bool" where
  "free_range L s \<longleftrightarrow>
    isValid s \<and> uint (as_ptr s) + sint (as_size s) < 2 ^ 64 \<and>
    (\<forall>p' s'. L p' = Some s' \<longrightarrow>
       uint p' + sint (as_size s') \<le> uint (as_ptr s) \<or>
       uint (as_ptr s) + sint (as_size s) \<le> uint p')"

fun allocator_ok :: "rt_event \<Rightarrow> ghost \<Rightarrow> bool" where
  "allocator_ok (Alloc p sz lid bb fn) g = free_range (blocks g) (the_site p sz lid bb fn False)"
| "allocator_ok (Realloc np nsz op osz lid bb fn) g =
     (blocks g op \<noteq> None \<and>
      free_range ((blocks g)(op := None)) (the_site np nsz lid bb fn True))"
| "allocator_ok (Dealloc p sz lid) g = (blocks g p \<noteq> None)"
| "allocator_ok (Fault q pk) g = True"

fun conforms :: "rt_event list \<Rightarrow> ghost \<Rightarrow> bool" where
  "conforms [] g = True"
| "conforms (e # es) g = (allocator_ok e g \<and> conforms es (ghost_step e g))"

definition heap_inv :: "(rust_ptr \<Rightarrow> alloc_site option) \<Rightarrow> bool" where
  "heap_inv L \<longleftrightarrow> well_placed L \<and> disjoint_live L"

subsection \<open>The runtime tracks the live blocks\<close>

lemma heap_inv_empty: "heap_inv Map.empty"
  by (simp add: heap_inv_def well_placed_def disjoint_live_def)

lemma heap_inv_remove: "heap_inv L \<Longrightarrow> heap_inv (L(p := None))"
  by (auto simp: heap_inv_def well_placed_def disjoint_live_def)

lemma free_range_fresh:
  assumes "heap_inv L" and "free_range L s"
  shows "L (as_ptr s) = None"
proof (rule ccontr)
  assume "L (as_ptr s) \<noteq> None"
  then obtain s' where s': "L (as_ptr s) = Some s'" by blast
  moreover have "0 < sint (as_size s')" "0 < sint (as_size s)"
    using assms s' by (auto simp: heap_inv_def well_placed_def free_range_def isValid_def)
  ultimately show False using assms(2) by (fastforce simp: free_range_def)
qed

lemma heap_inv_add:
  assumes "heap_inv L" and "free_range L s"
  shows "heap_inv (L(as_ptr s \<mapsto> s))"
proof -
  have pos: "\<And>p' s'. L p' = Some s' \<Longrightarrow> 0 < sint (as_size s')" "0 < sint (as_size s)"
    using assms by (auto simp: heap_inv_def well_placed_def free_range_def isValid_def)
  have "well_placed (L(as_ptr s \<mapsto> s))"
    using assms by (auto simp: heap_inv_def well_placed_def free_range_def)
  moreover have "disjoint_live (L(as_ptr s \<mapsto> s))"
    unfolding disjoint_live_def
  proof (intro allI impI)
    fix p a p' b
    assume "(L(as_ptr s \<mapsto> s)) p = Some a" "(L(as_ptr s \<mapsto> s)) p' = Some b" "uint p < uint p'"
    then show "uint p + sint (as_size a) \<le> uint p'"
      using assms pos by (fastforce simp: heap_inv_def disjoint_live_def free_range_def split: if_splits)
  qed
  ultimately show ?thesis by (simp add: heap_inv_def)
qed

lemma spec_site_exact: "L p = Some s \<Longrightarrow> spec_site L p = Some s"
  by (simp add: spec_site_def)

lemma ghost_sim_step:
  assumes "allocator_ok e g" and "live a = blocks g" and "heap_inv (blocks g)"
  shows "live (spec_step e a) = blocks (ghost_step e g) \<and> heap_inv (blocks (ghost_step e g))"
proof (cases e)
  case (Alloc p sz lid bb fn)
  let ?s = "the_site p sz lid bb fn False"
  have fr: "free_range (blocks g) ?s" using assms(1) Alloc by simp
  show ?thesis
    using free_range_fresh [OF assms(3) fr] heap_inv_add [OF assms(3) fr] assms(2) Alloc
    by (simp add: spec_insert_def)
next
  case (Realloc np nsz op osz lid bb fn)
  let ?s = "the_site np nsz lid bb fn True"
  obtain old where old: "blocks g op = Some old" using assms(1) Realloc by auto
  have fr: "free_range ((blocks g)(op := None)) ?s" using assms(1) Realloc by simp
  have hi: "heap_inv ((blocks g)(op := None))" using assms(3) by (rule heap_inv_remove)
  have "live (spec_step e a) =
      live (spec_insert np ?s (spec_remove op (spec_chain (site_key old) (fn, bb, lid) a)))"
    using assms(2) old Realloc by (simp add: spec_site_exact)
  also have "\<dots> = (blocks g)(op := None, np \<mapsto> ?s)"
    using free_range_fresh [OF hi fr] assms(2)
    by (auto simp: spec_insert_def spec_remove_def spec_chain_def)
  finally show ?thesis
    using heap_inv_add [OF hi fr] Realloc by simp
next
  case (Dealloc p sz lid)
  then show ?thesis using assms heap_inv_remove by (simp add: spec_remove_def)
next
  case (Fault q pk)
  then show ?thesis using assms by (simp add: spec_fault_def split: option.splits)
qed

lemma ghost_sim_run:
  "conforms es g \<Longrightarrow> live a = blocks g \<Longrightarrow> heap_inv (blocks g) \<Longrightarrow>
    live (fold spec_step es a) = blocks (fold ghost_step es g) \<and>
    heap_inv (blocks (fold ghost_step es g))"
proof (induction es arbitrary: a g)
  case Nil
  then show ?case by simp
next
  case (Cons e es)
  then have "live (spec_step e a) = blocks (ghost_step e g) \<and> heap_inv (blocks (ghost_step e g))"
    using ghost_sim_step [of e g a] by simp
  with Cons.IH [of "ghost_step e g" "spec_step e a"] Cons.prems show ?case by simp
qed

text \<open>The state of the runtime after a conforming run from the start of the process.\<close>

lemma conforming_run:
  assumes "conforms es ghost0" and "rt_run pf es (runtime0 d) = Inr rt"
  shows "runtime_inv rt" "abs_rt rt = fold spec_step es spec0"
    "live (abs_rt rt) = blocks (fold ghost_step es ghost0)"
    "heap_inv (live (abs_rt rt))"
proof -
  have r: "runtime_inv rt \<and> abs_rt rt = fold spec_step es spec0"
    using run_refines [OF runtime_inv0 assms(2)] by simp
  moreover have "live (fold spec_step es spec0) = blocks (fold ghost_step es ghost0) \<and>
      heap_inv (blocks (fold ghost_step es ghost0))"
    using ghost_sim_run [OF assms(1), of spec0] heap_inv_empty by (simp add: spec0_def ghost0_def)
  ultimately show "runtime_inv rt" "abs_rt rt = fold spec_step es spec0"
    "live (abs_rt rt) = blocks (fold ghost_step es ghost0)"
    "heap_inv (live (abs_rt rt))" by auto
qed

lemma conforming_site:
  assumes "conforms es ghost0" and "rt_run pf es (runtime0 d) = Inr rt"
  shows "spec_site (live (abs_rt rt)) q = Some s \<longleftrightarrow>
    blocks (fold ghost_step es ghost0) (as_ptr s) = Some s \<and> owns s q"
  using conforming_run [OF assms] spec_site_Some_iff
  by (simp add: heap_inv_def)

subsection \<open>Reallocation chains\<close>

text \<open>The positions of the reallocation and allocation calls of a run.\<close>

fun realloc_keys :: "rt_event list \<Rightarrow> site_key list" where
  "realloc_keys [] = []"
| "realloc_keys (Realloc np nsz op osz lid bb fn # es) = (fn, bb, lid) # realloc_keys es"
| "realloc_keys (e # es) = realloc_keys es"

fun alloc_keys :: "rt_event list \<Rightarrow> site_key list" where
  "alloc_keys [] = []"
| "alloc_keys (Alloc p sz lid bb fn # es) = (fn, bb, lid) # alloc_keys es"
| "alloc_keys (e # es) = alloc_keys es"

definition single_use :: "rt_event list \<Rightarrow> bool" where
  "single_use es \<longleftrightarrow>
    distinct (realloc_keys es) \<and> set (realloc_keys es) \<inter> set (alloc_keys es) = {}"

text \<open>
  What the chains say while each reallocation position is still used at most once: a reallocated
  block's chain is its set of ancestors, an allocated block has none, and no position yet to run
  has a chain.
\<close>

definition chain_inv :: "rt_event list \<Rightarrow> spec_state \<Rightarrow> ghost \<Rightarrow> bool" where
  "chain_inv es a g \<longleftrightarrow>
    (\<forall>p s. blocks g p = Some s \<longrightarrow>
       origins a (site_key s) = (if as_isRealloc s then Some (ancestors g p) else None)) \<and>
    (\<forall>p s. blocks g p = Some s \<longrightarrow> \<not> as_isRealloc s \<longrightarrow>
       ancestors g p = {} \<and> site_key s \<notin> set (realloc_keys es)) \<and>
    (\<forall>k\<in>set (realloc_keys es) \<union> set (alloc_keys es). origins a k = None)"

lemma single_use_Cons: "single_use (e # es) \<Longrightarrow> single_use es"
  by (cases e) (auto simp: single_use_def)

lemma chains_other_steps:
  "origins (spec_insert p s a) = origins a" "origins (spec_remove p a) = origins a"
  "origins (spec_fault q a) = origins a"
  by (auto simp: spec_insert_def spec_remove_def spec_fault_def split: option.splits)

lemma chain_inv_step:
  assumes ok: "allocator_ok e g" and live: "live a = blocks g"
    and inv: "chain_inv (e # es) a g" and once: "single_use (e # es)"
  shows "chain_inv es (spec_step e a) (ghost_step e g)"
proof (cases e)
  case (Alloc p sz lid bb fn)
  then show ?thesis
    using inv once by (auto simp: chain_inv_def single_use_def chains_other_steps)
next
  case (Dealloc p sz lid)
  then show ?thesis using inv by (auto simp: chain_inv_def chains_other_steps)
next
  case (Fault q pk)
  then show ?thesis using inv by (auto simp: chain_inv_def chains_other_steps)
next
  case (Realloc np nsz op osz lid bb fn)
  let ?k = "(fn, bb, lid)"
  obtain old where old: "blocks g op = Some old" using ok Realloc by auto
  have fresh: "origins a ?k = None" using inv Realloc by (auto simp: chain_inv_def)
  have anc: "insert (site_key old) (case origins a (site_key old) of None \<Rightarrow> {} | Some c \<Rightarrow> c) =
      insert (site_key old) (ancestors g op)"
    using inv old by (auto simp: chain_inv_def)
  have new: "origins (spec_step e a) = (origins a)(?k \<mapsto> insert (site_key old) (ancestors g op))"
    using Realloc live old fresh anc
    by (auto simp: spec_site_exact chains_other_steps spec_chain_def)
  have key: "site_key s \<noteq> ?k" if "blocks g p = Some s" for p s
  proof (cases "as_isRealloc s")
    case True
    then have "origins a (site_key s) \<noteq> None" using inv that by (simp add: chain_inv_def)
    then show ?thesis using fresh by metis
  next
    case False
    then have "site_key s \<notin> set (realloc_keys (e # es))" using inv that unfolding chain_inv_def by blast
    then show ?thesis using Realloc by auto
  qed
  show ?thesis
    using inv once Realloc old new key
    by (auto simp: chain_inv_def single_use_def)
qed

lemma chain_inv_run:
  "conforms es g \<Longrightarrow> live a = blocks g \<Longrightarrow> heap_inv (blocks g) \<Longrightarrow> chain_inv es a g \<Longrightarrow>
    single_use es \<Longrightarrow> chain_inv [] (fold spec_step es a) (fold ghost_step es g)"
proof (induction es arbitrary: a g)
  case Nil
  then show ?case by simp
next
  case (Cons e es)
  have "chain_inv es (spec_step e a) (ghost_step e g)"
    using Cons.prems by (intro chain_inv_step) auto
  moreover have "live (spec_step e a) = blocks (ghost_step e g) \<and> heap_inv (blocks (ghost_step e g))"
    using Cons.prems ghost_sim_step [of e g a] by simp
  ultimately show ?case
    using Cons.IH [of "ghost_step e g" "spec_step e a"] Cons.prems single_use_Cons by simp
qed

lemma chain_inv0: "chain_inv es spec0 ghost0"
  by (simp add: chain_inv_def spec0_def ghost0_def)

text \<open>A chain that exists is never changed again.\<close>

lemma spec_chain_keeps: "origins a k = Some c \<Longrightarrow> origins (spec_chain old new a) k = Some c"
  by (auto simp: spec_chain_def)

lemma spec_step_chain_keeps: "origins a k = Some c \<Longrightarrow> origins (spec_step e a) k = Some c"
  by (cases e) (auto simp: chains_other_steps spec_chain_keeps split: option.splits)

lemma fold_chain_keeps: "origins a k = Some c \<Longrightarrow> origins (fold spec_step es a) k = Some c"
  by (induction es arbitrary: a) (auto intro: spec_step_chain_keeps)

subsection \<open>No event stops the process\<close>

text \<open>The sites a fault can reach, and the bound the statistics put on their identifiers.\<close>

definition chain_sites :: "(alloc_site \<times> alloc_site list) list \<Rightarrow> alloc_site set" where
  "chain_sites m = (\<Union>e\<in>set m. set (snd e))"

definition held_sites :: "handler \<Rightarrow> alloc_site set" where
  "held_sites h = snd ` set (allocation_map h) \<union> chain_sites (FM h)"

definition id_ok :: "u64 \<Rightarrow> i64 \<Rightarrow> bool" where
  "id_ok n lid \<longleftrightarrow> n = 0 \<or> lid < n"

fun args_ok :: "u64 \<Rightarrow> rt_event \<Rightarrow> bool" where
  "args_ok n (Alloc p sz lid bb fn) = (isValid (the_site p sz lid bb fn False) \<and> id_ok n lid)"
| "args_ok n (Realloc np nsz op osz lid bb fn) =
     (isValid (the_site np nsz lid bb fn True) \<and> id_ok n lid)"
| "args_ok n e = True"

definition ids_inv :: "u64 \<Rightarrow> runtime \<Rightarrow> bool" where
  "ids_inv n rt \<longleftrightarrow>
    (AllocHandlerInitFlag rt \<longrightarrow> AllocSiteCount (rt_stats rt) = n) \<and>
    (case AllocSiteHandle rt of None \<Rightarrow> True | Some h \<Rightarrow> \<forall>s\<in>held_sites h. id_ok n (as_localID s))"

lemma count_fault_total:
  "isValid s \<Longrightarrow> id_ok (AllocSiteCount st) (as_localID s) \<Longrightarrow>
    \<exists>st'. count_fault s st = Inr st' \<and> AllocSiteCount st' = AllocSiteCount st"
  by (auto simp: count_fault_def id_ok_def isValid_def Let_def)

lemma mark_chain_total:
  "\<forall>s\<in>set c. isValid s \<and> id_ok (AllocSiteCount st) (as_localID s) \<Longrightarrow>
    \<exists>st' fs'. mark_chain pk c st fs = Inr (st', fs') \<and> AllocSiteCount st' = AllocSiteCount st"
proof (induction c arbitrary: st fs)
  case Nil
  then show ?case by simp
next
  case (Cons a c)
  then obtain st1 where st1: "count_fault (addPkey pk a) st = Inr st1"
    "AllocSiteCount st1 = AllocSiteCount st"
    using count_fault_total [of "addPkey pk a" st] by (auto simp: addPkey_def isValid_def)
  then show ?case
    using Cons.IH [of st1 "us_insert site_eq (addPkey pk a) fs"] Cons.prems by (simp add: Let_def)
qed

lemma chain_sites_find: "um_find site_eq k m = Some c \<Longrightarrow> set c \<subseteq> chain_sites m"
  by (induction m) (auto simp: chain_sites_def split: if_splits)

lemma chain_sites_emplace: "chain_sites (um_emplace site_eq k c m) \<subseteq> set c \<union> chain_sites m"
  by (auto simp: chain_sites_def um_emplace_def split: option.splits)

lemma getAllocSite_held:
  assumes "handler_inv h" and "isValid (getAllocSite q h)"
  shows "getAllocSite q h \<in> held_sites h"
proof -
  have mi: "map_inv (allocation_map h)" using assms(1) by (simp add: handler_inv_def)
  obtain s where s: "spec_site (map_of (allocation_map h)) q = Some s" "getAllocSite q h = s"
    using assms(2) spec_site_or_error_isValid [OF mi, of q] lookup_site [OF mi, of q]
    by (auto simp: spec_site_or_error_def)
  then obtain p where "map_of (allocation_map h) p = Some s"
    by (auto simp: spec_site_def Let_def split: option.splits if_splits)
  then show ?thesis using s by (force simp: held_sites_def dest: map_of_SomeD)
qed

lemma addFaultAlloc_total:
  assumes "handler_inv h" and "\<forall>s\<in>held_sites h. id_ok (AllocSiteCount st) (as_localID s)"
  shows "\<exists>st' h'. addFaultAlloc q pk st h = Inr (st', h') \<and> AllocSiteCount st' = AllocSiteCount st"
proof (cases "isValid (getAllocSite q h)")
  case False
  then show ?thesis by (simp add: addFaultAlloc_def)
next
  case True
  let ?s = "getAllocSite q h"
  obtain st1 where st1: "count_fault ?s st = Inr st1" "AllocSiteCount st1 = AllocSiteCount st"
    using count_fault_total [OF True, of st] assms True getAllocSite_held by blast
  show ?thesis
  proof (cases "um_find site_eq (addPkey pk ?s) (FM h)")
    case None
    then show ?thesis using True st1 by (simp add: addFaultAlloc_def Let_def)
  next
    case (Some c)
    have "\<forall>a\<in>set c. isValid a"
      using assms(1) chains_inv_find [OF _ Some] by (simp add: handler_inv_def sites_inv_def)
    then have "\<forall>a\<in>set c. isValid a \<and> id_ok (AllocSiteCount st1) (as_localID a)"
      using assms(2) st1(2) chain_sites_find [OF Some] by (auto simp: held_sites_def)
    from mark_chain_total [OF this, of pk "us_insert site_eq (addPkey pk ?s) (fault_set h)"]
    show ?thesis using True st1 Some by (auto simp: addFaultAlloc_def Let_def)
  qed
qed

lemma held_insert: "held_sites (insertAllocSite p s h) \<subseteq> insert s (held_sites h)"
  using set_om_emplace [of p s "allocation_map h"] by (force simp: held_sites_def insertAllocSite_def)

lemma held_remove: "held_sites (removeAllocSite p h) \<subseteq> held_sites h"
  by (auto simp: held_sites_def removeAllocSite_def om_erase_def)

lemma held_chain: "held_sites (updateReallocChain old new h) \<subseteq> insert old (held_sites h)"
proof (cases "um_find site_eq old (FM h)")
  case None
  then show ?thesis
    using chain_sites_emplace [of new "us_insert site_eq old []" "FM h"] site.set_insert_subset [of old "[]"]
    by (auto simp: held_sites_def updateReallocChain_def)
next
  case (Some c)
  then show ?thesis
    using chain_sites_emplace [of new "us_insert site_eq old c" "FM h"] site.set_insert_subset [of old c]
      chain_sites_find [OF Some]
    by (auto simp: held_sites_def updateReallocChain_def)
qed

lemma ids_inv_getOrInit:
  assumes "runtime_inv rt" and "ids_inv (AllocSiteTotal pf) rt"
  shows "ids_inv (AllocSiteTotal pf) (getOrInit pf rt)"
  using assms
  by (auto simp: ids_inv_def getOrInit_def AllocSiteHandler_init_def provsan_untrusted_constructor_def
      Let_def held_sites_def AllocSiteHandler_def chain_sites_def runtime_inv_def)

lemma ids_inv_handler:
  "ids_inv n rt \<Longrightarrow> AllocHandlerInitFlag rt \<Longrightarrow> \<forall>s\<in>held_sites h. id_ok n (as_localID s) \<Longrightarrow>
    ids_inv n (set_handler h rt)"
  by (simp add: ids_inv_def)

lemma ids_inv_count_call:
  "ids_inv n rt \<Longrightarrow> (\<And>st. AllocSiteCount (f st) = AllocSiteCount st) \<Longrightarrow> ids_inv n (count_call f rt)"
  by (simp add: ids_inv_def) (simp add: count_call_def)

lemma id_ok_the_site [simp]: "as_localID (the_site p sz lid bb fn re) = lid"
  by (simp add: the_site_def)

lemma isValid_the_site_re: "isValid (the_site p sz lid bb fn re) \<Longrightarrow> isValid (the_site p sz lid bb fn re')"
  by (simp add: isValid_def the_site_def)

lemma make_site_total:
  "isValid (the_site p sz lid bb fn re) \<Longrightarrow>
    make_site p sz lid (Some bb) (Some fn) 0 re = Inr (the_site p sz lid bb fn re)"
  by (simp add: make_site_Inr)

lemma step_total:
  assumes inv: "runtime_inv rt" and ids: "ids_inv (AllocSiteTotal pf) rt"
    and ok: "args_ok (AllocSiteTotal pf) e"
  shows "\<exists>rt'. rt_step pf e rt = Inr rt' \<and> ids_inv (AllocSiteTotal pf) rt'"
proof -
  let ?n = "AllocSiteTotal pf" and ?rt = "getOrInit pf rt"
  obtain h where h: "AllocSiteHandle ?rt = Some h" "the_handler ?rt = Inr h" "handler_inv h"
    using getOrInit_handle [OF inv] by blast
  have ids1: "ids_inv ?n ?rt" by (rule ids_inv_getOrInit [OF inv ids])
  then have held: "\<forall>s\<in>held_sites h. id_ok ?n (as_localID s)"
    using h(1) by (simp add: ids_inv_def)
  have n: "AllocSiteCount (rt_stats ?rt) = ?n" using ids1 by (simp add: ids_inv_def)
  show ?thesis
  proof (cases e)
    case (Alloc p sz lid bb fn)
    then show ?thesis
      using ok held held_insert [of p "the_site p sz lid bb fn False" h] h(2) ids1
      by (auto simp: allocHook_def make_site_total Let_def intro!: ids_inv_count_call ids_inv_handler)
  next
    case (Dealloc p sz lid)
    then show ?thesis
      using held held_remove [of p h] h(2) ids1
      by (auto simp: deallocHook_def Let_def intro!: ids_inv_count_call ids_inv_handler)
  next
    case (Fault q pk)
    obtain st' h' where f: "addFaultAlloc q pk (rt_stats ?rt) h = Inr (st', h')" "AllocSiteCount st' = ?n"
      using addFaultAlloc_total [OF h(3), of "rt_stats ?rt" q pk] held n by auto
    have "held_sites h' = held_sites h"
      using addFaultAlloc_frame [OF f(1)] by (simp add: held_sites_def)
    then show ?thesis
      using Fault f h(2) held by (simp add: recordFault_def Let_def ids_inv_def)
  next
    case (Realloc np nsz op osz lid bb fn)
    let ?old = "getAllocSite op h" and ?new = "\<lambda>re. the_site np nsz lid bb fn re"
    have v: "isValid (?new re)" for re using ok Realloc isValid_the_site_re by auto
    have lid: "id_ok ?n lid" using ok Realloc by simp
    show ?thesis
    proof (cases "isValid ?old")
      case False
      then show ?thesis
        using Realloc v lid held held_insert [of np "?new False" h] h(2) ids1
        by (auto simp: reallocHook_def make_site_total Let_def intro!: ids_inv_handler)
    next
      case True
      let ?h1 = "updateReallocChain ?old (?new True) h"
      have "held_sites (insertAllocSite np (?new True) (removeAllocSite op ?h1)) \<subseteq>
          insert (?new True) (insert ?old (held_sites h))"
        using held_insert held_remove held_chain by blast
      then have "\<forall>s\<in>held_sites (insertAllocSite np (?new True) (removeAllocSite op ?h1)).
          id_ok ?n (as_localID s)"
        using held lid getAllocSite_held [OF h(3) True] by auto
      then show ?thesis
        using Realloc v True h(2) ids1
        by (auto simp: reallocHook_def make_site_total Let_def
            intro!: ids_inv_count_call ids_inv_handler)
    qed
  qed
qed

lemma run_total:
  "runtime_inv rt \<Longrightarrow> ids_inv (AllocSiteTotal pf) rt \<Longrightarrow> \<forall>e\<in>set es. args_ok (AllocSiteTotal pf) e \<Longrightarrow>
    \<exists>rt'. rt_run pf es rt = Inr rt'"
proof (induction es arbitrary: rt)
  case Nil
  then show ?case by simp
next
  case (Cons e es)
  then obtain rt1 where "rt_step pf e rt = Inr rt1" "ids_inv (AllocSiteTotal pf) rt1"
    using step_total [of rt pf e] by auto
  then show ?case using Cons step_refines [of rt pf e rt1] by auto
qed

lemma ids_inv0: "ids_inv n (runtime0 d)"
  by (simp add: ids_inv_def runtime0_def)

subsection \<open>Only positions of the run are reported\<close>

definition keys_bound :: "site_key set \<Rightarrow> spec_state \<Rightarrow> bool" where
  "keys_bound K a \<longleftrightarrow>
    (\<forall>p s. live a p = Some s \<longrightarrow> site_key s \<in> K) \<and> reported a \<subseteq> K \<and>
    (\<forall>k c. origins a k = Some c \<longrightarrow> c \<subseteq> K)"

lemma keys_bound_insert:
  "keys_bound K a \<Longrightarrow> site_key s \<in> K \<Longrightarrow> keys_bound K (spec_insert p s a)"
  by (auto simp: keys_bound_def spec_insert_def)

lemma keys_bound_remove: "keys_bound K a \<Longrightarrow> keys_bound K (spec_remove p a)"
  by (auto simp: keys_bound_def spec_remove_def)

lemma keys_bound_chain: "keys_bound K a \<Longrightarrow> old \<in> K \<Longrightarrow> keys_bound K (spec_chain old new a)"
  by (cases "origins a new"; cases "origins a old")
     (simp_all add: keys_bound_def spec_chain_def del: split_paired_All)

lemma spec_site_live: "spec_site L q = Some s \<Longrightarrow> \<exists>p. L p = Some s"
  by (auto simp: spec_site_def Let_def split: option.splits if_splits)

lemma keys_bound_fault:
  assumes "keys_bound K a"
  shows "keys_bound K (spec_fault q a)"
proof (cases "spec_site (live a) q")
  case None
  then show ?thesis using assms by (simp add: spec_fault_def)
next
  case (Some s)
  have "site_key s \<in> K" using assms spec_site_live [OF Some] by (auto simp: keys_bound_def)
  moreover have "(case origins a (site_key s) of None \<Rightarrow> {} | Some c \<Rightarrow> c) \<subseteq> K"
    using assms unfolding keys_bound_def by (metis empty_subsetI option.case_eq_if option.collapse)
  ultimately show ?thesis
    using assms Some by (simp add: keys_bound_def spec_fault_def del: split_paired_All)
qed

lemma keys_bound_step:
  assumes "keys_bound K a" and "set (alloc_keys [e]) \<union> set (realloc_keys [e]) \<subseteq> K"
  shows "keys_bound K (spec_step e a)"
proof (cases e)
  case (Realloc np nsz op osz lid bb fn)
  have "site_key old \<in> K" if "spec_site (live a) op = Some old" for old
    using assms(1) spec_site_live [OF that] by (auto simp: keys_bound_def)
  then show ?thesis
    using assms Realloc
    by (auto intro!: keys_bound_insert keys_bound_remove keys_bound_chain split: option.splits)
qed (use assms in \<open>auto intro: keys_bound_insert keys_bound_remove keys_bound_fault\<close>)

lemma event_keys_Cons:
  "set (alloc_keys (e # es)) \<union> set (realloc_keys (e # es)) =
    (set (alloc_keys [e]) \<union> set (realloc_keys [e])) \<union> (set (alloc_keys es) \<union> set (realloc_keys es))"
  by (cases e) auto

lemma keys_bound_run:
  "keys_bound K a \<Longrightarrow> set (alloc_keys es) \<union> set (realloc_keys es) \<subseteq> K \<Longrightarrow>
    keys_bound K (fold spec_step es a)"
proof (induction es arbitrary: a)
  case Nil
  then show ?case by simp
next
  case (Cons e es)
  then show ?case
    using keys_bound_step [of K a e] unfolding event_keys_Cons [of e es] by simp
qed

lemma run_reports:
  assumes "rt_run pf es (runtime0 d) = Inr rt"
  shows "reported (abs_rt rt) \<subseteq> set (alloc_keys es) \<union> set (realloc_keys es)"
proof -
  have "keys_bound (set (alloc_keys es) \<union> set (realloc_keys es)) (fold spec_step es spec0)"
    by (rule keys_bound_run) (simp_all add: keys_bound_def spec0_def)
  then show ?thesis
    using run_refines [OF runtime_inv0 assms] by (simp add: keys_bound_def)
qed

lemma rt_run_append: "rt_run pf (es @ es') rt = and_then (rt_run pf es rt) (rt_run pf es')"
  by (induction es arbitrary: rt) (auto simp: and_then_def split: sum.splits)

subsection \<open>A sample process\<close>

text \<open>
  A process with single stepping and no statistics, and three runs of it: one object that is
  allocated, grown and faults; the same reallocation call growing objects of two origins; and
  two threads' worth of blocks.
\<close>

definition demo_pf :: platform where
  "demo_pf =
    \<lparr>AllocSiteTotal = 0, cpuid = (\<lambda>_ _. (8, 0xA80, 0, 0)), getpid = 100,
     is_safe_address = is_safe_address_default, PAGE_MPK = False\<rparr>"

definition demo_rt :: runtime where
  "demo_rt = runtime0 (\<lambda>_. zero_sa)"

definition grow_run :: "rt_event list" where
  "grow_run =
    [Alloc 0x1000 16 0 ''entry'' ''f'',
     Alloc 0x3000 16 0 ''entry'' ''g'',
     Realloc 0x2000 32 0x1000 16 1 ''entry'' ''grow'',
     Dealloc 0x3000 16 0]"

definition two_origins_run :: "rt_event list" where
  "two_origins_run =
    [Alloc 0x1000 16 0 ''entry'' ''f'',
     Realloc 0x2000 32 0x1000 16 1 ''entry'' ''grow'',
     Alloc 0x3000 16 0 ''entry'' ''g'',
     Realloc 0x4000 32 0x3000 16 1 ''entry'' ''grow'']"

lemma grow_run_conforms: "conforms grow_run ghost0"
  by (simp add: grow_run_def ghost0_def free_range_def isValid_def the_site_def)

lemma grow_run_blocks:
  "blocks (fold ghost_step grow_run ghost0) =
    (\<lambda>_. None)(0x2000 \<mapsto> the_site 0x2000 32 1 ''entry'' ''grow'' True)"
  by (auto simp: grow_run_def ghost0_def fun_eq_iff)

lemma grow_run_ancestors:
  "ancestors (fold ghost_step grow_run ghost0) 0x2000 = {(''f'', ''entry'', 0)}"
  by (simp add: grow_run_def ghost0_def)

lemma grow_run_args: "\<forall>e\<in>set grow_run. args_ok (AllocSiteTotal demo_pf) e"
  by (simp add: grow_run_def demo_pf_def isValid_def the_site_def id_ok_def)

lemma grow_run_single: "single_use grow_run"
  by (simp add: grow_run_def single_use_def)

lemma demo_inv: "runtime_inv demo_rt" "ids_inv n demo_rt"
  by (simp_all add: demo_rt_def runtime_inv0 ids_inv0)

lemma grow_run_result:
  obtains rt rt' where "rt_run demo_pf grow_run (runtime0 (\<lambda>_. zero_sa)) = Inr rt"
    "recordFault demo_pf q pk rt = Inr rt'"
proof -
  have "\<forall>e\<in>set (grow_run @ [Fault q pk]). args_ok (AllocSiteTotal demo_pf) e"
    using grow_run_args by simp
  from run_total [OF runtime_inv0 ids_inv0 this]
  obtain rt' where "rt_run demo_pf (grow_run @ [Fault q pk]) (runtime0 (\<lambda>_. zero_sa)) = Inr rt'" by blast
  then show ?thesis using that by (auto simp: rt_run_append and_then_eq_Inr)
qed

lemma grow_run_handle:
  assumes "rt_run demo_pf grow_run (runtime0 d) = Inr rt"
  obtains h where "AllocSiteHandle rt = Some h"
  using assms by (auto simp: grow_run_def deallocHook_def and_then_eq_Inr Let_def)

subsection \<open>What the profile means\<close>

lemma recordFault_reported:
  assumes "runtime_inv rt" and "recordFault pf q pk rt = Inr rt'"
  shows "reported (abs_rt rt') = reported (abs_rt rt) \<union>
    (case spec_site (live (abs_rt rt)) q of
       None \<Rightarrow> {}
     | Some s \<Rightarrow> insert (site_key s)
         (case origins (abs_rt rt) (site_key s) of None \<Rightarrow> {} | Some c \<Rightarrow> c))"
    and "live (abs_rt rt') = live (abs_rt rt)" "origins (abs_rt rt') = origins (abs_rt rt)"
    "waiting (abs_rt rt') = waiting (abs_rt rt)"
proof -
  have "abs_rt rt' = spec_fault q (abs_rt rt)"
    using recordFault_refines [OF assms(1), of pf q pk rt'] assms(2) by simp
  then show "reported (abs_rt rt') = reported (abs_rt rt) \<union>
    (case spec_site (live (abs_rt rt)) q of
       None \<Rightarrow> {}
     | Some s \<Rightarrow> insert (site_key s)
         (case origins (abs_rt rt) (site_key s) of None \<Rightarrow> {} | Some c \<Rightarrow> c))"
    "live (abs_rt rt') = live (abs_rt rt)" "origins (abs_rt rt') = origins (abs_rt rt)"
    "waiting (abs_rt rt') = waiting (abs_rt rt)"
    by (auto simp: spec_fault_def split: option.splits)
qed

lemma conforming_chain:
  assumes "conforms es ghost0" and "single_use es" and "rt_run pf es (runtime0 d) = Inr rt"
    and "blocks (fold ghost_step es ghost0) p = Some s"
  shows "(case origins (abs_rt rt) (site_key s) of None \<Rightarrow> {} | Some c \<Rightarrow> c) =
    ancestors (fold ghost_step es ghost0) p"
proof -
  have "chain_inv [] (fold spec_step es spec0) (fold ghost_step es ghost0)"
    using assms heap_inv_empty by (intro chain_inv_run chain_inv0) (simp_all add: spec0_def ghost0_def)
  then show ?thesis
    using assms(4) conforming_run(2) [OF assms(1,3)] by (auto simp: chain_inv_def)
qed

lemma fault_reports:
  assumes "conforms es ghost0" and "single_use es"
    and "rt_run pf es (runtime0 d) = Inr rt" and "recordFault pf q pk rt = Inr rt'"
    and "blocks (fold ghost_step es ghost0) p = Some s" and "owns s q"
  shows "reported (abs_rt rt') =
    reported (abs_rt rt) \<union> {site_key s} \<union> ancestors (fold ghost_step es ghost0) p"
proof -
  note run = conforming_run [OF assms(1,3)]
  have "as_ptr s = p" using run(3,4) assms(5) well_placedD(1) by (fastforce simp: heap_inv_def)
  then have "spec_site (live (abs_rt rt)) q = Some s"
    using conforming_site [OF assms(1,3)] assms(5,6) by simp
  with recordFault_reported(1) [OF run(1) assms(4)] conforming_chain [OF assms(1-3,5)]
  show ?thesis by auto
qed

text \<open>C1: Over a conforming allocator, and while no reallocation position ran twice or was an allocation
  position too, a fault inside a live block adds to the report exactly the position that allocated the
  block and the positions the block descends from by reallocation, and nothing else. The second
  condition is needed: once a reallocation position runs again, the block it grows can be reported
  under the origins of the first.\<close>

theorem fault_blames_owner:
  assumes "conforms es ghost0" and "single_use es"
    and "rt_run pf es (runtime0 d) = Inr rt" and "recordFault pf q pk rt = Inr rt'"
    and "blocks (fold ghost_step es ghost0) p = Some s" and "owns s q"
  shows "reported (abs_rt rt') =
    reported (abs_rt rt) \<union> {site_key s} \<union> ancestors (fold ghost_step es ghost0) p"
  using assms by (rule fault_reports)

theorem fault_blames_owner_witness:
  "\<exists>rt rt'. rt_run demo_pf grow_run (runtime0 (\<lambda>_. zero_sa)) = Inr rt \<and>
    recordFault demo_pf 0x2010 1 rt = Inr rt' \<and>
    reported (abs_rt rt') = reported (abs_rt rt) \<union> {(''grow'', ''entry'', 1)} \<union> {(''f'', ''entry'', 0)}"
proof -
  obtain rt rt' where run: "rt_run demo_pf grow_run (runtime0 (\<lambda>_. zero_sa)) = Inr rt"
    "recordFault demo_pf 0x2010 1 rt = Inr rt'"
    by (rule grow_run_result)
  have "reported (abs_rt rt') = reported (abs_rt rt) \<union>
      {site_key (the_site 0x2000 32 1 ''entry'' ''grow'' True)} \<union>
      ancestors (fold ghost_step grow_run ghost0) 0x2000"
    by (rule fault_blames_owner [OF grow_run_conforms grow_run_single run])
       (simp_all add: grow_run_blocks owns_def)
  then show ?thesis using run by (auto simp: grow_run_ancestors)
qed

text \<open>A fault at an address that lies in no live block changes nothing the profile is made
  of.\<close>

lemma fault_outside_blocks:
  assumes "conforms es ghost0" and "rt_run pf es (runtime0 d) = Inr rt"
    and "recordFault pf q pk rt = Inr rt'"
    and "\<forall>p s. blocks (fold ghost_step es ghost0) p = Some s \<longrightarrow> \<not> owns s q"
  shows "abs_rt rt' = abs_rt rt"
proof -
  note run = conforming_run [OF assms(1,2)]
  have "spec_site (live (abs_rt rt)) q = None"
    using conforming_site [OF assms(1,2), of q] assms(4) by (metis option.exhaust)
  then show ?thesis
    using recordFault_refines [OF run(1), of pf q pk rt'] assms(3) by (simp add: spec_fault_def)
qed

text \<open>C18: After a conforming run the address map holds exactly the live blocks of the program, each
  under its own address, and a lookup returns the block an address lies in or the error site.\<close>

theorem lookup_finds_block:
  assumes "conforms es ghost0" and "rt_run pf es (runtime0 d) = Inr rt"
    and "AllocSiteHandle rt = Some h"
  shows "map_of (allocation_map h) = blocks (fold ghost_step es ghost0) \<and>
    (\<forall>q. if \<exists>p s. blocks (fold ghost_step es ghost0) p = Some s \<and> owns s q
      then owns (getAllocSite q h) q \<and>
        blocks (fold ghost_step es ghost0) (as_ptr (getAllocSite q h)) = Some (getAllocSite q h)
      else getAllocSite q h = AllocSite_error)"
proof -
  note run = conforming_run [OF assms(1,2)] and site = conforming_site [OF assms(1,2)]
  have L: "map_of (allocation_map h) = live (abs_rt rt)"
    using assms(3) by (simp add: abs_rt_def abs_handler_def)
  have "map_inv (allocation_map h)"
    using run(1) assms(3) by (auto simp: runtime_inv_def handler_inv_def)
  note get = lookup_site [OF this, unfolded L]
  have self: "as_ptr s = p" if "blocks (fold ghost_step es ghost0) p = Some s" for p s
    using that run(3,4) well_placedD(1) by (fastforce simp: heap_inv_def)
  have "if \<exists>p s. blocks (fold ghost_step es ghost0) p = Some s \<and> owns s q
      then owns (getAllocSite q h) q \<and>
        blocks (fold ghost_step es ghost0) (as_ptr (getAllocSite q h)) = Some (getAllocSite q h)
      else getAllocSite q h = AllocSite_error" for q
  proof (cases "spec_site (live (abs_rt rt)) q")
    case None
    then have "\<not> (\<exists>p s. blocks (fold ghost_step es ghost0) p = Some s \<and> owns s q)"
      using site [of q] self by fastforce
    then show ?thesis using get [of q] None by (simp only: spec_site_or_error_def option.case if_False)
  next
    case (Some s)
    then have "blocks (fold ghost_step es ghost0) (as_ptr s) = Some s \<and> owns s q"
      using site by blast
    then show ?thesis using get [of q] Some by (auto simp: spec_site_or_error_def)
  qed
  then show ?thesis using L run(3) by simp
qed

theorem lookup_finds_block_witness:
  "\<exists>rt h. rt_run demo_pf grow_run (runtime0 (\<lambda>_. zero_sa)) = Inr rt \<and> AllocSiteHandle rt = Some h \<and>
    map_of (allocation_map h) = [0x2000 \<mapsto> the_site 0x2000 32 1 ''entry'' ''grow'' True] \<and>
    getAllocSite 0x2020 h = AllocSite_error"
proof -
  obtain rt rt' where run: "rt_run demo_pf grow_run (runtime0 (\<lambda>_. zero_sa)) = Inr rt"
    by (rule grow_run_result)
  obtain h where h: "AllocSiteHandle rt = Some h"
    using run by (rule grow_run_handle)
  note found = lookup_finds_block [OF grow_run_conforms run h, unfolded grow_run_blocks]
  have "\<not> (\<exists>p s. [0x2000 :: rust_ptr \<mapsto> the_site 0x2000 32 1 ''entry'' ''grow'' True] p = Some s \<and> owns s 0x2020)"
    by (simp add: owns_def)
  with found have "getAllocSite 0x2020 h = AllocSite_error" by presburger
  with found run h show ?thesis by blast
qed

text \<open>C24: No event stops the process when every hook receives a non-null address, a positive size
  and an identifier that is not negative and, where the pass wrote the number of sites, below
  it. Deallocations and faults never stop it.\<close>

theorem run_never_aborts:
  assumes "\<forall>e\<in>set es. args_ok (AllocSiteTotal pf) e"
  shows "\<exists>rt. rt_run pf es (runtime0 d) = Inr rt"
  by (rule run_total [OF runtime_inv0 ids_inv0 assms])

theorem run_never_aborts_witness:
  "\<exists>rt. rt_run demo_pf grow_run (runtime0 (\<lambda>_. zero_sa)) = Inr rt"
  by (rule run_never_aborts [OF grow_run_args])

text \<open>Whatever the allocator does, every reported position is the position of an allocation or
  reallocation call of the run.\<close>

lemma reports_sound:
  assumes "rt_run pf es (runtime0 d) = Inr rt"
  shows "reported (abs_rt rt) \<subseteq> set (alloc_keys es) \<union> set (realloc_keys es)"
  using assms by (rule run_reports)

text \<open>The chain of a reallocation position is fixed by the first block that reached it: no later
  event changes it, whatever block the call reallocates next.\<close>

lemma realloc_chain_frozen:
  assumes "rt_run pf es (runtime0 d) = Inr rt" and "rt_run pf es' rt = Inr rt'"
    and "origins (abs_rt rt) k = Some c"
  shows "origins (abs_rt rt') k = Some c"
  using run_refines [OF runtime_inv0 assms(1)] run_refines [OF _ assms(2)] fold_chain_keeps assms(3)
  by simp

text \<open>C27: So the origin of a block can be missing from the report. Over a conforming allocator, once a
  reallocation position has a chain, a fault in any block that this position allocates later reports
  the position and that same chain, which are the positions of the first block it grew, and not the
  positions the faulting block descends from; of those, only what is in the chain or was reported
  before is in the report.\<close>

theorem second_origin_lost:
  assumes "conforms (es @ es') ghost0"
    and "rt_run pf es (runtime0 d) = Inr rt" and "rt_run pf es' rt = Inr rt'"
    and "origins (abs_rt rt) (site_key s) = Some c"
    and "blocks (fold ghost_step (es @ es') ghost0) p = Some s" and "owns s q"
    and "recordFault pf q pk rt' = Inr rt''"
  shows "reported (abs_rt rt'') = reported (abs_rt rt') \<union> {site_key s} \<union> c \<and>
    (ancestors (fold ghost_step (es @ es') ghost0) p - insert (site_key s) c) \<inter> reported (abs_rt rt'') \<subseteq> reported (abs_rt rt')"
proof -
  have run: "rt_run pf (es @ es') (runtime0 d) = Inr rt'" using assms(2,3) by (simp add: rt_run_append)
  note conf = conforming_run [OF assms(1) run]
  have "as_ptr s = p" using conf(3,4) assms(5) well_placedD(1) by (fastforce simp: heap_inv_def)
  then have "spec_site (live (abs_rt rt')) q = Some s"
    using conforming_site [OF assms(1) run] assms(5,6) by simp
  moreover have "origins (abs_rt rt') (site_key s) = Some c"
    using realloc_chain_frozen [OF assms(2-4)] .
  ultimately have "reported (abs_rt rt'') = reported (abs_rt rt') \<union> {site_key s} \<union> c"
    using recordFault_reported(1) [OF conf(1) assms(7)] by auto
  then show ?thesis by blast
qed

text \<open>
  Two blocks of \<open>f\<close> and \<open>g\<close> grown by the same call, and a fault in the second: the report names
  \<open>f\<close>, where the faulting block never was, and not \<open>g\<close>.
\<close>

theorem second_origin_lost_witness:
  "\<exists>rt rt'. rt_run demo_pf two_origins_run (runtime0 (\<lambda>_. zero_sa)) = Inr rt \<and> recordFault demo_pf 0x4008 1 rt = Inr rt' \<and>
    ancestors (fold ghost_step two_origins_run ghost0) 0x4000 = {(''g'', ''entry'', 0)} \<and>
    reported (abs_rt rt') = {(''grow'', ''entry'', 1), (''f'', ''entry'', 0)}"
proof -
  let ?es = "take 2 two_origins_run" and ?es' = "drop 2 two_origins_run" and ?s = "the_site 0x4000 32 1 ''entry'' ''grow'' True"
  have conf: "conforms (?es @ ?es') ghost0"
    by (simp add: two_origins_run_def ghost0_def free_range_def isValid_def the_site_def)
  have "\<forall>e\<in>set (two_origins_run @ [Fault 0x4008 1]). args_ok (AllocSiteTotal demo_pf) e"
    by (simp add: two_origins_run_def demo_pf_def isValid_def the_site_def id_ok_def)
  from run_total [OF runtime_inv0 ids_inv0 this] obtain rt'' where
    "rt_run demo_pf (two_origins_run @ [Fault 0x4008 1]) (runtime0 (\<lambda>_. zero_sa)) = Inr rt''" by blast
  moreover have "two_origins_run @ [Fault 0x4008 1] = ?es @ ?es' @ [Fault 0x4008 1]" by simp
  ultimately have "rt_run demo_pf (?es @ ?es' @ [Fault 0x4008 1]) (runtime0 (\<lambda>_. zero_sa)) = Inr rt''" by metis
  then obtain rt rt' where run: "rt_run demo_pf ?es (runtime0 (\<lambda>_. zero_sa)) = Inr rt"
    "rt_run demo_pf ?es' rt = Inr rt'" and fault: "recordFault demo_pf 0x4008 1 rt' = Inr rt''"
    by (auto simp: rt_run_append and_then_eq_Inr)
  have run': "rt_run demo_pf two_origins_run (runtime0 (\<lambda>_. zero_sa)) = Inr rt'"
    using run rt_run_append [of demo_pf ?es ?es'] by simp
  have chain: "origins (abs_rt rt) (site_key ?s) = Some {(''f'', ''entry'', 0)}" and none: "reported (abs_rt rt') = {}"
    using run_refines [OF runtime_inv0 run(1)] run_refines [OF runtime_inv0 run']
    by (simp_all add: two_origins_run_def spec0_def spec_insert_def spec_remove_def spec_chain_def spec_site_exact
        split: option.split)
  have block: "blocks (fold ghost_step (?es @ ?es') ghost0) 0x4000 = Some ?s"
    by (simp add: two_origins_run_def ghost0_def)
  have own: "owns ?s 0x4008" by (simp add: owns_def)
  have "reported (abs_rt rt'') = reported (abs_rt rt') \<union> {site_key ?s} \<union> {(''f'', ''entry'', 0)}"
    using second_origin_lost [OF conf run chain block own fault] by (rule conjunct1)
  moreover have "ancestors (fold ghost_step two_origins_run ghost0) 0x4000 = {(''g'', ''entry'', 0)}"
    by (simp add: two_origins_run_def ghost0_def site_key_def the_site_def)
  ultimately show ?thesis using run' fault none by (intro exI [of _ rt'] exI [of _ rt'']) (auto)
qed

end
