(* ===== verification/Fault_Handler.thy ===== *)
theory Fault_Handler
  imports Provenance
begin

section \<open>The fault and trap handlers\<close>

text \<open>
  \<open>Runtime/provsan_fault_handler.cpp\<close>: the SIGSEGV handler records the faulting allocation and
  lets the faulting instruction through, by default with the thread's access to the key enabled
  and the processor's trap flag set; the SIGTRAP handler that follows takes the access away again.
  A fault that is not a protection key fault is forwarded to the handler that was installed before.
  Effects outside the process's own data (a call of a foreign handler, a raised signal, a changed
  page, a message) are listed in the order they happen.
\<close>

record siginfo =
  si_code :: i32
  si_addr :: rust_ptr
  si_pkey :: u32

abbreviation SEGV_PKUERR :: i32 where "SEGV_PKUERR \<equiv> 4"
abbreviation SA_RESTART :: u32 where "SA_RESTART \<equiv> 0x10000000"
abbreviation TF :: "64 word" where "TF \<equiv> 0x100"
abbreviation PAGE_SIZE :: i32 where "PAGE_SIZE \<equiv> 4096"
abbreviation PROT_READ :: u32 where "PROT_READ \<equiv> 1"
abbreviation PROT_WRITE :: u32 where "PROT_WRITE \<equiv> 2"

datatype effect =
    CallSigaction nat signal \<comment> \<open>a foreign handler, called with three arguments\<close>
  | CallHandler nat signal \<comment> \<open>a foreign handler, called with the signal number\<close>
  | Raise signal
  | Pkey_mprotect rust_ptr i32 u32 u32
  | Error_message rust_ptr bool

type_synonym outcome = "runtime \<times> ucontext \<times> effect list"

subsection \<open>Letting the faulting instruction through\<close>

definition page_addr :: "rust_ptr \<Rightarrow> rust_ptr" where
  "page_addr a = a AND scast (NOT (PAGE_SIZE - 1))"

definition disablePageMPK :: "siginfo \<Rightarrow> effect list" where
  "disablePageMPK si = [Pkey_mprotect (page_addr (si_addr si)) PAGE_SIZE (PROT_READ OR PROT_WRITE) 0]"

definition disableThreadMPK ::
    "platform \<Rightarrow> thread_id \<Rightarrow> u32 \<Rightarrow> ucontext \<Rightarrow> runtime \<Rightarrow> rt_error + runtime \<times> ucontext" where
  "disableThreadMPK pf gettid pk c rt =
    (let rt = getOrInit pf rt;
         pkru = read_pkru (cpuid pf) c;
         info = \<lparr>pk_pkey = pk, pk_access_rights = fst (pkey_get pkru pk)\<rparr>
     in and_then (the_handler rt) (\<lambda>h.
          let rt = set_handler (storePendingPKeyInfo gettid info h) rt;
              (_, pkru, _) = pkey_set pkru pk PKEY_ENABLE_ACCESS
          in Inr (rt, write_pkru (cpuid pf) pkru c)))"

definition enableThreadMPK :: "platform \<Rightarrow> PendingPKeyInfo \<Rightarrow> ucontext \<Rightarrow> ucontext" where
  "enableThreadMPK pf info c =
    (let (_, pkru, _) = pkey_set (read_pkru (cpuid pf) c) (pk_pkey info) (pk_access_rights info)
     in write_pkru (cpuid pf) pkru c)"

definition disable_mpk ::
    "platform \<Rightarrow> thread_id \<Rightarrow> siginfo \<Rightarrow> ucontext \<Rightarrow> runtime \<Rightarrow> rt_error + outcome" where
  "disable_mpk pf gettid si c rt =
    (if \<not> PAGE_MPK pf then
       and_then (disableThreadMPK pf gettid (si_pkey si) c rt) (\<lambda>(rt, c).
         Inr (rt, c\<lparr>REG_EFL := REG_EFL c OR TF\<rparr>, []))
     else Inr (rt, c, disablePageMPK si))"

subsection \<open>The handlers\<close>

text \<open>The part of \<open>pku_segv_handler\<close> for protection key faults.\<close>

definition handle_pkuerr ::
    "platform \<Rightarrow> thread_id \<Rightarrow> siginfo \<Rightarrow> ucontext \<Rightarrow> runtime \<Rightarrow> rt_error + outcome" where
  "handle_pkuerr pf gettid si c rt =
    and_then (recordFault pf (si_addr si) (si_pkey si) rt) (\<lambda>rt.
      and_then (the_handler rt) (\<lambda>h.
        let fault_site = getAllocSite (si_addr si) h;
            msg = (if \<not> isValid fault_site
                   then [Error_message (si_addr si) (is_safe_address pf (si_addr si))] else [])
        in and_then (disable_mpk pf gettid si c rt) (\<lambda>(rt, c, eff). Inr (rt, c, msg @ eff))))"

definition pku_trap_handler :: "platform \<Rightarrow> ucontext \<Rightarrow> runtime \<Rightarrow> rt_error + outcome" where
  "pku_trap_handler pf c rt =
    (let rt = getOrInit pf rt in
     and_then (the_handler rt) (\<lambda>h.
       let (pid_key_info, h) = getAndRemove (getpid pf) h;
           rt = set_handler h rt;
           c = (case pid_key_info of None \<Rightarrow> c | Some info \<Rightarrow> enableThreadMPK pf info c)
       in Inr (rt, c\<lparr>REG_EFL := REG_EFL c AND NOT TF\<rparr>, [])))"

text \<open>
  \<open>signal(sig, SIG_DFL)\<close> with the BSD semantics of the C library, and installing the previous
  action again.
\<close>

definition default_sa :: "signal \<Rightarrow> sigact" where
  "default_sa sig = \<lparr>sa_flags = SA_RESTART, sa_mask = [sig], sa_fn = SIG_DFL\<rparr>"

definition set_default :: "signal \<Rightarrow> runtime \<Rightarrow> runtime" where
  "set_default sig rt =
    rt\<lparr>rt_sigs := (rt_sigs rt)\<lparr>disposition := (disposition (rt_sigs rt))(sig := default_sa sig)\<rparr>\<rparr>"

definition reinstall :: "signal \<Rightarrow> sa_loc \<Rightarrow> runtime \<Rightarrow> runtime" where
  "reinstall sig prev rt = rt\<lparr>rt_sigs := sigaction_call sig prev None (rt_sigs rt)\<rparr>"

text \<open>
  The handler calls itself when the saved action is its own; the result is \<open>None\<close> when that
  never ends.
\<close>

partial_function (option) pku_segv_handler ::
    "platform \<Rightarrow> thread_id \<Rightarrow> signal \<Rightarrow> siginfo \<Rightarrow> ucontext \<Rightarrow> runtime \<Rightarrow> (rt_error + outcome) option" where
  "pku_segv_handler pf gettid sig si c rt =
    (if si_code si \<noteq> SEGV_PKUERR then
       (case prevAction (rt_sigs rt) of
          None \<Rightarrow> Some (Inr (set_default sig rt, c, [Raise sig]))
        | Some prev \<Rightarrow>
            (let pa = sa_mem (rt_sigs rt) prev in
             if sa_flags pa AND SA_SIGINFO \<noteq> 0 then
               (case sa_fn pa of
                  Pku_segv_handler \<Rightarrow> pku_segv_handler pf gettid sig si c rt
                | Pku_trap_handler \<Rightarrow> Some (pku_trap_handler pf c rt)
                | User_fn n \<Rightarrow> Some (Inr (rt, c, [CallSigaction n sig]))
                | SIG_DFL \<Rightarrow> Some (Inl BadHandlerCall)
                | SIG_IGN \<Rightarrow> Some (Inl BadHandlerCall))
             else if sa_fn pa = SIG_DFL \<or> sa_fn pa = SIG_IGN then
               Some (Inr (reinstall sig prev rt, c, []))
             else
               (case sa_fn pa of
                  User_fn n \<Rightarrow> Some (Inr (rt, c, [CallHandler n sig]))
                | _ \<Rightarrow> Some (Inl BadHandlerCall))))
     else Some (handle_pkuerr pf gettid si c rt))"

subsection \<open>What one activation does\<close>

lemma recordFault_handle:
  assumes "runtime_inv rt" and "recordFault pf q pk rt = Inr rt1"
  obtains h where "AllocSiteHandle rt1 = Some h" "the_handler rt1 = Inr h" "handler_inv h"
    "AllocHandlerInitFlag rt1" "runtime_inv rt1" "abs_rt rt1 = abs_handler h"
proof -
  have "runtime_inv rt1"
    using recordFault_refines [OF assms(1)] assms(2) by simp
  moreover obtain h where "AllocSiteHandle rt1 = Some h"
    using assms(2) by (auto simp: recordFault_def Let_def and_then_eq_Inr)
  ultimately show ?thesis
    using that runtime_inv_handle by (auto simp: the_handler_def abs_rt_def)
qed

lemma getOrInit_done: "AllocHandlerInitFlag rt \<Longrightarrow> getOrInit pf rt = rt"
  by (simp add: getOrInit_def)

text \<open>The context after the access was enabled for one instruction.\<close>

definition stepping_context :: "platform \<Rightarrow> u32 \<Rightarrow> ucontext \<Rightarrow> ucontext" where
  "stepping_context pf pk c =
    (write_pkru (cpuid pf) (pkru_after_set (read_pkru (cpuid pf) c) pk PKEY_ENABLE_ACCESS) c)
      \<lparr>REG_EFL := REG_EFL c OR TF\<rparr>"

definition saved_info :: "platform \<Rightarrow> u32 \<Rightarrow> ucontext \<Rightarrow> PendingPKeyInfo" where
  "saved_info pf pk c =
    \<lparr>pk_pkey = pk, pk_access_rights = fst (pkey_get (read_pkru (cpuid pf) c) pk)\<rparr>"

lemma handle_pkuerr_single_step:
  assumes "runtime_inv rt" and "\<not> PAGE_MPK pf"
    and "handle_pkuerr pf t si c rt = Inr (rt', c', eff)"
  shows "c' = stepping_context pf (si_pkey si) c \<and> runtime_inv rt' \<and>
    abs_rt rt' = spec_store t (saved_info pf (si_pkey si) c) (spec_fault (si_addr si) (abs_rt rt))"
proof -
  obtain rt1 where rec: "recordFault pf (si_addr si) (si_pkey si) rt = Inr rt1"
    using assms(3) by (auto simp: handle_pkuerr_def and_then_eq_Inr)
  obtain h where h: "AllocSiteHandle rt1 = Some h" "the_handler rt1 = Inr h" "handler_inv h"
    "AllocHandlerInitFlag rt1" "runtime_inv rt1" "abs_rt rt1 = abs_handler h"
    using recordFault_handle [OF assms(1) rec] by blast
  let ?h = "storePendingPKeyInfo t (saved_info pf (si_pkey si) c) h"
  have "rt' = set_handler ?h rt1" and c': "c' = stepping_context pf (si_pkey si) c"
    using assms(2,3) rec h(2,4)
    by (auto simp: handle_pkuerr_def and_then_eq_Inr disable_mpk_def disableThreadMPK_def Let_def
        getOrInit_done stepping_context_def saved_info_def case_prod_unfold)
  then have "runtime_inv rt'" and "abs_rt rt' = spec_store t (saved_info pf (si_pkey si) c) (abs_rt rt1)"
    using h handler_inv_pending(1) [OF h(3)] by (auto simp: abs_rt_def abs_store intro: set_handler_inv)
  moreover have "abs_rt rt1 = spec_fault (si_addr si) (abs_rt rt)"
    using recordFault_refines [OF assms(1), of pf "si_addr si" "si_pkey si" rt1] rec by simp
  ultimately show ?thesis using c' by simp
qed

lemma trap_result:
  assumes "runtime_inv rt" and "pku_trap_handler pf c rt = Inr (rt', c', eff)"
  shows "runtime_inv rt' \<and> abs_rt rt' = spec_take (getpid pf) (abs_rt rt) \<and> eff = [] \<and>
    c' = (let c1 = (case waiting (abs_rt rt) (getpid pf) of
                      None \<Rightarrow> c | Some info \<Rightarrow> enableThreadMPK pf info c)
          in c1\<lparr>REG_EFL := REG_EFL c1 AND NOT TF\<rparr>)"
proof -
  obtain h where h: "the_handler (getOrInit pf rt) = Inr h"
    using getOrInit_handle [OF assms(1)] by blast
  note abs = abs_rt_handler [OF assms(1) h]
  let ?h = "snd (getAndRemove (getpid pf) h)"
  have rt': "rt' = set_handler ?h (getOrInit pf rt)"
    and c': "c' = (let c1 = (case fst (getAndRemove (getpid pf) h) of
                      None \<Rightarrow> c | Some info \<Rightarrow> enableThreadMPK pf info c)
          in c1\<lparr>REG_EFL := REG_EFL c1 AND NOT TF\<rparr>)" and e: "eff = []"
    using assms(2) h by (auto simp: pku_trap_handler_def Let_def case_prod_unfold)
  have "runtime_inv rt'"
    using assms(1) abs(1) unfolding rt'
    by (intro set_handler_inv getOrInit_inv handler_inv_pending) simp_all
  moreover have "abs_rt rt' = spec_take (getpid pf) (abs_rt rt)"
    unfolding rt' abs(2) by (simp add: abs_rt_def abs_getAndRemove)
  ultimately show ?thesis using c' e abs by (simp add: abs_getAndRemove)
qed

lemma trap_total: "runtime_inv rt \<Longrightarrow> \<exists>r. pku_trap_handler pf c rt = Inr r"
  by (erule getOrInit_handle [where pf = pf]) (simp add: pku_trap_handler_def Let_def case_prod_unfold)

text \<open>Enabling the access again after the step undoes the change to the register.\<close>

lemma enable_after_step:
  assumes "valid_key pk"
  shows "enableThreadMPK pf (saved_info pf pk c) (stepping_context pf pk c) = c\<lparr>REG_EFL := REG_EFL c OR TF\<rparr>"
  using pkey_set_restores [OF assms, of 0 "read_pkru (cpuid pf) c"]
  by (simp add: enableThreadMPK_def saved_info_def stepping_context_def case_prod_unfold)

lemma TF_clear_after: "REG_EFL c AND TF = 0 \<Longrightarrow> (REG_EFL c OR TF) AND NOT TF = REG_EFL c"
  by (rule set_then_clear)

subsection \<open>Properties\<close>

lemma handle_pkuerr_total:
  assumes inv: "runtime_inv rt" and ids: "ids_inv (AllocSiteTotal pf) rt"
  shows "\<exists>rt' c' eff. handle_pkuerr pf t si c rt = Inr (rt', c', eff) \<and> ids_inv (AllocSiteTotal pf) rt'"
proof -
  obtain rt1 where rec: "recordFault pf (si_addr si) (si_pkey si) rt = Inr rt1"
    "ids_inv (AllocSiteTotal pf) rt1"
    using step_total [OF inv ids, of "Fault (si_addr si) (si_pkey si)"] by auto
  obtain h where h: "the_handler rt1 = Inr h" "AllocSiteHandle rt1 = Some h" "AllocHandlerInitFlag rt1"
    by (rule recordFault_handle [OF inv rec(1)])
  have "held_sites (storePendingPKeyInfo t i h) = held_sites h" for i
    by (simp add: held_sites_def storePendingPKeyInfo_def)
  then show ?thesis
    using rec h
    by (auto simp: handle_pkuerr_def disable_mpk_def disableThreadMPK_def getOrInit_done Let_def
        case_prod_unfold ids_inv_def)
qed

lemma bit_4095: "bit (4095 :: int) n \<longleftrightarrow> n < 12"
proof -
  have m: "(4095 :: int) = mask 12" by (simp add: mask_eq_exp_minus_1)
  show ?thesis unfolding m bit_mask_iff by auto
qed

lemma uint_page_addr: "uint (page_addr a) = uint a - uint a mod 4096"
proof -
  have "page_addr a = push_bit 12 (drop_bit 12 a)"
    by (rule bit_word_eqI) (auto simp: page_addr_def bit_simps bit_4095)
  then have p: "page_addr a = a div 4096 * 4096"
    by (simp add: push_bit_eq_mult drop_bit_eq_div)
  have "uint a div 4096 * 4096 \<le> uint a" by (simp add: minus_mod_eq_div_mult [symmetric])
  also have "uint a < 2 ^ 64" using uint_lt2p [of a] by simp
  finally have "uint a div 4096 * 4096 mod 2 ^ 64 = uint a div 4096 * 4096"
    by (intro mod_pos_pos_trivial) (simp_all add: pos_imp_zdiv_nonneg_iff)
  then have "uint (page_addr a) = uint a div 4096 * 4096"
    unfolding p by (simp add: uint_word_ariths uint_div_distrib)
  then show ?thesis by (simp add: minus_mod_eq_div_mult)
qed

text \<open>In page mode a protection key fault is recorded, the context of the thread is left alone,
  and key 0 with read and write access is set on the page that contains the address: aligned
  to 4096 and at most 4095 bytes below it.\<close>

lemma page_mode_fault:
  assumes "runtime_inv rt" and "PAGE_MPK pf"
    and "handle_pkuerr pf t si c rt = Inr (rt', c', eff)"
  shows "c' = c \<and> abs_rt rt' = spec_fault (si_addr si) (abs_rt rt) \<and>
    (\<exists>p msg. eff = msg @ [Pkey_mprotect p 4096 3 0] \<and> uint p mod 4096 = 0 \<and>
      uint p \<le> uint (si_addr si) \<and> uint (si_addr si) < uint p + 4096)"
proof -
  obtain rt1 where rec: "recordFault pf (si_addr si) (si_pkey si) rt = Inr rt1"
    using assms(3) by (auto simp: handle_pkuerr_def and_then_eq_Inr)
  have "rt' = rt1 \<and> c' = c \<and> (\<exists>msg. eff = msg @ disablePageMPK si)"
    using assms(2,3) rec by (auto simp: handle_pkuerr_def and_then_eq_Inr disable_mpk_def Let_def)
  moreover have "abs_rt rt1 = spec_fault (si_addr si) (abs_rt rt)"
    using recordFault_refines [OF assms(1), of pf "si_addr si" "si_pkey si" rt1] rec by simp
  moreover have "uint (page_addr (si_addr si)) mod 4096 = 0"
    "uint (page_addr (si_addr si)) \<le> uint (si_addr si)"
    "uint (si_addr si) < uint (page_addr (si_addr si)) + 4096"
    unfolding uint_page_addr by (simp_all add: minus_mod_eq_div_mult)
  ultimately show ?thesis by (auto simp: disablePageMPK_def)
qed

text \<open>The saved action is found through globals that the hooks and faults never touch again.\<close>

lemma rt_step_sigs:
  assumes "runtime_inv rt" and "rt_step pf e rt = Inr rt'"
  shows "rt_sigs rt' = rt_sigs (getOrInit pf rt)" "AllocHandlerInitFlag rt'"
proof -
  obtain h where "the_handler (getOrInit pf rt) = Inr h"
    using getOrInit_handle [OF assms(1)] by blast
  then show "rt_sigs rt' = rt_sigs (getOrInit pf rt)" "AllocHandlerInitFlag rt'"
    using assms(2)
    by (cases e; auto simp: allocHook_def reallocHook_def deallocHook_def recordFault_def and_then_eq_Inr
        Let_def split: if_splits)+
qed

lemma rt_run_done:
  "runtime_inv rt \<Longrightarrow> AllocHandlerInitFlag rt \<Longrightarrow> rt_run pf es rt = Inr rt' \<Longrightarrow> rt_sigs rt' = rt_sigs rt"
proof (induction es arbitrary: rt)
  case Nil
  then show ?case by simp
next
  case (Cons e es)
  then obtain rt1 where "rt_step pf e rt = Inr rt1" "rt_run pf es rt1 = Inr rt'"
    by (auto simp: and_then_eq_Inr)
  with Cons show ?case
    using rt_step_sigs [of rt pf e rt1] step_refines [of rt pf e rt1] by (auto simp: getOrInit_done)
qed

lemma run_sigs:
  assumes "rt_run pf (e # es) (runtime0 d) = Inr rt"
  shows "rt_sigs rt = install_handlers (PAGE_MPK pf) (rt_sigs (runtime0 d))"
proof -
  obtain rt1 where "rt_step pf e (runtime0 d) = Inr rt1" "rt_run pf es rt1 = Inr rt"
    using assms by (auto simp: and_then_eq_Inr)
  then have "rt_sigs rt = rt_sigs (getOrInit pf (runtime0 d))"
    using rt_step_sigs [OF runtime_inv0, of pf e d rt1] step_refines [OF runtime_inv0, of pf e d rt1]
      rt_run_done [of rt1 pf es rt] by simp
  then show ?thesis
    by (simp add: getOrInit_def runtime0_def AllocSiteHandler_init_def
        provsan_untrusted_constructor_def Let_def)
qed

lemma run_prev_sa:
  assumes "rt_run pf (e # es) (runtime0 d) = Inr rt"
  shows "prevAction (rt_sigs rt) = Some Constructor_sa_old"
    "sa_mem (rt_sigs rt) Constructor_sa_old = d SIGSEGV"
    "disposition (rt_sigs rt) SIGSEGV = siginfo_sa Pku_segv_handler" "segv_action_ok (rt_sigs rt)"
proof -
  have "segv_action_ok (rt_sigs (runtime0 d))" by (simp add: segv_action_ok_def runtime0_def)
  then show "prevAction (rt_sigs rt) = Some Constructor_sa_old"
    "sa_mem (rt_sigs rt) Constructor_sa_old = d SIGSEGV"
    "disposition (rt_sigs rt) SIGSEGV = siginfo_sa Pku_segv_handler" "segv_action_ok (rt_sigs rt)"
    using install_handlers_effect [of "PAGE_MPK pf" "rt_sigs (runtime0 d)"]
    unfolding run_sigs [OF assms]
    by (simp_all add: install_handlers_ok install_handlers_prev prev_sa_def) (simp_all add: runtime0_def)
qed


abbreviation self_forwarding :: "siginfo \<Rightarrow> runtime \<Rightarrow> bool" where
  "self_forwarding si rt \<equiv>
    si_code si \<noteq> SEGV_PKUERR \<and> prev_sa (rt_sigs rt) = Some (siginfo_sa Pku_segv_handler)"

lemma segv_self_never_returns:
  assumes "pku_segv_handler pf t sig si c rt = Some y"
  shows "\<not> self_forwarding si rt"
proof (rule pku_segv_handler.raw_induct
    [of "\<lambda>_ _ _ si _ rt _. \<not> self_forwarding si rt", rotated, OF assms], goal_cases)
  case (1 handler pf gettid sig si c rt y)
  from 1(1) [of pf gettid sig si c rt y] 1(2) show ?case
    by (auto simp: prev_sa_def siginfo_sa_def Let_def)
qed

text \<open>C29: Once the constructor has run, a call of \<open>provsan_SEGV_fault_handler\<close> while the sanitizer's
  handler is still in place makes it the action to forward to: from then on the handler of a
  SIGSEGV that is not a protection key fault calls itself and never returns.\<close>

theorem second_install_loops:
  assumes "rt_run pf (e # es) (runtime0 d) = Inr rt" and "si_code si \<noteq> SEGV_PKUERR"
    and "oldact \<notin> {Some Fault_handler_sa, Some Constructor_sa}"
  shows "pku_segv_handler pf t sig si c
      (rt\<lparr>rt_sigs := provsan_SEGV_fault_handler oldact (rt_sigs rt)\<rparr>) = None"
proof -
  note sa = run_prev_sa [OF assms(1)]
  have "prev_sa (provsan_SEGV_fault_handler oldact (rt_sigs rt)) = Some (siginfo_sa Pku_segv_handler)"
    using fault_handler_effect(2) [OF sa(4) assms(3)] sa(1,3) by simp
  then have loop: "self_forwarding si (rt\<lparr>rt_sigs := provsan_SEGV_fault_handler oldact (rt_sigs rt)\<rparr>)"
    using assms(2) by simp
  show ?thesis
  proof (rule ccontr)
    assume "\<not> ?thesis"
    then show False using segv_self_never_returns loop by blast
  qed
qed

text \<open>A program whose SIGSEGV handler is its own.\<close>

abbreviation own_handlers :: "signal \<Rightarrow> sigact" where
  "own_handlers \<equiv> (\<lambda>_. siginfo_sa (User_fn 1))"

lemma own_handlers_run: "\<exists>rt. rt_run demo_pf [Dealloc 0x1000 16 0] (runtime0 own_handlers) = Inr rt"
  by (rule run_total [OF runtime_inv0 ids_inv0]) simp


theorem second_install_loops_witness:
  "\<exists>rt. rt_run demo_pf [Dealloc 0x1000 16 0] (runtime0 own_handlers) = Inr rt \<and>
    pku_segv_handler demo_pf 100 SIGSEGV \<lparr>si_code = 1, si_addr = 0, si_pkey = 0\<rparr> \<lparr>fpregs = (\<lambda>_. 0), REG_EFL = 2\<rparr>
      (rt\<lparr>rt_sigs := provsan_SEGV_fault_handler None (rt_sigs rt)\<rparr>) = None"
proof -
  obtain rt where run: "rt_run demo_pf [Dealloc 0x1000 16 0] (runtime0 own_handlers) = Inr rt"
    using own_handlers_run by blast
  from second_install_loops [OF run, of "\<lparr>si_code = 1, si_addr = 0, si_pkey = 0\<rparr>" None] run
  show ?thesis by simp
qed

lemma offset_without_component: "fst (cp 0xd 9) = 0 \<Longrightarrow> pkru_ptr cp = 0"
  by (simp add: pkru_ptr_def pkru_xstate_offset_def case_prod_unfold)

text \<open>C31: Where \<open>cpuid\<close> reports no PKRU component, the handlers take the first four bytes of the
  floating point save area for the register, in single step mode. The handler of a key fault of the
  main thread, with no key waiting, clears the two bits of the key there, which changes the area when they are not both clear already, and the trap of the main thread
  puts back the two bits that were there at the fault, over what the instruction left in them. All other
  bytes stay as they are.\<close>

theorem pkru_write_without_component:
  assumes "fst (cpuid pf 0xd 9) = 0" and "\<not> PAGE_MPK pf" and "runtime_inv rt"
    and "waiting (abs_rt rt) (getpid pf) = None" and "si_code si = SEGV_PKUERR"
    and "pku_segv_handler pf (getpid pf) sig si c rt = Some (Inr (rt1, c1, eff))"
    and "pku_trap_handler pf c2 rt1 = Inr (rt2, c3, eff')"
  shows "load_u32 (fpregs c1) 0 = pkru_after_set (load_u32 (fpregs c) 0) (si_pkey si) PKEY_ENABLE_ACCESS \<and>
    load_u32 (fpregs c3) 0 =
      pkru_after_set (load_u32 (fpregs c2) 0) (si_pkey si) (fst (pkey_get (load_u32 (fpregs c) 0) (si_pkey si))) \<and>
    (valid_key (si_pkey si) \<longrightarrow> fst (pkey_get (load_u32 (fpregs c) 0) (si_pkey si)) \<noteq> PKEY_ENABLE_ACCESS \<longrightarrow>
      fpregs c1 \<noteq> fpregs c) \<and>
    (\<forall>i. i \<notin> {0..<4} \<longrightarrow> fpregs c1 i = fpregs c i \<and> fpregs c3 i = fpregs c2 i)"
proof -
  note off = offset_without_component [of "cpuid pf", OF assms(1)]
  have "handle_pkuerr pf (getpid pf) si c rt = Inr (rt1, c1, eff)"
    using assms(5,6) by (simp add: pku_segv_handler.simps)
  note fault = handle_pkuerr_single_step [OF assms(3,2) this]
  have "waiting (spec_fault (si_addr si) (abs_rt rt)) = waiting (abs_rt rt)"
    by (simp add: spec_fault_def split: option.split)
  then have "waiting (abs_rt rt1) (getpid pf) = Some (saved_info pf (si_pkey si) c)"
    using fault assms(4) by (simp add: spec_store_def)
  then have c3: "fpregs c3 = fpregs (enableThreadMPK pf (saved_info pf (si_pkey si) c) c2)"
    using trap_result [OF _ assms(7)] fault by (simp add: Let_def)
  have areas: "fpregs c1 = store_u32 0 (pkru_after_set (load_u32 (fpregs c) 0) (si_pkey si) PKEY_ENABLE_ACCESS) (fpregs c)"
    "fpregs c3 = store_u32 0 (pkru_after_set (load_u32 (fpregs c2) 0) (si_pkey si)
      (fst (pkey_get (load_u32 (fpregs c) 0) (si_pkey si)))) (fpregs c2)"
    using fault c3 by (simp_all add: stepping_context_def enableThreadMPK_def saved_info_def write_pkru_def read_pkru_def
        off case_prod_unfold)
  have "fpregs c1 \<noteq> fpregs c" if "valid_key (si_pkey si)"
    and "fst (pkey_get (load_u32 (fpregs c) 0) (si_pkey si)) \<noteq> PKEY_ENABLE_ACCESS"
  proof
    assume "fpregs c1 = fpregs c"
    then have "load_u32 (fpregs c) 0 = pkru_after_set (load_u32 (fpregs c) 0) (si_pkey si) PKEY_ENABLE_ACCESS"
      using areas(1) load_store_u32 [of 0] by metis
    then show False using that pkey_get_after_set [of "si_pkey si" PKEY_ENABLE_ACCESS "load_u32 (fpregs c) 0"] by simp
  qed
  then show ?thesis using store_u32_other unfolding areas by (auto simp: not_less)
qed

theorem pkru_write_without_component_witness:
  "\<exists>rt1 c1 rt2 c3 eff. pku_segv_handler (demo_pf\<lparr>cpuid := \<lambda>_ _. (0, 0, 0, 0)\<rparr>) 100 SIGSEGV \<lparr>si_code = 4, si_addr = 0x1008, si_pkey = 1\<rparr>
      \<lparr>fpregs = (\<lambda>_. 0x7F), REG_EFL = 0\<rparr> demo_rt = Some (Inr (rt1, c1, eff)) \<and> load_u32 (fpregs c1) 0 = 0x7F7F7F73 \<and>
    pku_trap_handler (demo_pf\<lparr>cpuid := \<lambda>_ _. (0, 0, 0, 0)\<rparr>) \<lparr>fpregs = (\<lambda>_. 0), REG_EFL = TF\<rparr> rt1 = Inr (rt2, c3, []) \<and>
    load_u32 (fpregs c3) 0 = 0xC"
proof -
  let ?pf = "demo_pf\<lparr>cpuid := \<lambda>_ _. (0, 0, 0, 0)\<rparr>" and ?si = "\<lparr>si_code = 4, si_addr = 0x1008, si_pkey = 1\<rparr>"
  let ?c = "\<lparr>fpregs = (\<lambda>_. 0x7F), REG_EFL = 0\<rparr> :: ucontext" and ?c2 = "\<lparr>fpregs = (\<lambda>_. 0), REG_EFL = TF\<rparr> :: ucontext"
  have area: "load_u32 (\<lambda>_. 0x7F) 0 = 0x7F7F7F7F" "load_u32 (\<lambda>_. 0) 0 = 0"
    by (simp_all add: load_u32_def)
  have pf: "fst (cpuid ?pf 0xd 9) = 0" "\<not> PAGE_MPK ?pf" "getpid ?pf = 100" by (simp_all add: demo_pf_def)
  have none: "waiting (abs_rt demo_rt) (getpid ?pf) = None" by (simp add: demo_rt_def spec0_def)
  obtain rt1 c1 eff where fault: "handle_pkuerr ?pf 100 ?si ?c demo_rt = Inr (rt1, c1, eff)"
    using handle_pkuerr_total [OF demo_inv] by blast
  have "runtime_inv rt1" using handle_pkuerr_single_step [OF demo_inv(1) pf(2) fault] by blast
  then obtain rt2 c3 eff' where trap: "pku_trap_handler ?pf ?c2 rt1 = Inr (rt2, c3, eff')"
    using trap_total by (metis prod_cases3)
  have handler: "pku_segv_handler ?pf (getpid ?pf) SIGSEGV ?si ?c demo_rt = Some (Inr (rt1, c1, eff))"
    using fault pf(3) by (simp add: pku_segv_handler.simps)
  have "si_code ?si = SEGV_PKUERR" by simp
  note result = pkru_write_without_component [OF pf(1,2) demo_inv(1) none this handler trap]
  have "eff' = []" using trap_result [OF \<open>runtime_inv rt1\<close> trap] by simp
  then show ?thesis
    using handler trap result area pf(3) by (intro exI [of _ rt1] exI [of _ c1] exI [of _ rt2] exI [of _ c3] exI [of _ eff])
      (simp add: pkey_set_def pkey_get_def)
qed

end
