(* ===== verification/Single_Step.thy ===== *)
theory Single_Step
  imports Fault_Handler
begin

section \<open>Single stepping as a state machine\<close>

text \<open>
  Threads of one process share the runtime; each has its own signal context. A protection key
  fault runs \<open>pku_segv_handler\<close> on the thread's context, the step trap that the processor raises
  after the next instruction runs \<open>pku_trap_handler\<close>, and between faults a thread may set its
  PKRU itself (the gates between the compartments). The ghost \<open>mc_intent\<close> is the register value
  each thread last chose. \<open>disciplined\<close> singles out the runs in which only the main thread faults,
  and faults once per instruction.
\<close>

record machine =
  mc_rt :: runtime
  mc_ctx :: "thread_id \<Rightarrow> ucontext"
  mc_intent :: "thread_id \<Rightarrow> u32"

datatype label =
    LHook rt_event
  | LFault thread_id siginfo
  | LTrap thread_id
  | LWrpkru thread_id u32

fun is_fault :: "rt_event \<Rightarrow> bool" where
  "is_fault (Fault q pk) = True"
| "is_fault e = False"

abbreviation stepping :: "ucontext \<Rightarrow> bool" where
  "stepping c \<equiv> REG_EFL c AND TF \<noteq> 0"

abbreviation pkru_of :: "platform \<Rightarrow> machine \<Rightarrow> thread_id \<Rightarrow> u32" where
  "pkru_of pf m t \<equiv> read_pkru (cpuid pf) (mc_ctx m t)"

inductive mstep :: "platform \<Rightarrow> label \<Rightarrow> machine \<Rightarrow> machine \<Rightarrow> bool" for pf where
  hook: "\<not> is_fault e \<Longrightarrow> rt_step pf e (mc_rt m) = Inr rt' \<Longrightarrow>
    mstep pf (LHook e) m (m\<lparr>mc_rt := rt'\<rparr>)"
| fault: "si_code si = SEGV_PKUERR \<Longrightarrow> valid_key (si_pkey si) \<Longrightarrow>
    fst (pkey_get (pkru_of pf m t) (si_pkey si)) \<noteq> 0 \<Longrightarrow>
    pku_segv_handler pf t SIGSEGV si (mc_ctx m t) (mc_rt m) = Some (Inr (rt', c', eff)) \<Longrightarrow>
    mstep pf (LFault t si) m (m\<lparr>mc_rt := rt', mc_ctx := (mc_ctx m)(t := c')\<rparr>)"
| trap: "stepping (mc_ctx m t) \<Longrightarrow> pku_trap_handler pf (mc_ctx m t) (mc_rt m) = Inr (rt', c', eff) \<Longrightarrow>
    mstep pf (LTrap t) m (m\<lparr>mc_rt := rt', mc_ctx := (mc_ctx m)(t := c')\<rparr>)"
| wrpkru: "\<not> stepping (mc_ctx m t) \<Longrightarrow>
    mstep pf (LWrpkru t w) m
      (m\<lparr>mc_ctx := (mc_ctx m)(t := write_pkru (cpuid pf) w (mc_ctx m t)),
         mc_intent := (mc_intent m)(t := w)\<rparr>)"

inductive_cases hook_stepE: "mstep pf (LHook e) m m'"
inductive_cases fault_stepE: "mstep pf (LFault t si) m m'"
inductive_cases trap_stepE: "mstep pf (LTrap t) m m'"
inductive_cases wrpkru_stepE: "mstep pf (LWrpkru t w) m m'"

inductive_simps wrpkru_step_iff: "mstep pf (LWrpkru t w) m m'"

fun disciplined :: "platform \<Rightarrow> label \<Rightarrow> machine \<Rightarrow> bool" where
  "disciplined pf (LFault t si) m = (t = getpid pf \<and> \<not> stepping (mc_ctx m t))"
| "disciplined pf l m = True"

definition started :: "platform \<Rightarrow> machine \<Rightarrow> bool" where
  "started pf m \<longleftrightarrow> runtime_inv (mc_rt m) \<and> waiting (abs_rt (mc_rt m)) (getpid pf) = None \<and>
    (\<forall>t. \<not> stepping (mc_ctx m t) \<and> pkru_of pf m t = mc_intent m t)"

inductive mreach :: "platform \<Rightarrow> machine \<Rightarrow> bool" for pf where
  init: "started pf m \<Longrightarrow> mreach pf m"
| step: "mreach pf m \<Longrightarrow> disciplined pf l m \<Longrightarrow> mstep pf l m m' \<Longrightarrow> mreach pf m'"

subsection \<open>The invariant of disciplined runs\<close>

text \<open>A key opened for one instruction, with the rights to restore.\<close>

definition opened :: "u32 \<Rightarrow> u32 \<Rightarrow> PendingPKeyInfo \<Rightarrow> bool" where
  "opened pkru intent info \<longleftrightarrow>
    valid_key (pk_pkey info) \<and> pk_access_rights info = fst (pkey_get intent (pk_pkey info)) \<and>
    pkru = pkru_after_set intent (pk_pkey info) PKEY_ENABLE_ACCESS"

definition machine_inv :: "platform \<Rightarrow> machine \<Rightarrow> bool" where
  "machine_inv pf m \<longleftrightarrow> runtime_inv (mc_rt m) \<and>
    (\<forall>t. t \<noteq> getpid pf \<longrightarrow> \<not> stepping (mc_ctx m t) \<and> pkru_of pf m t = mc_intent m t) \<and>
    (let t = getpid pf in
     case waiting (abs_rt (mc_rt m)) t of
       None \<Rightarrow> \<not> stepping (mc_ctx m t) \<and> pkru_of pf m t = mc_intent m t
     | Some info \<Rightarrow> stepping (mc_ctx m t) \<and> opened (pkru_of pf m t) (mc_intent m t) info)"

lemma segv_pkuerr:
  "si_code si = SEGV_PKUERR \<Longrightarrow> pku_segv_handler pf t sig si c rt = Some (handle_pkuerr pf t si c rt)"
  by (simp add: pku_segv_handler.simps)

lemma waiting_steps [simp]:
  "waiting (spec_insert p s a) = waiting a" "waiting (spec_remove p a) = waiting a"
  "waiting (spec_chain k k' a) = waiting a" "waiting (spec_fault q a) = waiting a"
  by (auto simp: spec_insert_def spec_remove_def spec_chain_def spec_fault_def split: option.splits)

lemma waiting_spec_step [simp]: "waiting (spec_step e a) = waiting a"
  by (cases e) (auto split: option.splits)

lemma stepping_context_TF: "stepping (stepping_context pf pk c)"
proof -
  have "(REG_EFL c OR TF) AND TF = TF" by (simp add: bit_eq_iff bit_simps)
  then show ?thesis by (simp add: stepping_context_def)
qed

lemma stepping_context_pkru:
  "read_pkru (cpuid pf) (stepping_context pf pk c) =
    pkru_after_set (read_pkru (cpuid pf) c) pk PKEY_ENABLE_ACCESS"
  by (simp add: stepping_context_def)

lemma opened_saved:
  "valid_key pk \<Longrightarrow> opened (pkru_after_set w pk 0) w \<lparr>pk_pkey = pk, pk_access_rights = fst (pkey_get w pk)\<rparr>"
  by (simp add: opened_def)

lemma opened_restored:
  assumes "opened (read_pkru (cpuid pf) c) w info"
  shows "read_pkru (cpuid pf) (enableThreadMPK pf info c) = w"
  using assms pkey_set_restores [of "pk_pkey info" 0 w]
  by (simp add: opened_def enableThreadMPK_def case_prod_unfold)

lemma clear_TF: "(x AND NOT TF) AND TF = (0 :: 64 word)"
  by (simp add: and.assoc)

lemma machine_inv_started: "started pf m \<Longrightarrow> machine_inv pf m"
  by (simp add: started_def machine_inv_def)

lemma machine_inv_step:
  assumes single: "\<not> PAGE_MPK pf" and inv: "machine_inv pf m"
    and ok: "disciplined pf l m" and st: "mstep pf l m m'"
  shows "machine_inv pf m'"
proof (cases l)
  case (LHook e)
  with st obtain rt' where "rt_step pf e (mc_rt m) = Inr rt'" "m' = m\<lparr>mc_rt := rt'\<rparr>"
    by (auto elim: hook_stepE)
  then show ?thesis
    using inv step_refines [of "mc_rt m" pf e rt']
    by (auto simp: machine_inv_def Let_def split: option.splits)
next
  case (LFault t si)
  with st obtain rt' c' eff where pk: "valid_key (si_pkey si)"
    and h: "handle_pkuerr pf t si (mc_ctx m t) (mc_rt m) = Inr (rt', c', eff)"
    and m': "m' = m\<lparr>mc_rt := rt', mc_ctx := (mc_ctx m)(t := c')\<rparr>"
    by (auto elim!: fault_stepE simp: segv_pkuerr)
  have t: "t = getpid pf" "\<not> stepping (mc_ctx m t)" using ok LFault by auto
  have free: "waiting (abs_rt (mc_rt m)) t = None" "pkru_of pf m t = mc_intent m t"
    using inv t by (auto simp: machine_inv_def Let_def split: option.splits)
  have "runtime_inv (mc_rt m)" using inv by (simp add: machine_inv_def)
  note res = handle_pkuerr_single_step [OF this single h]
  show ?thesis
    using inv t pk free res stepping_context_TF
    by (simp add: machine_inv_def m' spec_store_def saved_info_def stepping_context_pkru opened_saved)
next
  case (LTrap t)
  with st obtain rt' c' eff where s: "stepping (mc_ctx m t)"
    and h: "pku_trap_handler pf (mc_ctx m t) (mc_rt m) = Inr (rt', c', eff)"
    and m': "m' = m\<lparr>mc_rt := rt', mc_ctx := (mc_ctx m)(t := c')\<rparr>"
    by (auto elim!: trap_stepE)
  have t: "t = getpid pf" using inv s by (auto simp: machine_inv_def)
  obtain info where w: "waiting (abs_rt (mc_rt m)) t = Some info"
      "opened (pkru_of pf m t) (mc_intent m t) info"
    using inv s t by (auto simp: machine_inv_def Let_def split: option.splits)
  have "runtime_inv (mc_rt m)" using inv by (simp add: machine_inv_def)
  note res = trap_result [OF this h]
  show ?thesis
    using inv t w res opened_restored [OF w(2)] clear_TF
    by (simp add: machine_inv_def m' spec_take_def Let_def)
next
  case (LWrpkru t w)
  with st have "\<not> stepping (mc_ctx m t)"
    and m': "m' = m\<lparr>mc_ctx := (mc_ctx m)(t := write_pkru (cpuid pf) w (mc_ctx m t)),
                    mc_intent := (mc_intent m)(t := w)\<rparr>"
    by (auto simp: wrpkru_step_iff)
  then show ?thesis
    using inv by (cases "t = getpid pf") (auto simp: machine_inv_def Let_def split: option.splits)
qed

lemma mreach_inv: "mreach pf m \<Longrightarrow> \<not> PAGE_MPK pf \<Longrightarrow> machine_inv pf m"
proof (induction rule: mreach.induct)
  case (init m)
  then show ?case by (simp add: machine_inv_started)
next
  case (step m l m')
  then show ?case by (blast intro: machine_inv_step)
qed

subsection \<open>A sample machine\<close>

text \<open>
  Every thread has no access to the keys 1 and 2 and full access to the others; the main thread
  then faults on key 1, and the step trap follows.
\<close>

definition demo_context :: ucontext where
  "demo_context = write_pkru (cpuid demo_pf) 0x3C \<lparr>fpregs = (\<lambda>_. 0), REG_EFL = 0x202\<rparr>"

definition demo_machine :: machine where
  "demo_machine = \<lparr>mc_rt = demo_rt, mc_ctx = (\<lambda>_. demo_context), mc_intent = (\<lambda>_. 0x3C)\<rparr>"

definition demo_si :: siginfo where
  "demo_si = \<lparr>si_code = 4, si_addr = 0x1008, si_pkey = 1\<rparr>"

lemma demo_started: "started demo_pf demo_machine"
  by (simp add: started_def demo_machine_def demo_inv demo_rt_def runtime_inv0 spec0_def demo_context_def)

lemma demo_machine_fields:
  "mc_rt demo_machine = demo_rt" "\<not> stepping (mc_ctx demo_machine t)"
  "pkru_of demo_pf demo_machine t = 0x3C" "mc_intent demo_machine t = 0x3C"
  by (simp_all add: demo_machine_def demo_context_def)

lemma demo_fault_from:
  assumes "runtime_inv (mc_rt m)" and "ids_inv 0 (mc_rt m)"
    and "valid_key k" and "fst (pkey_get (pkru_of demo_pf m t) k) \<noteq> 0"
  obtains m' where "mstep demo_pf (LFault t \<lparr>si_code = 4, si_addr = 0x1008, si_pkey = k\<rparr>) m m'"
    "stepping (mc_ctx m' t)" "ids_inv 0 (mc_rt m')"
proof -
  let ?si = "\<lparr>si_code = 4, si_addr = 0x1008, si_pkey = k\<rparr>"
  have n: "AllocSiteTotal demo_pf = 0" by (simp add: demo_pf_def)
  obtain rt' c' eff where h: "handle_pkuerr demo_pf t ?si (mc_ctx m t) (mc_rt m) = Inr (rt', c', eff)"
    "ids_inv 0 rt'"
    using handle_pkuerr_total [of "mc_rt m" demo_pf t ?si "mc_ctx m t", unfolded n, OF assms(1,2)] by blast
  have "stepping c'"
    using handle_pkuerr_single_step [OF assms(1) _ h(1)] stepping_context_TF by (simp add: demo_pf_def)
  moreover have "mstep demo_pf (LFault t ?si) m (m\<lparr>mc_rt := rt', mc_ctx := (mc_ctx m)(t := c')\<rparr>)"
    using assms(3,4) h(1) by (intro mstep.fault) (simp_all add: segv_pkuerr)
  ultimately show ?thesis using that h(2) by simp
qed

lemma demo_fault:
  obtains m where "mstep demo_pf (LFault t demo_si) demo_machine m" "stepping (mc_ctx m t)"
    "ids_inv 0 (mc_rt m)"
  by (rule demo_fault_from [of demo_machine 1 t])
     (simp_all add: demo_machine_fields demo_inv pkey_get_def demo_si_def)

lemma step_trap_enabled:
  assumes "runtime_inv (mc_rt m)" and "stepping (mc_ctx m t)"
  obtains m' where "mstep pf (LTrap t) m m'"
  using trap_total [OF assms(1), of pf "mc_ctx m t"] assms(2) mstep.trap by (metis prod.exhaust)

lemma fault_runtime_inv:
  assumes "mstep pf (LFault t si) m m'" and "\<not> PAGE_MPK pf" and "runtime_inv (mc_rt m)"
  shows "runtime_inv (mc_rt m')"
    "mc_ctx m' = (mc_ctx m)(t := stepping_context pf (si_pkey si) (mc_ctx m t))"
    "abs_rt (mc_rt m') = spec_store t (saved_info pf (si_pkey si) (mc_ctx m t))
      (spec_fault (si_addr si) (abs_rt (mc_rt m)))" "mc_intent m' = mc_intent m"
    "valid_key (si_pkey si)"
proof -
  obtain rt' c' eff where "handle_pkuerr pf t si (mc_ctx m t) (mc_rt m) = Inr (rt', c', eff)"
    "m' = m\<lparr>mc_rt := rt', mc_ctx := (mc_ctx m)(t := c')\<rparr>" "valid_key (si_pkey si)"
    using assms(1) by (auto elim!: fault_stepE simp: segv_pkuerr)
  then show "runtime_inv (mc_rt m')"
    "mc_ctx m' = (mc_ctx m)(t := stepping_context pf (si_pkey si) (mc_ctx m t))"
    "abs_rt (mc_rt m') = spec_store t (saved_info pf (si_pkey si) (mc_ctx m t))
      (spec_fault (si_addr si) (abs_rt (mc_rt m)))" "mc_intent m' = mc_intent m"
    "valid_key (si_pkey si)"
    using handle_pkuerr_single_step [OF assms(3,2)] by auto
qed

lemma trap_effect:
  assumes "mstep pf (LTrap t) m m'" and "runtime_inv (mc_rt m)"
  shows "abs_rt (mc_rt m') = spec_take (getpid pf) (abs_rt (mc_rt m))" "mc_intent m' = mc_intent m"
    "\<not> stepping (mc_ctx m' t)"
    "mc_ctx m' = (mc_ctx m)(t :=
      (let c1 = (case waiting (abs_rt (mc_rt m)) (getpid pf) of
                   None \<Rightarrow> mc_ctx m t | Some info \<Rightarrow> enableThreadMPK pf info (mc_ctx m t))
       in c1\<lparr>REG_EFL := REG_EFL c1 AND NOT TF\<rparr>))"
proof -
  obtain rt' c' eff where h: "pku_trap_handler pf (mc_ctx m t) (mc_rt m) = Inr (rt', c', eff)"
    and m': "m' = m\<lparr>mc_rt := rt', mc_ctx := (mc_ctx m)(t := c')\<rparr>"
    using assms(1) by (auto elim!: trap_stepE)
  show "abs_rt (mc_rt m') = spec_take (getpid pf) (abs_rt (mc_rt m))" "mc_intent m' = mc_intent m"
    "\<not> stepping (mc_ctx m' t)"
    "mc_ctx m' = (mc_ctx m)(t :=
      (let c1 = (case waiting (abs_rt (mc_rt m)) (getpid pf) of
                   None \<Rightarrow> mc_ctx m t | Some info \<Rightarrow> enableThreadMPK pf info (mc_ctx m t))
       in c1\<lparr>REG_EFL := REG_EFL c1 AND NOT TF\<rparr>))"
    using trap_result [OF assms(2) h] clear_TF by (simp_all add: m' Let_def)
qed

subsection \<open>Properties\<close>

text \<open>C15: In single step mode, in every state that is reached while only the main thread faults, and once per
  instruction, each thread's PKRU is the value the thread chose itself, except that the main
  thread, while it is single stepping, has full access to one more key.\<close>

theorem access_opened_only_for_step:
  assumes "mreach pf m" and "\<not> PAGE_MPK pf" and "pkru_of pf m t \<noteq> mc_intent m t"
  shows "t = getpid pf \<and> stepping (mc_ctx m t) \<and>
    (\<exists>k. valid_key k \<and> pkey_get (pkru_of pf m t) k = (0, None) \<and>
      (\<forall>k'. valid_key k' \<longrightarrow> k' \<noteq> k \<longrightarrow> pkey_get (pkru_of pf m t) k' = pkey_get (mc_intent m t) k'))"
proof -
  have inv: "machine_inv pf m" using mreach_inv [OF assms(1,2)] .
  have t: "t = getpid pf" using inv assms(3) by (auto simp: machine_inv_def)
  with inv assms(3) obtain info where s: "stepping (mc_ctx m t)"
    "opened (pkru_of pf m t) (mc_intent m t) info"
    by (auto simp: machine_inv_def Let_def split: option.splits)
  have "pkey_get (pkru_of pf m t) (pk_pkey info) = (0, None)"
    using s(2) pkey_get_after_set [of "pk_pkey info" 0 "mc_intent m t"]
    by (simp add: opened_def prod_eq_iff) (simp add: pkey_get_def)
  with s t show ?thesis by (auto simp: opened_def pkey_get_after_set_other)
qed

theorem access_opened_only_for_step_witness:
  "\<exists>m. mreach demo_pf m \<and> pkru_of demo_pf m 100 \<noteq> mc_intent m 100 \<and> stepping (mc_ctx m 100)"
proof -
  obtain m where m: "mstep demo_pf (LFault 100 demo_si) demo_machine m"
    by (rule demo_fault)
  have reach: "mreach demo_pf m"
    by (rule mreach.step [OF mreach.init [OF demo_started] _ m]) (simp add: demo_machine_fields demo_pf_def)
  have eff: "mc_ctx m 100 = stepping_context demo_pf 1 demo_context" "mc_intent m 100 = 0x3C"
    using fault_runtime_inv [OF m] demo_inv(1) by (simp_all add: demo_pf_def demo_machine_def demo_si_def)
  have "pkru_of demo_pf m 100 \<noteq> mc_intent m 100"
    by (simp add: eff stepping_context_pkru demo_context_def pkey_set_def)
  then show ?thesis
    using access_opened_only_for_step [OF reach, of 100] reach by (auto simp: demo_pf_def)
qed

text \<open>C17: In single step mode, and in a state that is reached while only the main thread faults, and once
  per instruction, a step trap can only be the main thread's, and it ends the step: the PKRU is the value
  the thread chose itself, the trap flag is clear, and no key is left waiting. What happens to other
  threads, and after a second fault of one instruction, is stated further down.\<close>

theorem trap_restores_intent:
  assumes "mreach pf m" and "\<not> PAGE_MPK pf" and "mstep pf (LTrap t) m m'"
  shows "t = getpid pf \<and> pkru_of pf m' t = mc_intent m t \<and> \<not> stepping (mc_ctx m' t) \<and>
    waiting (abs_rt (mc_rt m')) t = None"
proof -
  have inv: "machine_inv pf m" using mreach_inv [OF assms(1,2)] .
  have s: "stepping (mc_ctx m t)" using assms(3) by (auto elim: trap_stepE)
  then have t: "t = getpid pf" using inv by (auto simp: machine_inv_def)
  have "machine_inv pf m'"
    by (rule machine_inv_step [OF assms(2) inv _ assms(3)]) simp
  moreover have eff: "mc_intent m' = mc_intent m" "\<not> stepping (mc_ctx m' t)"
    "waiting (abs_rt (mc_rt m')) t = None"
    using trap_effect [OF assms(3)] inv t by (simp_all add: machine_inv_def spec_take_def)
  ultimately show ?thesis using t by (simp add: machine_inv_def Let_def)
qed

theorem trap_restores_intent_witness:
  "\<exists>m m'. mreach demo_pf m \<and> mstep demo_pf (LTrap 100) m m' \<and> pkru_of demo_pf m' 100 = 0x3C"
proof -
  obtain m where m: "mstep demo_pf (LFault 100 demo_si) demo_machine m" "stepping (mc_ctx m 100)"
    by (rule demo_fault)
  have reach: "mreach demo_pf m"
    by (rule mreach.step [OF mreach.init [OF demo_started] _ m(1)]) (simp add: demo_machine_fields demo_pf_def)
  have inv: "runtime_inv (mc_rt m)" "mc_intent m 100 = 0x3C"
    using fault_runtime_inv [OF m(1)] demo_inv(1) by (simp_all add: demo_pf_def demo_machine_def)
  obtain m' where m': "mstep demo_pf (LTrap 100) m m'"
    by (rule step_trap_enabled [OF inv(1) m(2)])
  show ?thesis
    using trap_restores_intent [OF reach _ m'] reach m' inv(2) by (auto simp: demo_pf_def)
qed

text \<open>C16: A protection key fault of the main thread followed by its step trap gives the thread its
  context back as it was, byte for byte, and leaves no trace in the runtime but the report.\<close>

theorem fault_and_trap_round_trip:
  assumes "runtime_inv (mc_rt m)" and "\<not> PAGE_MPK pf" and "\<not> stepping (mc_ctx m (getpid pf))"
    and "waiting (abs_rt (mc_rt m)) (getpid pf) = None"
    and "mstep pf (LFault (getpid pf) si) m m1" and "mstep pf (LTrap (getpid pf)) m1 m2"
  shows "mc_ctx m2 = mc_ctx m \<and> mc_intent m2 = mc_intent m \<and>
    abs_rt (mc_rt m2) = spec_fault (si_addr si) (abs_rt (mc_rt m))"
proof -
  let ?t = "getpid pf" and ?c = "mc_ctx m (getpid pf)"
  note f = fault_runtime_inv [OF assms(5,2,1)]
  note tr = trap_effect [OF assms(6) f(1)]
  have w: "waiting (abs_rt (mc_rt m1)) ?t = Some (saved_info pf (si_pkey si) ?c)"
    using assms(4) by (simp add: f(3) spec_store_def)
  have "mc_ctx m2 = (mc_ctx m)(?t := ?c\<lparr>REG_EFL := (REG_EFL ?c OR TF) AND NOT TF\<rparr>)"
    using w f(2) by (simp add: tr(4) Let_def enable_after_step [OF f(5)])
  then have ctx: "mc_ctx m2 = mc_ctx m"
    using TF_clear_after [of ?c] assms(3) by simp
  have "abs_rt (mc_rt m2) = spec_fault (si_addr si) (abs_rt (mc_rt m))"
    using assms(4) by (simp add: tr(1) f(3) spec_take_def spec_store_def fun_upd_idem)
  then show ?thesis using ctx tr(2) f(4) by simp
qed

theorem fault_and_trap_round_trip_witness:
  "\<exists>m1 m2. mstep demo_pf (LFault 100 demo_si) demo_machine m1 \<and> mstep demo_pf (LTrap 100) m1 m2 \<and>
    mc_ctx m2 = mc_ctx demo_machine"
proof -
  have pf: "getpid demo_pf = 100" "\<not> PAGE_MPK demo_pf" by (simp_all add: demo_pf_def)
  obtain m1 where m1: "mstep demo_pf (LFault 100 demo_si) demo_machine m1" "stepping (mc_ctx m1 100)"
    by (rule demo_fault)
  have inv: "runtime_inv (mc_rt demo_machine)" by (simp add: demo_machine_def demo_inv)
  obtain m2 where m2: "mstep demo_pf (LTrap 100) m1 m2"
    by (rule step_trap_enabled [OF fault_runtime_inv(1) [OF m1(1) pf(2) inv] m1(2)])
  have "waiting (abs_rt (mc_rt demo_machine)) 100 = None"
    by (simp add: demo_machine_def demo_rt_def spec0_def)
  from fault_and_trap_round_trip [of demo_machine demo_pf demo_si m1 m2, unfolded pf(1), OF inv pf(2) _ this m1(1) m2]
  show ?thesis using m1(1) m2 by (auto simp: demo_machine_fields)
qed

text \<open>C25: A fault of a thread other than the main thread is not undone by its step trap: the handler
  filed the rights under the thread, the trap looks under the process, and the thread keeps
  full access to the key that it never chose to open, with its rights left in the map.\<close>

theorem worker_thread_left_open:
  assumes "runtime_inv (mc_rt m)" and "\<not> PAGE_MPK pf" and "t \<noteq> getpid pf"
    and "waiting (abs_rt (mc_rt m)) (getpid pf) = None"
    and "mstep pf (LFault t si) m m1" and "mstep pf (LTrap t) m1 m2"
  shows "pkey_get (pkru_of pf m2 t) (si_pkey si) = (0, None) \<and> mc_intent m2 = mc_intent m \<and>
    \<not> stepping (mc_ctx m2 t) \<and> waiting (abs_rt (mc_rt m2)) t \<noteq> None"
proof -
  note f = fault_runtime_inv [OF assms(5,2,1)]
  note tr = trap_effect [OF assms(6) f(1)]
  have "waiting (abs_rt (mc_rt m1)) (getpid pf) = None"
    using assms(3,4) by (simp add: f(3) spec_store_def)
  then have "pkru_of pf m2 t = pkru_after_set (pkru_of pf m t) (si_pkey si) 0"
    by (simp add: tr(4) f(2) stepping_context_pkru Let_def)
  then have "pkey_get (pkru_of pf m2 t) (si_pkey si) = (0, None)"
    using f(5) pkey_get_after_set [of "si_pkey si" 0 "pkru_of pf m t"]
    by (simp add: prod_eq_iff) (simp add: pkey_get_def)
  moreover have "waiting (abs_rt (mc_rt m2)) t \<noteq> None"
    using assms(3) by (simp add: tr(1) f(3) spec_take_def spec_store_def)
  ultimately show ?thesis using tr(2,3) f(4) by simp
qed

theorem worker_thread_left_open_witness:
  "\<exists>m1 m2. mstep demo_pf (LFault 101 demo_si) demo_machine m1 \<and> mstep demo_pf (LTrap 101) m1 m2 \<and>
    pkey_get (mc_intent m2 101) 1 = (3, None) \<and> pkey_get (pkru_of demo_pf m2 101) 1 = (0, None)"
proof -
  have pf: "getpid demo_pf = 100" "\<not> PAGE_MPK demo_pf" "(101 :: thread_id) \<noteq> getpid demo_pf"
    by (simp_all add: demo_pf_def)
  obtain m1 where m1: "mstep demo_pf (LFault 101 demo_si) demo_machine m1" "stepping (mc_ctx m1 101)"
    by (rule demo_fault)
  have inv: "runtime_inv (mc_rt demo_machine)" by (simp add: demo_machine_def demo_inv)
  obtain m2 where m2: "mstep demo_pf (LTrap 101) m1 m2"
    by (rule step_trap_enabled [OF fault_runtime_inv(1) [OF m1(1) pf(2) inv] m1(2)])
  have "waiting (abs_rt (mc_rt demo_machine)) (getpid demo_pf) = None"
    by (simp add: demo_machine_def demo_rt_def spec0_def)
  from worker_thread_left_open [OF inv pf(2,3) this m1(1) m2] m1(1) m2
  have "pkey_get (pkru_of demo_pf m2 101) 1 = (0, None)" "mc_intent m2 101 = 0x3C"
    by (simp_all add: demo_machine_def demo_si_def)
  moreover from this(2) have "pkey_get (mc_intent m2 101) 1 = (3, None)" by (simp add: pkey_get_def)
  ultimately show ?thesis using m1(1) m2 by blast
qed

text \<open>C26: When one instruction of the main thread faults on two keys, the second fault does not
  replace the rights saved by the first, so the step trap restores the first key only and the
  second stays open.\<close>

theorem second_key_left_open:
  assumes "runtime_inv (mc_rt m)" and "\<not> PAGE_MPK pf"
    and "waiting (abs_rt (mc_rt m)) (getpid pf) = None" and "si_pkey si' \<noteq> si_pkey si"
    and "mstep pf (LFault (getpid pf) si) m m1" and "mstep pf (LFault (getpid pf) si') m1 m2"
    and "mstep pf (LTrap (getpid pf)) m2 m3"
  shows "pkey_get (pkru_of pf m3 (getpid pf)) (si_pkey si) = pkey_get (pkru_of pf m (getpid pf)) (si_pkey si) \<and>
    pkey_get (pkru_of pf m3 (getpid pf)) (si_pkey si') = (0, None) \<and> \<not> stepping (mc_ctx m3 (getpid pf))"
proof -
  let ?t = "getpid pf" and ?k = "si_pkey si" and ?k' = "si_pkey si'"
  let ?w = "pkru_of pf m ?t"
  note f = fault_runtime_inv [OF assms(5,2,1)]
  note f' = fault_runtime_inv [OF assms(6,2) f(1)]
  note tr = trap_effect [OF assms(7) f'(1)]
  have "waiting (abs_rt (mc_rt m2)) ?t = Some (saved_info pf ?k (mc_ctx m ?t))"
    using assms(3) by (simp add: f(3) f'(3) spec_store_def)
  then have pkru: "pkru_of pf m3 ?t =
      pkru_after_set (pkru_after_set (pkru_after_set ?w ?k 0) ?k' 0) ?k (fst (pkey_get ?w ?k))"
    by (simp add: tr(4) f(2) f'(2) stepping_context_pkru enableThreadMPK_def saved_info_def
        case_prod_unfold Let_def)
  have le: "fst (pkey_get ?w ?k) \<le> 3" using f(5) by (rule pkey_get_le_3)
  have "pkey_get (pkru_of pf m3 ?t) ?k = pkey_get ?w ?k"
    using pkey_get_after_set [OF f(5) le] f(5)
    by (simp add: pkru prod_eq_iff) (simp add: pkey_get_def)
  moreover have "pkey_get (pkru_of pf m3 ?t) ?k' = (0, None)"
    using pkey_get_after_set [OF f'(5), of 0 "pkru_after_set ?w ?k 0"] f'(5)
    unfolding pkru pkey_get_after_set_other [OF f(5) f'(5) assms(4) le]
    by (simp add: prod_eq_iff) (simp add: pkey_get_def)
  ultimately show ?thesis using tr(3) by simp
qed

theorem second_key_left_open_witness:
  "\<exists>m1 m2 m3. mstep demo_pf (LFault 100 \<lparr>si_code = 4, si_addr = 0x1008, si_pkey = 1\<rparr>) demo_machine m1 \<and>
    mstep demo_pf (LFault 100 \<lparr>si_code = 4, si_addr = 0x1008, si_pkey = 2\<rparr>) m1 m2 \<and>
    mstep demo_pf (LTrap 100) m2 m3 \<and>
    pkey_get (pkru_of demo_pf m3 100) 1 = (3, None) \<and> pkey_get (pkru_of demo_pf m3 100) 2 = (0, None)"
proof -
  let ?si = "\<lparr>si_code = 4, si_addr = 0x1008, si_pkey = 2\<rparr>"
  have pf: "getpid demo_pf = 100" "\<not> PAGE_MPK demo_pf" by (simp_all add: demo_pf_def)
  obtain m1 where m1: "mstep demo_pf (LFault 100 demo_si) demo_machine m1" "ids_inv 0 (mc_rt m1)"
    by (rule demo_fault)
  have inv: "runtime_inv (mc_rt demo_machine)" by (simp add: demo_machine_def demo_inv)
  note f1 = fault_runtime_inv [OF m1(1) pf(2) inv]
  have "fst (pkey_get (pkru_of demo_pf m1 100) 2) \<noteq> 0"
    by (simp add: f1(2) stepping_context_pkru demo_machine_def demo_context_def demo_si_def
        pkey_set_def pkey_get_def)
  then obtain m2 where m2: "mstep demo_pf (LFault 100 ?si) m1 m2" "stepping (mc_ctx m2 100)"
    using demo_fault_from [OF f1(1) m1(2), of 2 100] by auto
  note f2 = fault_runtime_inv [OF m2(1) pf(2) f1(1)]
  obtain m3 where m3: "mstep demo_pf (LTrap 100) m2 m3"
    by (rule step_trap_enabled [OF f2(1) m2(2)])
  have "waiting (abs_rt (mc_rt demo_machine)) 100 = None"
    by (simp add: demo_machine_def demo_rt_def spec0_def)
  from second_key_left_open [of demo_machine demo_pf ?si demo_si m1 m2 m3, unfolded pf(1),
      OF inv pf(2) this _ m1(1) m2(1) m3]
  have "pkey_get (pkru_of demo_pf m3 100) 1 = pkey_get (pkru_of demo_pf demo_machine 100) 1"
    "pkey_get (pkru_of demo_pf m3 100) 2 = (0, None)"
    by (simp_all add: demo_si_def)
  moreover have "pkey_get (pkru_of demo_pf demo_machine 100) 1 = (3, None)"
    by (simp add: demo_machine_fields pkey_get_def)
  ultimately show ?thesis using m1(1) m2(1) m3 unfolding demo_si_def by metis
qed

end
