(* ===== verification/Pass_Options.thy ===== *)
theory Pass_Options
  imports Provsan_Prelude "HOL-Library.List_Lexorder" "HOL-Library.Char_ord"
begin

section \<open>Options of the compiler passes\<close>

text \<open>
  How the passes read their configuration from the environment: the comma separated lists of
  allocation functions (\<open>str_to_vec\<close> and \<open>populateFromEnv\<close> of
  \<open>Passes/DynUntrustedAllocPre/DynUntrustedAllocPre.cpp\<close>) and the two variables the constructor
  of \<open>ProvsanPost\<close> looks at. An environment maps a variable's name to its value if it is set.
\<close>

type_synonym environment = "string \<Rightarrow> string option"

text \<open>
  The ways in which a pass stops the compiler: the two exceptions of \<open>std::stoi\<close>, a failed
  assertion or a wild access inside LLVM.
\<close>

datatype pass_error =
    StoiInvalidArgument
  | StoiOutOfRange
  | ArgOutOfRange \<comment> \<open>\<open>getArgOperand\<close> beyond the arguments\<close>
  | NoInsertionPoint \<comment> \<open>no instruction to insert a hook before\<close>
  | NullCalledFunction \<comment> \<open>the name of an indirect callee\<close>
  | NoDebugLocation \<comment> \<open>the scope of a missing debug location\<close>
  | NotAnObject \<comment> \<open>mapping fields of a JSON value that is no object\<close>
  | UsersChanged \<comment> \<open>a use list that is changed while it is walked\<close>
  | ForeignInstruction \<comment> \<open>a pointer to an instruction that is erased or in another module\<close>

subsection \<open>Splitting\<close>

text \<open>\<open>find_first_not_of\<close> and \<open>find\<close> of \<open>std::string\<close>, from a position; \<open>None\<close> is \<open>npos\<close>.\<close>

definition find_first_not_of :: "char \<Rightarrow> string \<Rightarrow> nat \<Rightarrow> nat option" where
  "find_first_not_of c s pos =
    (let rest = dropWhile (\<lambda>x. x = c) (drop pos s)
     in if rest = [] then None else Some (length s - length rest))"

definition find_char :: "char \<Rightarrow> string \<Rightarrow> nat \<Rightarrow> nat option" where
  "find_char c s pos =
    (let rest = dropWhile (\<lambda>x. x \<noteq> c) (drop pos s)
     in if rest = [] then None else Some (length s - length rest))"

lemma find_first_not_of_Some:
  assumes "find_first_not_of c s pos = Some i"
  shows "pos \<le> i" "i < length s" "drop i s = dropWhile (\<lambda>x. x = c) (drop pos s)"
proof -
  let ?rest = "dropWhile (\<lambda>x. x = c) (drop pos s)" and ?n = "length (takeWhile (\<lambda>x. x = c) (drop pos s))"
  have i: "i = length s - length ?rest" "?rest \<noteq> []"
    using assms by (auto simp: find_first_not_of_def Let_def split: if_splits)
  have "length ?rest = length s - pos - ?n" by (simp add: dropWhile_eq_drop)
  moreover have "?n \<le> length s - pos" using length_takeWhile_le [of _ "drop pos s"] by simp
  moreover have "0 < length ?rest" using i(2) by simp
  ultimately have "i = pos + ?n" "i < length s" using i(1) by simp_all
  then show "pos \<le> i" "i < length s" "drop i s = ?rest"
    by (simp_all add: dropWhile_eq_drop add.commute)
qed

lemma find_first_not_of_None:
  "find_first_not_of c s pos = None \<longleftrightarrow> dropWhile (\<lambda>x. x = c) (drop pos s) = []"
  by (simp add: find_first_not_of_def Let_def)

lemma find_char_Some:
  assumes "find_char c s pos = Some e"
  shows "pos \<le> e" "e < length s" "take (e - pos) (drop pos s) = takeWhile (\<lambda>x. x \<noteq> c) (drop pos s)"
    "drop e s = dropWhile (\<lambda>x. x \<noteq> c) (drop pos s)"
proof -
  let ?rest = "dropWhile (\<lambda>x. x \<noteq> c) (drop pos s)" and ?n = "length (takeWhile (\<lambda>x. x \<noteq> c) (drop pos s))"
  have e: "e = length s - length ?rest" "?rest \<noteq> []"
    using assms by (auto simp: find_char_def Let_def split: if_splits)
  have "length ?rest = length s - pos - ?n" by (simp add: dropWhile_eq_drop)
  moreover have "?n \<le> length s - pos" using length_takeWhile_le [of _ "drop pos s"] by simp
  moreover have "0 < length ?rest" using e(2) by simp
  ultimately have "e = pos + ?n" "e < length s" using e(1) by simp_all
  then show "pos \<le> e" "e < length s" "take (e - pos) (drop pos s) = takeWhile (\<lambda>x. x \<noteq> c) (drop pos s)"
    "drop e s = ?rest"
    by (simp_all add: dropWhile_eq_drop takeWhile_eq_take [symmetric] add.commute)
qed

lemma find_char_None:
  "find_char c s pos = None \<Longrightarrow> takeWhile (\<lambda>x. x \<noteq> c) (drop pos s) = drop pos s"
  by (auto simp: find_char_def Let_def takeWhile_eq_all_conv split: if_splits)

text \<open>
  The loop of \<open>str_to_vec\<close>, from the end of the last piece. When no delimiter follows, \<open>end\<close> is
  \<open>npos\<close>, the piece is the rest of the string and the next search from there finds nothing.
\<close>

function split_loop :: "string \<Rightarrow> char \<Rightarrow> nat \<Rightarrow> string list" where
  "split_loop str delim endp =
    (case find_first_not_of delim str endp of
       None \<Rightarrow> []
     | Some start \<Rightarrow>
         (case find_char delim str start of
            None \<Rightarrow> [drop start str]
          | Some e \<Rightarrow> take (e - start) (drop start str) # split_loop str delim e))"
  by pat_completeness auto
termination
proof (relation "measure (\<lambda>(s, d, e). length s - e + (if e < length s \<and> s ! e \<noteq> d then 1 else 0))")
  fix str delim endp start e
  assume s: "find_first_not_of delim str endp = Some start" and e: "find_char delim str start = Some e"
  note f = find_first_not_of_Some [OF s] and g = find_char_Some [OF e]
  have "str ! e = delim"
    using g(2,4) hd_dropWhile [of "\<lambda>x. x \<noteq> delim" "drop start str"] by (metis drop_eq_Nil2 hd_drop_conv_nth leD)
  moreover have "str ! start \<noteq> delim"
    using f(2,3) hd_dropWhile [of "\<lambda>x. x = delim" "drop endp str"] by (metis drop_eq_Nil2 hd_drop_conv_nth leD)
  ultimately have "start < e" using g(1) by (metis order_le_less)
  then show "((str, delim, e), (str, delim, endp))
      \<in> measure (\<lambda>(s, d, e). length s - e + (if e < length s \<and> s ! e \<noteq> d then 1 else 0))"
    using f(1,2) g(2) \<open>str ! e = delim\<close> by auto
qed simp

declare split_loop.simps [simp del]

definition str_to_vec :: "string \<Rightarrow> char \<Rightarrow> string list" where
  "str_to_vec str delim = split_loop str delim 0"

definition populateFromEnv :: "environment \<Rightarrow> string list \<Rightarrow> string \<Rightarrow> string \<Rightarrow> string list" where
  "populateFromEnv env ins env_var fallback =
    (let a = (case env env_var of None \<Rightarrow> [] | Some v \<Rightarrow> v)
     in if a = [] then ins @ [fallback] else ins @ str_to_vec a (CHR '',''))"

subsection \<open>What splitting returns\<close>

text \<open>All pieces between delimiters, empty ones included.\<close>

fun pieces :: "char \<Rightarrow> string \<Rightarrow> string list" where
  "pieces d [] = [[]]"
| "pieces d (c # cs) = (if c = d then [] # pieces d cs else (c # hd (pieces d cs)) # tl (pieces d cs))"

lemma pieces_nonempty [simp]: "pieces d s \<noteq> []"
  by (cases s) auto

lemma pieces_span:
  "pieces d s = takeWhile (\<lambda>x. x \<noteq> d) s #
    (case dropWhile (\<lambda>x. x \<noteq> d) s of [] \<Rightarrow> [] | _ # t \<Rightarrow> pieces d t)"
  by (induction s) (auto split: list.splits)

lemma pieces_skip: "filter (\<lambda>p. p \<noteq> []) (pieces d (dropWhile (\<lambda>x. x = d) s)) = filter (\<lambda>p. p \<noteq> []) (pieces d s)"
  by (induction s) auto

lemma split_loop_pieces: "split_loop str delim endp = filter (\<lambda>p. p \<noteq> []) (pieces delim (drop endp str))"
proof (induction str delim endp rule: split_loop.induct)
  case (1 str delim endp)
  show ?case
  proof (cases "find_first_not_of delim str endp")
    case None
    then have "dropWhile (\<lambda>x. x = delim) (drop endp str) = []" by (simp only: find_first_not_of_None)
    then have "filter (\<lambda>p. p \<noteq> []) (pieces delim (drop endp str)) = filter (\<lambda>p. p \<noteq> []) (pieces delim [])"
      using pieces_skip [of delim "drop endp str"] by (simp only:)
    with None show ?thesis by (simp add: split_loop.simps)
  next
    case (Some start)
    note f = find_first_not_of_Some [OF Some]
    let ?r = "drop start str"
    have skip: "filter (\<lambda>p. p \<noteq> []) (pieces delim (drop endp str)) = filter (\<lambda>p. p \<noteq> []) (pieces delim ?r)"
      using pieces_skip [of delim "drop endp str"] f(3) by simp
    have ne: "?r \<noteq> []" using f(2) by simp
    then have "hd ?r \<noteq> delim"
      using hd_dropWhile [of "\<lambda>x. x = delim" "drop endp str"] unfolding f(3) by blast
    with ne have word: "takeWhile (\<lambda>x. x \<noteq> delim) ?r \<noteq> []" by (cases ?r) auto
    show ?thesis
    proof (cases "find_char delim str start")
      case None
      then have "takeWhile (\<lambda>x. x \<noteq> delim) ?r = ?r" "dropWhile (\<lambda>x. x \<noteq> delim) ?r = []"
        using find_char_None [OF None] by (auto simp: find_char_def Let_def split: if_splits)
      then have "pieces delim ?r = [?r]" using pieces_span [of delim ?r] by (simp only: list.case)
      then show ?thesis
        using Some None skip ne by (simp add: split_loop.simps [of str delim endp])
    next
      case e: (Some e)
      note g = find_char_Some [OF e]
      have ne': "drop e str \<noteq> []" using g(2) by simp
      then have "hd (drop e str) = delim"
        using hd_dropWhile [of "\<lambda>x. x \<noteq> delim" ?r] unfolding g(4) by blast
      with ne' obtain t where t: "drop e str = delim # t" by (cases "drop e str") auto
      have "pieces delim ?r = takeWhile (\<lambda>x. x \<noteq> delim) ?r # pieces delim t"
        using pieces_span [of delim ?r] unfolding g(4) [symmetric] t by simp
      moreover have "split_loop str delim e = filter (\<lambda>p. p \<noteq> []) (pieces delim t)"
        using "1.IH" [OF Some e] t by simp
      ultimately show ?thesis
        using Some e skip word g(3) by (simp add: split_loop.simps [of str delim endp])
    qed
  qed
qed

subsection \<open>The constructor of the post pass\<close>

text \<open>\<open>std::stoi\<close>: leading white space, a sign, the longest run of decimal digits.\<close>

definition is_space :: "char \<Rightarrow> bool" where
  "is_space c \<longleftrightarrow> c = CHR '' '' \<or> (9 \<le> (of_char c :: nat) \<and> (of_char c :: nat) \<le> 13)"

definition is_digit :: "char \<Rightarrow> bool" where
  "is_digit c \<longleftrightarrow> 48 \<le> (of_char c :: nat) \<and> (of_char c :: nat) \<le> 57"

definition digits_value :: "string \<Rightarrow> int" where
  "digits_value ds = foldl (\<lambda>n c. 10 * n + (of_char c - 48)) 0 ds"

definition stoi :: "string \<Rightarrow> pass_error + int" where
  "stoi s =
    (let s = dropWhile is_space s;
         neg = (s \<noteq> [] \<and> hd s = CHR ''-'');
         s = (if s \<noteq> [] \<and> (hd s = CHR ''-'' \<or> hd s = CHR ''+'') then tl s else s);
         ds = takeWhile is_digit s;
         v = (if neg then - digits_value ds else digits_value ds)
     in if ds = [] then Inl StoiInvalidArgument
        else if v < - (2 ^ 31) \<or> 2 ^ 31 \<le> v then Inl StoiOutOfRange
        else Inr v)"

record post_options =
  MPKProfilePath :: string
  RemoveHooks :: bool

definition ProvsanPost :: "environment \<Rightarrow> string \<Rightarrow> bool \<Rightarrow> pass_error + post_options" where
  "ProvsanPost env mpk_profile_path remove_hooks =
    (let path = (if mpk_profile_path = []
                 then (case env ''PROVSAN_PATH'' of None \<Rightarrow> [] | Some v \<Rightarrow> v) else mpk_profile_path)
     in if \<not> remove_hooks then
          (case env ''PROVSAN_HOOK'' of
             None \<Rightarrow> Inr \<lparr>MPKProfilePath = path, RemoveHooks = False\<rparr>
           | Some p \<Rightarrow> and_then (stoi p) (\<lambda>v. Inr \<lparr>MPKProfilePath = path, RemoveHooks = (v \<noteq> 0)\<rparr>))
        else Inr \<lparr>MPKProfilePath = path, RemoveHooks = True\<rparr>)"

text \<open>The test flags that \<open>run\<close> looks at first.\<close>

definition apply_test_flags :: "string \<Rightarrow> bool \<Rightarrow> post_options \<Rightarrow> post_options" where
  "apply_test_flags test_path test_remove opts =
    (let opts = (if MPKProfilePath opts = [] \<and> test_path \<noteq> []
                 then opts\<lparr>MPKProfilePath := test_path\<rparr> else opts)
     in if test_remove then opts\<lparr>RemoveHooks := test_remove\<rparr> else opts)"

subsection \<open>Properties\<close>

text \<open>An environment list is split at the commas into its non-empty pieces, in order; only an
  unset or empty variable gives the fallback, so a value of commas alone hooks nothing.\<close>

lemma environment_list_split:
  "populateFromEnv env ins var fallback =
    ins @ (if env var = None \<or> env var = Some [] then [fallback]
           else filter (\<lambda>p. p \<noteq> []) (pieces (CHR '','') (the (env var))))"
  by (cases "env var") (auto simp: populateFromEnv_def str_to_vec_def split_loop_pieces Let_def)

end
