(* ===== verification/Module_IR.thy ===== *)
theory Module_IR
  imports Pass_Options
begin

section \<open>The part of LLVM's program representation the passes use\<close>

text \<open>
  A module is a list of functions, a function with a body a list of basic blocks, a block a list
  of instructions. A pointer to an instruction or a block is its identifier, which is unique in
  the module. What LLVM computes for the passes (the order of traversal, the split of an edge,
  insertion points, slots of unnamed blocks, debug locations) is a record of functions,
  \<open>llvm_api\<close>, that the passes take as an argument.
\<close>

type_synonym inst_id = nat
type_synonym label = nat

datatype operand = Result inst_id | Int64 i64 | NullPtr | GlobalStr string | OtherValue nat

text \<open>\<open>getCalledFunction\<close> is null for an indirect call.\<close>

datatype callee = Func string | Indirect

text \<open>The classes derived from \<open>CallBase\<close>, and the rest.\<close>

datatype call_kind = CallInst | InvokeInst (normal_dest: label) (unwind_dest: label) | CallBrInst

datatype instr =
    CallBase (inst_id: inst_id) (call_kind: call_kind) (callee: callee) (args: "operand list")
  | OtherInst (inst_id: inst_id) (others: "operand list")

record basic_block =
  bb_label :: label
  bb_name :: string
  bb_insts :: "instr list"

record func =
  fn_name :: string
  fn_blocks :: "basic_block list"

record ir_module =
  mod_funcs :: "func list"
  mod_AllocSiteTotal :: "u64 option"

text \<open>A position in the source, with the position of the call it was inlined at.\<close>

datatype debug_loc =
  DebugLoc (scope_filename: string) (loc_line: nat) (loc_col: nat) (inlined_at: "debug_loc option")

record llvm_api =
  rpo :: "func \<Rightarrow> label list" \<comment> \<open>\<open>ReversePostOrderTraversal\<close>\<close>
  single_pred :: "func \<Rightarrow> label \<Rightarrow> bool" \<comment> \<open>\<open>getSinglePredecessor\<close> is not null\<close>
  first_insertion_pt :: "basic_block \<Rightarrow> nat" \<comment> \<open>position of \<open>getFirstInsertionPt\<close>\<close>
  split_edge :: "label \<Rightarrow> label \<Rightarrow> func \<Rightarrow> func \<times> label" \<comment> \<open>\<open>SplitEdge\<close>\<close>
  local_slot :: "func \<Rightarrow> label \<Rightarrow> int" \<comment> \<open>\<open>ModuleSlotTracker::getLocalSlot\<close>\<close>
  debug_location :: "inst_id \<Rightarrow> debug_loc option" \<comment> \<open>\<open>getDebugLoc\<close>; \<open>None\<close> is an empty location\<close>

definition is_declaration :: "func \<Rightarrow> bool" where
  "is_declaration f \<longleftrightarrow> fn_blocks f = []"

definition get_function :: "ir_module \<Rightarrow> string \<Rightarrow> func option" where
  "get_function m name = find (\<lambda>f. fn_name f = name) (mod_funcs m)"

fun called_function :: "instr \<Rightarrow> string option" where
  "called_function (CallBase i k (Func g) as) = Some g"
| "called_function _ = None"

definition block_of :: "func \<Rightarrow> label \<Rightarrow> basic_block option" where
  "block_of f l = find (\<lambda>b. bb_label b = l) (fn_blocks f)"

definition insts_of :: "func \<Rightarrow> label \<Rightarrow> instr list" where
  "insts_of f l = (case block_of f l of None \<Rightarrow> [] | Some b \<Rightarrow> bb_insts b)"

text \<open>Changing the instructions of one block.\<close>

definition set_insts :: "label \<Rightarrow> instr list \<Rightarrow> func \<Rightarrow> func" where
  "set_insts l is f =
    f\<lparr>fn_blocks := map (\<lambda>b. if bb_label b = l then b\<lparr>bb_insts := is\<rparr> else b) (fn_blocks f)\<rparr>"

definition all_insts :: "ir_module \<Rightarrow> instr list" where
  "all_insts m = concat (map (\<lambda>f. concat (map bb_insts (fn_blocks f))) (mod_funcs m))"

definition get_inst :: "ir_module \<Rightarrow> inst_id \<Rightarrow> instr option" where
  "get_inst m i = find (\<lambda>x. inst_id x = i) (all_insts m)"

text \<open>Changing and erasing instructions wherever they are.\<close>

definition map_insts :: "(instr \<Rightarrow> instr) \<Rightarrow> ir_module \<Rightarrow> ir_module" where
  "map_insts g m =
    m\<lparr>mod_funcs := map (\<lambda>f. f\<lparr>fn_blocks := map (\<lambda>b. b\<lparr>bb_insts := map g (bb_insts b)\<rparr>) (fn_blocks f)\<rparr>)
      (mod_funcs m)\<rparr>"

definition erase_insts :: "(instr \<Rightarrow> bool) \<Rightarrow> ir_module \<Rightarrow> ir_module" where
  "erase_insts P m =
    m\<lparr>mod_funcs := map (\<lambda>f. f\<lparr>fn_blocks :=
        map (\<lambda>b. b\<lparr>bb_insts := filter (\<lambda>i. \<not> P i) (bb_insts b)\<rparr>) (fn_blocks f)\<rparr>) (mod_funcs m)\<rparr>"

text \<open>A module LLVM could hold: identifiers and names are unique.\<close>

definition well_formed :: "ir_module \<Rightarrow> bool" where
  "well_formed m \<longleftrightarrow>
    distinct (map inst_id (all_insts m)) \<and> distinct (map fn_name (mod_funcs m)) \<and>
    (\<forall>f\<in>set (mod_funcs m). distinct (map bb_label (fn_blocks f)))"

text \<open>A traversal visits blocks of the function, each at most once.\<close>

definition rpo_ok :: "llvm_api \<Rightarrow> func \<Rightarrow> bool" where
  "rpo_ok api f \<longleftrightarrow> distinct (rpo api f) \<and> set (rpo api f) \<subseteq> set (map bb_label (fn_blocks f))"

subsection \<open>Basic facts\<close>

lemma find_unique:
  "x \<in> set xs \<Longrightarrow> distinct (map g xs) \<Longrightarrow> find (\<lambda>y. g y = g x) xs = Some x"
  by (induction xs) (auto simp: image_iff)

lemma find_Some_mem: "find P xs = Some x \<Longrightarrow> x \<in> set xs \<and> P x"
  by (induction xs) (auto split: if_splits)

lemma called_function_Some: "called_function i = Some g \<longleftrightarrow> (\<exists>n k as. i = CallBase n k (Func g) as)"
  by (cases i rule: called_function.cases) auto

lemma fn_name_set_insts [simp]: "fn_name (set_insts l is f) = fn_name f"
  by (simp add: set_insts_def)

lemma labels_set_insts [simp]: "map bb_label (fn_blocks (set_insts l is f)) = map bb_label (fn_blocks f)"
  by (auto simp: set_insts_def)

lemma find_map_update:
  "find (\<lambda>b. bb_label b = l) (map (\<lambda>b. if bb_label b = k then b\<lparr>bb_insts := is\<rparr> else b) bs) =
    map_option (\<lambda>b. if l = k then b\<lparr>bb_insts := is\<rparr> else b) (find (\<lambda>b. bb_label b = l) bs)"
  by (induction bs) auto

lemma block_of_set_insts:
  "block_of (set_insts k is f) l =
    map_option (\<lambda>b. if l = k then b\<lparr>bb_insts := is\<rparr> else b) (block_of f l)"
  by (simp add: block_of_def set_insts_def find_map_update)

lemma insts_of_set_insts:
  "block_of f k \<noteq> None \<Longrightarrow> insts_of (set_insts k is f) l = (if l = k then is else insts_of f l)"
  by (auto simp: insts_of_def block_of_set_insts split: option.splits)

lemma block_of_label: "l \<in> set (map bb_label (fn_blocks f)) \<Longrightarrow> block_of f l \<noteq> None"
  by (auto simp: block_of_def find_None_iff)

lemma insts_of_block:
  "b \<in> set (fn_blocks f) \<Longrightarrow> distinct (map bb_label (fn_blocks f)) \<Longrightarrow> insts_of f (bb_label b) = bb_insts b"
  by (simp add: insts_of_def block_of_def find_unique)

lemma all_insts_map: "all_insts (map_insts g m) = map g (all_insts m)"
  by (simp add: all_insts_def map_insts_def map_concat o_def)

lemma all_insts_erase: "all_insts (erase_insts P m) = filter (\<lambda>i. \<not> P i) (all_insts m)"
  by (simp add: all_insts_def erase_insts_def filter_concat o_def)

text \<open>A simple instance of the interface, for examples.\<close>

definition demo_api :: llvm_api where
  "demo_api =
    \<lparr>rpo = (\<lambda>f. map bb_label (fn_blocks f)), single_pred = (\<lambda>_ _. True), first_insertion_pt = (\<lambda>_. 0),
     split_edge = (\<lambda>_ l f. (f, l)), local_slot = (\<lambda>_ l. int l), debug_location = (\<lambda>_. Some (DebugLoc ''demo.c'' 1 1 None))\<rparr>"

end
