(* ===== verification/Pre_Pass.thy ===== *)
theory Pre_Pass
  imports Module_IR "HOL-Library.Multiset"
begin

section \<open>The pre pass\<close>

text \<open>
  \<open>Passes/DynUntrustedAllocPre/DynUntrustedAllocPre.cpp\<close>: the calls of the functions the options
  name get a call of a hook of the runtime behind them. The counters of the file are the record
  \<open>pre_state\<close>, with the identifier the next instruction that is created gets. The walk over a
  block is the iterator of the list that it inserts into, so it also sees the hooks. It is a
  \<open>partial_function\<close>: with a hook among the functions to hook it would not end.
\<close>

record pre_state =
  hook_count :: u64
  alloc_hook_counter :: u64
  realloc_hook_counter :: u64
  dealloc_hook_counter :: u64
  next_id :: inst_id

record pre_targets =
  AllocFunctions :: "string option list"
  ReallocFunctions :: "string option list"
  DeallocFunctions :: "string option list"

text \<open>A set of pointers to functions; a name the module does not have puts the null pointer in.\<close>

definition GetTargetFunctionSet :: "ir_module \<Rightarrow> string list \<Rightarrow> string option list" where
  "GetTargetFunctionSet m targets =
    map (\<lambda>name. case get_function m name of None \<Rightarrow> None | Some f \<Rightarrow> Some (fn_name f)) targets"

definition getDummyID :: operand where
  "getDummyID = Int64 (-1)"

abbreviation GlobalNullStr :: operand where
  "GlobalNullStr \<equiv> NullPtr"

definition getArgOperand :: "operand list \<Rightarrow> nat \<Rightarrow> pass_error + operand" where
  "getArgOperand as k = (if k < length as then Inr (as ! k) else Inl ArgOutOfRange)"

definition create_call :: "string \<Rightarrow> operand list \<Rightarrow> pre_state \<Rightarrow> instr option \<times> pre_state" where
  "create_call fn as ps = (Some (CallBase (next_id ps) CallInst (Func fn) as), ps\<lparr>next_id := next_id ps + 1\<rparr>)"

fun getHookInst :: "pre_targets \<Rightarrow> instr \<Rightarrow> pre_state \<Rightarrow> pass_error + instr option \<times> pre_state" where
  "getHookInst ts (CallBase n k (Func f) as) ps =
    (if Some f \<in> set (AllocFunctions ts) then
       (let ps = ps\<lparr>alloc_hook_counter := alloc_hook_counter ps + 1\<rparr>
        in and_then (getArgOperand as 0) (\<lambda>size.
          Inr (create_call ''allocHook'' [Result n, size, getDummyID, GlobalNullStr, GlobalNullStr] ps)))
     else if Some f \<in> set (ReallocFunctions ts) then
       (let ps = ps\<lparr>realloc_hook_counter := realloc_hook_counter ps + 1\<rparr>
        in and_then (getArgOperand as 3) (\<lambda>newSize.
          and_then (getArgOperand as 0) (\<lambda>oldPtr.
            and_then (getArgOperand as 1) (\<lambda>oldSize.
              Inr (create_call ''reallocHook''
                [Result n, newSize, oldPtr, oldSize, getDummyID, GlobalNullStr, GlobalNullStr] ps)))))
     else if Some f \<in> set (DeallocFunctions ts) then
       (let ps = ps\<lparr>dealloc_hook_counter := dealloc_hook_counter ps + 1\<rparr>
        in and_then (getArgOperand as 0) (\<lambda>ptr.
          and_then (getArgOperand as 1) (\<lambda>size.
            Inr (create_call ''deallocHook'' [ptr, size, getDummyID] ps))))
     else Inr (None, ps))"
| "getHookInst ts i ps = Inr (None, ps)"

subsection \<open>Walking a block\<close>

text \<open>The instruction behind another one, and inserting behind it or before a position.\<close>

fun next_after :: "inst_id \<Rightarrow> instr list \<Rightarrow> instr option" where
  "next_after n [] = None"
| "next_after n (i # is) =
    (if inst_id i = n then (case is of [] \<Rightarrow> None | j # _ \<Rightarrow> Some j) else next_after n is)"

fun insert_after :: "inst_id \<Rightarrow> instr \<Rightarrow> instr list \<Rightarrow> instr list" where
  "insert_after n h [] = []"
| "insert_after n h (i # is) = (if inst_id i = n then i # h # is else i # insert_after n h is)"

definition insert_at :: "nat \<Rightarrow> instr \<Rightarrow> instr list \<Rightarrow> pass_error + instr list" where
  "insert_at p h is = (if p < length is then Inr (take p is @ h # drop p is) else Inl NoInsertionPoint)"

definition first_inst :: "instr list \<Rightarrow> instr option" where
  "first_inst is = (case is of [] \<Rightarrow> None | i # _ \<Rightarrow> Some i)"

definition hook_step ::
    "llvm_api \<Rightarrow> pre_targets \<Rightarrow> label \<Rightarrow> instr \<Rightarrow> func \<Rightarrow> pre_state \<Rightarrow> pass_error + func \<times> pre_state" where
  "hook_step api ts l i f ps =
    (case i of
       OtherInst _ _ \<Rightarrow> Inr (f, ps)
     | CallBase n k c as \<Rightarrow>
         and_then (getHookInst ts i ps) (\<lambda>(newHook, ps).
           (case newHook of
              None \<Rightarrow> Inr (f, ps)
            | Some hook \<Rightarrow>
                let counted = ps\<lparr>hook_count := hook_count ps + 1\<rparr> in
                (case k of
                   CallInst \<Rightarrow>
                     (if next_after n (insts_of f l) = None then Inl NoInsertionPoint
                      else Inr (set_insts l (insert_after n hook (insts_of f l)) f, counted))
                 | InvokeInst normal unwind \<Rightarrow>
                     (if \<not> single_pred api f normal then
                        (case split_edge api l normal f of (f, new) \<Rightarrow>
                           and_then (insert_at 0 hook (insts_of f new)) (\<lambda>is. Inr (set_insts new is f, counted)))
                      else
                        (case block_of f normal of
                           None \<Rightarrow> Inl NoInsertionPoint
                         | Some b \<Rightarrow>
                             and_then (insert_at (first_insertion_pt api b) hook (bb_insts b)) (\<lambda>is.
                               Inr (set_insts normal is f, counted))))
                 | CallBrInst \<Rightarrow> Inr (f, ps)))))"

partial_function (option) hook_insts ::
    "llvm_api \<Rightarrow> pre_targets \<Rightarrow> label \<Rightarrow> instr option \<Rightarrow> func \<Rightarrow> pre_state
      \<Rightarrow> (pass_error + func \<times> pre_state) option" where
  "hook_insts api ts l cur f ps =
    (case cur of
       None \<Rightarrow> Some (Inr (f, ps))
     | Some i \<Rightarrow>
         (case hook_step api ts l i f ps of
            Inl e \<Rightarrow> Some (Inl e)
          | Inr (f', ps') \<Rightarrow> hook_insts api ts l (next_after (inst_id i) (insts_of f' l)) f' ps'))"

declare hook_insts.simps [code]

fun hook_blocks ::
    "llvm_api \<Rightarrow> pre_targets \<Rightarrow> label list \<Rightarrow> func \<Rightarrow> pre_state \<Rightarrow> (pass_error + func \<times> pre_state) option" where
  "hook_blocks api ts [] f ps = Some (Inr (f, ps))"
| "hook_blocks api ts (l # ls) f ps =
    (case hook_insts api ts l (first_inst (insts_of f l)) f ps of
       None \<Rightarrow> None
     | Some (Inl e) \<Rightarrow> Some (Inl e)
     | Some (Inr (f, ps)) \<Rightarrow> hook_blocks api ts ls f ps)"

fun hook_funcs ::
    "llvm_api \<Rightarrow> pre_targets \<Rightarrow> func list \<Rightarrow> pre_state \<Rightarrow> (pass_error + func list \<times> pre_state) option" where
  "hook_funcs api ts [] ps = Some (Inr ([], ps))"
| "hook_funcs api ts (f # fs) ps =
    (case (if is_declaration f then Some (Inr (f, ps)) else hook_blocks api ts (rpo api f) f ps) of
       None \<Rightarrow> None
     | Some (Inl e) \<Rightarrow> Some (Inl e)
     | Some (Inr (g, ps)) \<Rightarrow>
         (case hook_funcs api ts fs ps of
            None \<Rightarrow> None
          | Some (Inl e) \<Rightarrow> Some (Inl e)
          | Some (Inr (gs, ps)) \<Rightarrow> Some (Inr (g # gs, ps))))"

definition hookFunctions ::
    "llvm_api \<Rightarrow> pre_targets \<Rightarrow> ir_module \<Rightarrow> pre_state \<Rightarrow> (pass_error + ir_module \<times> pre_state) option" where
  "hookFunctions api ts m ps =
    map_option (map_sum id (\<lambda>(fs, ps). (m\<lparr>mod_funcs := fs\<rparr>, ps))) (hook_funcs api ts (mod_funcs m) ps)"

subsection \<open>The run of the pass\<close>

definition getOrInsertFunction :: "string \<Rightarrow> ir_module \<Rightarrow> ir_module" where
  "getOrInsertFunction name m =
    (if get_function m name \<noteq> None then m
     else m\<lparr>mod_funcs := mod_funcs m @ [\<lparr>fn_name = name, fn_blocks = []\<rparr>]\<rparr>)"

record pre_options =
  ProvSanAlloc :: "string list"
  ProvSanRealloc :: "string list"
  ProvSanFree :: "string list"

definition read_options :: "environment \<Rightarrow> pre_options \<Rightarrow> pre_options" where
  "read_options env opts =
    \<lparr>ProvSanAlloc = populateFromEnv env (ProvSanAlloc opts) ''PROVSAN_ALLOC'' ''trusted_malloc'',
     ProvSanRealloc = populateFromEnv env (ProvSanRealloc opts) ''PROVSAN_REALLOC'' ''trusted_realloc'',
     ProvSanFree = populateFromEnv env (ProvSanFree opts) ''PROVSAN_FREE'' ''trusted_free''\<rparr>"

definition find_targets :: "pre_options \<Rightarrow> ir_module \<Rightarrow> pre_targets" where
  "find_targets opts m =
    \<lparr>AllocFunctions = GetTargetFunctionSet m (ProvSanAlloc opts),
     ReallocFunctions = GetTargetFunctionSet m (ProvSanRealloc opts),
     DeallocFunctions = GetTargetFunctionSet m (ProvSanFree opts)\<rparr>"

definition declare_hooks :: "ir_module \<Rightarrow> ir_module" where
  "declare_hooks m =
    getOrInsertFunction ''deallocHook'' (getOrInsertFunction ''reallocHook'' (getOrInsertFunction ''allocHook'' m))"

definition run_pre ::
    "llvm_api \<Rightarrow> environment \<Rightarrow> pre_options \<Rightarrow> ir_module \<Rightarrow> pre_state \<Rightarrow> (pass_error + ir_module \<times> pre_state) option" where
  "run_pre api env opts m ps =
    hookFunctions api (find_targets (read_options env opts) m) (declare_hooks m) ps"

definition pre_stats_text :: "pre_state \<Rightarrow> string" where
  "pre_stats_text ps =
    ''Total number of hook instructions: '' @ dec_u64 (hook_count ps) @ [CHR 0x0A]
    @ ''Number of alloc hook instructions: '' @ dec_u64 (alloc_hook_counter ps) @ [CHR 0x0A]
    @ ''Number of realloc hook instructions: '' @ dec_u64 (realloc_hook_counter ps) @ [CHR 0x0A]
    @ ''Number of dealloc hook instructions: '' @ dec_u64 (dealloc_hook_counter ps) @ [CHR 0x0A]"

subsection \<open>Reference description of the hooks\<close>

definition is_target :: "pre_targets \<Rightarrow> instr \<Rightarrow> bool" where
  "is_target ts i \<longleftrightarrow>
    (case called_function i of
       None \<Rightarrow> False
     | Some f \<Rightarrow> Some f \<in> set (AllocFunctions ts @ ReallocFunctions ts @ DeallocFunctions ts))"

text \<open>The hook a call gets and its arguments.\<close>

fun hook_for :: "pre_targets \<Rightarrow> instr \<Rightarrow> (string \<times> operand list) option" where
  "hook_for ts (CallBase n k (Func f) as) =
    (if Some f \<in> set (AllocFunctions ts) then
       Some (''allocHook'', [Result n, as ! 0, Int64 (-1), NullPtr, NullPtr])
     else if Some f \<in> set (ReallocFunctions ts) then
       Some (''reallocHook'', [Result n, as ! 3, as ! 0, as ! 1, Int64 (-1), NullPtr, NullPtr])
     else if Some f \<in> set (DeallocFunctions ts) then
       Some (''deallocHook'', [as ! 0, as ! 1, Int64 (-1)])
     else None)"
| "hook_for ts i = None"

lemma hook_for_target: "hook_for ts i \<noteq> None \<longleftrightarrow> is_target ts i"
  by (cases "(ts, i)" rule: hook_for.cases) (auto simp: is_target_def)

text \<open>The second list is the first with the hook of every target right behind it.\<close>

fun hooked :: "pre_targets \<Rightarrow> instr list \<Rightarrow> instr list \<Rightarrow> bool" where
  "hooked ts [] ys \<longleftrightarrow> ys = []"
| "hooked ts (i # is) ys \<longleftrightarrow>
    (case hook_for ts i of
       None \<Rightarrow> ys \<noteq> [] \<and> hd ys = i \<and> hooked ts is (tl ys)
     | Some (name, as) \<Rightarrow>
         2 < length ys \<and> hd ys = i \<and> ys ! 1 = CallBase (inst_id (ys ! 1)) CallInst (Func name) as \<and>
         hooked ts is (drop 2 ys))"

text \<open>No hook is itself a function to hook, and the targets are called by \<open>call\<close>.\<close>

definition no_hook_target :: "pre_targets \<Rightarrow> bool" where
  "no_hook_target ts \<longleftrightarrow>
    (\<forall>h\<in>set [''allocHook'', ''reallocHook'', ''deallocHook''].
      Some h \<notin> set (AllocFunctions ts @ ReallocFunctions ts @ DeallocFunctions ts))"

definition plain_call :: "pre_targets \<Rightarrow> instr \<Rightarrow> bool" where
  "plain_call ts i \<longleftrightarrow> (is_target ts i \<longrightarrow> call_kind i = CallInst)"

text \<open>The walk as a recursion over the list of instructions.\<close>

fun instrument :: "pre_targets \<Rightarrow> instr list \<Rightarrow> pre_state \<Rightarrow> pass_error + instr list \<times> pre_state" where
  "instrument ts [] ps = Inr ([], ps)"
| "instrument ts (i # is) ps =
    and_then (getHookInst ts i ps) (\<lambda>(h, ps).
      (case h of
         None \<Rightarrow> and_then (instrument ts is ps) (\<lambda>(r, ps). Inr (i # r, ps))
       | Some h \<Rightarrow>
           (if is = [] then Inl NoInsertionPoint
            else and_then (instrument ts is (ps\<lparr>hook_count := hook_count ps + 1\<rparr>)) (\<lambda>(r, ps).
              Inr (i # h # r, ps)))))"

lemma getHookInst_None:
  "getHookInst ts i ps = Inr (None, ps') \<Longrightarrow> hook_for ts i = None \<and> ps' = ps"
  by (cases "(ts, i, ps)" rule: getHookInst.cases)
     (auto simp: Let_def and_then_eq_Inr create_call_def split: if_splits)

lemma getHookInst_Some:
  assumes "getHookInst ts i ps = Inr (Some h, ps')"
  shows "\<exists>name as. hook_for ts i = Some (name, as) \<and> h = CallBase (next_id ps) CallInst (Func name) as \<and>
    name \<in> set [''allocHook'', ''reallocHook'', ''deallocHook''] \<and> next_id ps' = Suc (next_id ps)"
  using assms
  by (cases "(ts, i, ps)" rule: getHookInst.cases)
     (auto simp: Let_def and_then_eq_Inr create_call_def getArgOperand_def getDummyID_def split: if_splits)

lemma getHookInst_not_target: "\<not> is_target ts i \<Longrightarrow> getHookInst ts i ps = Inr (None, ps)"
  by (cases "(ts, i, ps)" rule: getHookInst.cases) (auto simp: is_target_def)

lemma instrument_hooked: "instrument ts is ps = Inr (r, ps') \<Longrightarrow> hooked ts is r"
proof (induction "is" arbitrary: ps r)
  case (Cons i "is")
  then obtain h ps1 where h: "getHookInst ts i ps = Inr (h, ps1)"
    by (auto simp: and_then_eq_Inr)
  show ?case
  proof (cases h)
    case None
    then show ?thesis
      using Cons.prems Cons.IH h getHookInst_None [of ts i ps ps1] by (auto simp: and_then_eq_Inr)
  next
    case (Some j)
    then obtain r' where r: "is \<noteq> []" "instrument ts is (ps1\<lparr>hook_count := hook_count ps1 + 1\<rparr>) = Inr (r', ps')"
      "r = i # j # r'"
      using Cons.prems h by (auto simp: and_then_eq_Inr split: if_splits)
    then have "hooked ts is r'" using Cons.IH by blast
    moreover from this r(1) have "r' \<noteq> []"
      by (cases "is") (auto split: option.splits prod.splits)
    ultimately show ?thesis
      using getHookInst_Some [of ts i ps j ps1] h Some r(3) by auto
  qed
qed simp

lemma instrument_ids:
  "instrument ts is ps = Inr (r, ps') \<Longrightarrow>
    next_id ps \<le> next_id ps' \<and>
    mset (map inst_id r) = mset (map inst_id is) + mset [next_id ps..<next_id ps']"
proof (induction "is" arbitrary: ps r)
  case (Cons i "is")
  then obtain h ps1 where h: "getHookInst ts i ps = Inr (h, ps1)"
    by (auto simp: and_then_eq_Inr)
  show ?case
  proof (cases h)
    case None
    then obtain r' where r: "instrument ts is ps = Inr (r', ps')" "r = i # r'"
      using Cons.prems h getHookInst_None [of ts i ps ps1] by (auto simp: and_then_eq_Inr)
    then show ?thesis using Cons.IH [OF r(1)] by simp
  next
    case (Some j)
    then obtain r' where r: "instrument ts is (ps1\<lparr>hook_count := hook_count ps1 + 1\<rparr>) = Inr (r', ps')"
      "r = i # j # r'"
      using Cons.prems h by (auto simp: and_then_eq_Inr split: if_splits)
    have j: "inst_id j = next_id ps" "next_id ps1 = Suc (next_id ps)"
      using getHookInst_Some [of ts i ps j ps1] h Some by auto
    from Cons.IH [OF r(1)] j show ?thesis by (simp add: r(2) upt_conv_Cons)
  qed
qed simp

subsection \<open>The walk is the recursion\<close>

lemma next_after_split: "inst_id i \<notin> inst_id ` set xs \<Longrightarrow> next_after (inst_id i) (xs @ i # ys) = first_inst ys"
  by (induction xs) (auto simp: first_inst_def split: list.splits)

lemma insert_after_split: "inst_id i \<notin> inst_id ` set xs \<Longrightarrow> insert_after (inst_id i) h (xs @ i # ys) = xs @ i # h # ys"
  by (induction xs) auto

lemma first_inst_Cons [simp]: "first_inst [] = None" "first_inst (i # is) = Some i"
  by (simp_all add: first_inst_def)

lemma set_insts_twice [simp]: "set_insts l r (set_insts l is f) = set_insts l r f"
  by (auto simp: set_insts_def)

lemma set_insts_same: "distinct (map bb_label (fn_blocks f)) \<Longrightarrow> set_insts l (insts_of f l) f = f"
  by (auto simp: set_insts_def insts_of_block intro!: func.equality map_idI)

lemma hook_step_None:
  "getHookInst ts i ps = Inr (None, ps') \<Longrightarrow> hook_step api ts l i f ps = Inr (f, ps)"
  using getHookInst_None [of ts i ps ps'] by (cases i) (simp_all add: hook_step_def)

lemma hook_step_Inl: "getHookInst ts i ps = Inl e \<Longrightarrow> hook_step api ts l i f ps = Inl e"
  by (cases i) (simp_all add: hook_step_def)

lemma hook_step_Some:
  assumes "getHookInst ts i ps = Inr (Some h, ps')" and "plain_call ts i"
  shows "hook_step api ts l i f ps =
    (if next_after (inst_id i) (insts_of f l) = None then Inl NoInsertionPoint
     else Inr (set_insts l (insert_after (inst_id i) h (insts_of f l)) f, ps'\<lparr>hook_count := hook_count ps' + 1\<rparr>))"
proof -
  have "hook_for ts i \<noteq> None" using getHookInst_Some [OF assms(1)] by auto
  then have "call_kind i = CallInst" "\<exists>n k c as. i = CallBase n k c as"
    using assms(2) hook_for_target [of ts i] by (cases i; auto simp: plain_call_def)+
  then show ?thesis using assms(1) by (auto simp: hook_step_def Let_def)
qed

lemma hook_not_target:
  "no_hook_target ts \<Longrightarrow> name \<in> set [''allocHook'', ''reallocHook'', ''deallocHook''] \<Longrightarrow>
    \<not> is_target ts (CallBase n k (Func name) as)"
  by (auto simp: no_hook_target_def is_target_def)

text \<open>Over a target the walk inserts the hook and passes it.\<close>

lemma walk_over_hook:
  assumes hook: "getHookInst ts i ps = Inr (Some j, ps1)" and "no_hook_target ts" and "plain_call ts i"
    and block: "block_of g l \<noteq> None" and insts: "insts_of g l = pre @ i # is" and "is \<noteq> []"
    and fresh: "inst_id i \<notin> inst_id ` set pre" "\<forall>x\<in>set (pre @ [i]). inst_id x < next_id ps"
  shows "hook_insts api ts l (Some i) g ps =
    hook_insts api ts l (first_inst is) (set_insts l (pre @ i # j # is) g) (ps1\<lparr>hook_count := hook_count ps1 + 1\<rparr>)"
proof -
  let ?g = "set_insts l (pre @ i # j # is) g" and ?ps = "ps1\<lparr>hook_count := hook_count ps1 + 1\<rparr>"
  obtain name as where j: "j = CallBase (next_id ps) CallInst (Func name) as" "\<not> is_target ts j"
    using getHookInst_Some [OF hook] hook_not_target [OF assms(2)] by auto
  have after: "insts_of ?g l = (pre @ [i, j]) @ is"
    using insts_of_set_insts [OF block, of "pre @ i # j # is" l] by simp
  have "next_after (inst_id i) (insts_of g l) \<noteq> None"
    using next_after_split [OF fresh(1)] insts assms(6) by (cases "is") simp_all
  then have "hook_step api ts l i g ps = Inr (?g, ?ps)"
    using hook_step_Some [OF hook assms(3), of api l g] insert_after_split [OF fresh(1), of j "is"] insts by simp
  moreover have "next_after (inst_id i) (insts_of ?g l) = Some j"
    using next_after_split [OF fresh(1), of "j # is"] after by simp
  ultimately have "hook_insts api ts l (Some i) g ps = hook_insts api ts l (Some j) ?g ?ps"
    by (simp add: hook_insts.simps [of api ts l "Some i"])
  also have "\<dots> = hook_insts api ts l (first_inst is) ?g ?ps"
  proof -
    have "inst_id j \<notin> inst_id ` set (pre @ [i])" using fresh(2) j(1) by auto
    from next_after_split [OF this, of "is"] have "next_after (inst_id j) (insts_of ?g l) = first_inst is"
      using after by simp
    then show ?thesis
      using hook_step_None [OF getHookInst_not_target [OF j(2)], of api l ?g ?ps]
      by (simp add: hook_insts.simps [of api ts l "Some j"])
  qed
  finally show ?thesis .
qed

lemma walk:
  assumes "no_hook_target ts" and "\<forall>i\<in>set is. plain_call ts i" and "distinct (map inst_id (pre @ is))"
    and "\<forall>i\<in>set (pre @ is). inst_id i < next_id ps" and "block_of g l \<noteq> None"
    and "distinct (map bb_label (fn_blocks g))" and "insts_of g l = pre @ is"
  shows "hook_insts api ts l (first_inst is) g ps =
    Some (map_sum id (\<lambda>(r, ps). (set_insts l (pre @ r) g, ps)) (instrument ts is ps))"
  using assms(2-)
proof (induction "is" arbitrary: pre g ps)
  case Nil
  then show ?case using set_insts_same [of g l] by (simp add: hook_insts.simps)
next
  case (Cons i "is")
  have fresh: "inst_id i \<notin> inst_id ` set pre" using Cons.prems(2) by auto
  have next_i: "next_after (inst_id i) (insts_of g l) = first_inst is"
    using next_after_split [OF fresh] Cons.prems(6) by simp
  have plain: "plain_call ts i" using Cons.prems(1) by simp
  note unfold = hook_insts.simps [of api ts l "Some i" g ps]
  consider (stop) e where "getHookInst ts i ps = Inl e" | (none) ps1 where "getHookInst ts i ps = Inr (None, ps1)"
    | (hook) j ps1 where "getHookInst ts i ps = Inr (Some j, ps1)"
    by (cases "getHookInst ts i ps") force+
  then show ?case
  proof cases
    case stop
    then show ?thesis by (simp add: unfold hook_step_Inl [OF stop])
  next
    case none
    have "hook_insts api ts l (first_inst is) g ps =
        Some (map_sum id (\<lambda>(r, ps). (set_insts l ((pre @ [i]) @ r) g, ps)) (instrument ts is ps))"
      by (rule Cons.IH) (use Cons.prems in auto)
    moreover have "hook_insts api ts l (Some i) g ps = hook_insts api ts l (first_inst is) g ps"
      using unfold hook_step_None [OF none] next_i by simp
    ultimately show ?thesis
      using none getHookInst_None [OF none] by (cases "instrument ts is ps") auto
  next
    case hook
    show ?thesis
    proof (cases "is = []")
      case True
      then show ?thesis using hook next_i by (simp add: unfold hook_step_Some [OF hook plain, of api l g])
    next
      case False
      let ?g = "set_insts l (pre @ i # j # is) g" and ?ps = "ps1\<lparr>hook_count := hook_count ps1 + 1\<rparr>"
      obtain name as where j: "j = CallBase (next_id ps) CallInst (Func name) as" "next_id ps1 = Suc (next_id ps)"
        using getHookInst_Some [OF hook] by auto
      have "hook_insts api ts l (first_inst is) ?g ?ps =
          Some (map_sum id (\<lambda>(r, ps). (set_insts l ((pre @ [i, j]) @ r) ?g, ps)) (instrument ts is ?ps))"
      proof (rule Cons.IH)
        show "block_of ?g l \<noteq> None" using Cons.prems(4) by (simp add: block_of_set_insts)
        show "insts_of ?g l = (pre @ [i, j]) @ is"
          using insts_of_set_insts [OF Cons.prems(4), of "pre @ i # j # is" l] by simp
      qed (use Cons.prems j in \<open>auto simp: less_Suc_eq\<close>)
      moreover have "hook_insts api ts l (Some i) g ps = hook_insts api ts l (first_inst is) ?g ?ps"
        using Cons.prems by (intro walk_over_hook [OF hook assms(1) plain Cons.prems(4,6) False fresh]) auto
      ultimately show ?thesis using hook False by (cases "instrument ts is ?ps") auto
    qed
  qed
qed

subsection \<open>Blocks, functions and the module\<close>

text \<open>
  What the pass may expect of a block: target calls have the arguments the hook repeats, and a
  block ends with a terminator, which here is no target.
\<close>

definition enough_args :: "pre_targets \<Rightarrow> instr \<Rightarrow> bool" where
  "enough_args ts i \<longleftrightarrow>
    (case i of
       CallBase n k (Func f) as \<Rightarrow>
         (if Some f \<in> set (AllocFunctions ts) then 1 \<le> length as
          else if Some f \<in> set (ReallocFunctions ts) then 4 \<le> length as
          else if Some f \<in> set (DeallocFunctions ts) then 2 \<le> length as
          else True)
     | _ \<Rightarrow> True)"

definition hookable :: "pre_targets \<Rightarrow> instr list \<Rightarrow> bool" where
  "hookable ts is \<longleftrightarrow>
    (\<forall>i\<in>set is. plain_call ts i \<and> enough_args ts i) \<and> (is \<noteq> [] \<longrightarrow> \<not> is_target ts (last is))"

lemma getHookInst_enough: "enough_args ts i \<Longrightarrow> \<exists>h ps'. getHookInst ts i ps = Inr (h, ps')"
  by (cases "(ts, i, ps)" rule: getHookInst.cases)
     (auto simp: Let_def enough_args_def getArgOperand_def create_call_def split: if_splits)

lemma instrument_succeeds: "hookable ts is \<Longrightarrow> \<exists>r ps'. instrument ts is ps = Inr (r, ps')"
proof (induction "is" arbitrary: ps)
  case (Cons i "is")
  obtain h ps1 where h: "getHookInst ts i ps = Inr (h, ps1)"
    using getHookInst_enough [of ts i ps] Cons.prems by (auto simp: hookable_def)
  have rest: "hookable ts is" using Cons.prems by (auto simp: hookable_def split: if_splits)
  show ?case
  proof (cases h)
    case None
    then show ?thesis using h Cons.IH [OF rest, of ps1] by auto
  next
    case (Some j)
    then have "is_target ts i"
      using getHookInst_Some [of ts i ps j ps1] h hook_for_target [of ts i] by auto
    then have "is \<noteq> []" using Cons.prems by (auto simp: hookable_def)
    then show ?thesis
      using h Some Cons.IH [OF rest, of "ps1\<lparr>hook_count := hook_count ps1 + 1\<rparr>"] by auto
  qed
qed simp

lemma ids_split: "a \<le> b \<Longrightarrow> b \<le> c \<Longrightarrow> mset_set {a..<c::nat} = mset_set {a..<b} + mset_set {b..<c}"
  by (metis le_add_diff_inverse mset_append mset_upt upt_add_eq_append)

definition func_ids :: "func \<Rightarrow> inst_id list" where
  "func_ids f = concat (map (\<lambda>b. map inst_id (bb_insts b)) (fn_blocks f))"

lemma func_ids_set_insts:
  assumes "distinct (map bb_label (fn_blocks f))" and "l \<in> set (map bb_label (fn_blocks f))"
  shows "mset (func_ids (set_insts l is f)) + mset (map inst_id (insts_of f l)) =
    mset (func_ids f) + mset (map inst_id is)"
proof -
  have "mset (concat (map (\<lambda>b. map inst_id (bb_insts b)) (map (\<lambda>b. if bb_label b = l then b\<lparr>bb_insts := is\<rparr> else b) bs))) +
      mset (map inst_id (case find (\<lambda>b. bb_label b = l) bs of None \<Rightarrow> [] | Some b \<Rightarrow> bb_insts b)) =
      mset (concat (map (\<lambda>b. map inst_id (bb_insts b)) bs)) + mset (map inst_id is)"
    if "distinct (map bb_label bs)" "l \<in> set (map bb_label bs)" for bs
    using that
  proof (induction bs)
    case (Cons b bs)
    show ?case
    proof (cases "bb_label b = l")
      case True
      then have "map (\<lambda>b. if bb_label b = l then b\<lparr>bb_insts := is\<rparr> else b) bs = bs"
        using Cons.prems(1) by (intro map_idI) (auto simp: image_iff)
      then show ?thesis using True by (simp add: union_ac)
    next
      case False
      then show ?thesis using Cons by (simp add: union_ac)
    qed
  qed simp
  from this [OF assms] show ?thesis by (simp add: func_ids_def set_insts_def insts_of_def block_of_def)
qed

definition func_hooked :: "llvm_api \<Rightarrow> pre_targets \<Rightarrow> func \<Rightarrow> func \<Rightarrow> bool" where
  "func_hooked api ts f g \<longleftrightarrow>
    fn_name g = fn_name f \<and> map bb_label (fn_blocks g) = map bb_label (fn_blocks f) \<and>
    (\<forall>l\<in>set (map bb_label (fn_blocks f)).
      if l \<in> set (rpo api f) then hooked ts (insts_of f l) (insts_of g l) else insts_of g l = insts_of f l)"

lemma hook_blocks_spec:
  assumes "no_hook_target ts" and "distinct (map bb_label (fn_blocks f))"
    and "distinct ls" and "set ls \<subseteq> set (map bb_label (fn_blocks f))"
    and "\<forall>l\<in>set ls. hookable ts (insts_of f l) \<and> distinct (map inst_id (insts_of f l)) \<and>
      (\<forall>i\<in>set (insts_of f l). inst_id i < next_id ps)"
    and "map bb_label (fn_blocks g) = map bb_label (fn_blocks f)"
    and "\<forall>l\<in>set ls. insts_of g l = insts_of f l"
  shows "\<exists>g' ps'. hook_blocks api ts ls g ps = Some (Inr (g', ps')) \<and> fn_name g' = fn_name g \<and>
    map bb_label (fn_blocks g') = map bb_label (fn_blocks f) \<and>
    (\<forall>l. if l \<in> set ls then hooked ts (insts_of f l) (insts_of g' l) else insts_of g' l = insts_of g l) \<and>
    next_id ps \<le> next_id ps' \<and> mset (func_ids g') = mset (func_ids g) + mset [next_id ps..<next_id ps']"
  using assms(3-)
proof (induction ls arbitrary: g ps)
  case (Cons l ls)
  have block: "block_of g l \<noteq> None"
    using Cons.prems(2,4) block_of_label [of l g] by simp
  have insts: "insts_of g l = insts_of f l" using Cons.prems(5) by simp
  obtain r ps1 where r: "instrument ts (insts_of f l) ps = Inr (r, ps1)"
    using instrument_succeeds Cons.prems(3) by (metis list.set_intros(1))
  have step: "hook_insts api ts l (first_inst (insts_of g l)) g ps = Some (Inr (set_insts l r g, ps1))"
    using walk [OF assms(1), of "insts_of f l" "[]" ps g l api] Cons.prems(3,4) assms(2) block insts r
    by (simp add: hookable_def)
  note ids = instrument_ids [OF r]
  let ?g = "set_insts l r g"
  have "\<exists>g' ps'. hook_blocks api ts ls ?g ps1 = Some (Inr (g', ps')) \<and> fn_name g' = fn_name ?g \<and>
    map bb_label (fn_blocks g') = map bb_label (fn_blocks f) \<and>
    (\<forall>l. if l \<in> set ls then hooked ts (insts_of f l) (insts_of g' l) else insts_of g' l = insts_of ?g l) \<and>
    next_id ps1 \<le> next_id ps' \<and> mset (func_ids g') = mset (func_ids ?g) + mset [next_id ps1..<next_id ps']"
  proof (rule Cons.IH)
    show "\<forall>k\<in>set ls. insts_of ?g k = insts_of f k"
      using Cons.prems(1,5) insts_of_set_insts [OF block] by auto
    show "\<forall>l\<in>set ls. hookable ts (insts_of f l) \<and> distinct (map inst_id (insts_of f l)) \<and>
      (\<forall>i\<in>set (insts_of f l). inst_id i < next_id ps1)"
      using Cons.prems(3) ids by force
  qed (use Cons.prems in auto)
  then obtain g' ps' where g': "hook_blocks api ts ls ?g ps1 = Some (Inr (g', ps'))" "fn_name g' = fn_name g"
    "map bb_label (fn_blocks g') = map bb_label (fn_blocks f)"
    "\<And>l. if l \<in> set ls then hooked ts (insts_of f l) (insts_of g' l) else insts_of g' l = insts_of ?g l"
    "next_id ps1 \<le> next_id ps'" "mset (func_ids g') = mset (func_ids ?g) + mset [next_id ps1..<next_id ps']"
    by auto
  have "mset (func_ids ?g) = mset (func_ids g) + mset [next_id ps..<next_id ps1]"
    using func_ids_set_insts [of g l r] Cons.prems(2,4) assms(2) insts ids by simp
  then have "mset (func_ids g') = mset (func_ids g) + mset [next_id ps..<next_id ps']"
    using g'(5,6) ids ids_split [of "next_id ps" "next_id ps1" "next_id ps'"] by (simp add: union_ac)
  moreover have "if k \<in> set (l # ls) then hooked ts (insts_of f k) (insts_of g' k) else insts_of g' k = insts_of g k" for k
    using g'(4) [of k] instrument_hooked [OF r] insts_of_set_insts [OF block, of r k] Cons.prems(1)
    by (cases "k = l") auto
  ultimately show ?case using step g'(1-3,5) ids by auto
qed simp

lemma hook_funcs_spec:
  assumes "no_hook_target ts"
    and "\<forall>f\<in>set fs. distinct (map bb_label (fn_blocks f)) \<and> (\<not> is_declaration f \<longrightarrow> rpo_ok api f) \<and>
      (\<forall>b\<in>set (fn_blocks f). hookable ts (bb_insts b) \<and> distinct (map inst_id (bb_insts b)) \<and>
        (\<forall>i\<in>set (bb_insts b). inst_id i < next_id ps))"
  shows "\<exists>gs ps'. hook_funcs api ts fs ps = Some (Inr (gs, ps')) \<and>
    list_all2 (\<lambda>f g. if is_declaration f then g = f else func_hooked api ts f g) fs gs \<and>
    next_id ps \<le> next_id ps' \<and>
    mset (concat (map func_ids gs)) = mset (concat (map func_ids fs)) + mset [next_id ps..<next_id ps']"
  using assms(2)
proof (induction fs arbitrary: ps)
  case (Cons f fs)
  have f: "distinct (map bb_label (fn_blocks f))" "\<not> is_declaration f \<longrightarrow> rpo_ok api f"
    "\<forall>b\<in>set (fn_blocks f). hookable ts (bb_insts b) \<and> distinct (map inst_id (bb_insts b)) \<and>
      (\<forall>i\<in>set (bb_insts b). inst_id i < next_id ps)" using Cons.prems by auto
  have "\<exists>g ps1. (if is_declaration f then Some (Inr (f, ps)) else hook_blocks api ts (rpo api f) f ps) = Some (Inr (g, ps1)) \<and>
    (if is_declaration f then g = f else func_hooked api ts f g) \<and> next_id ps \<le> next_id ps1 \<and>
    mset (func_ids g) = mset (func_ids f) + mset [next_id ps..<next_id ps1]"
  proof (cases "is_declaration f")
    case False
    have "\<forall>l\<in>set (rpo api f). hookable ts (insts_of f l) \<and> distinct (map inst_id (insts_of f l)) \<and>
        (\<forall>i\<in>set (insts_of f l). inst_id i < next_id ps)"
      using f(2,3) False insts_of_block [OF _ f(1)] by (fastforce simp: rpo_ok_def)
    from hook_blocks_spec [OF assms(1) f(1) _ _ this refl, of api] f(2) False
    obtain g ps1 where g: "hook_blocks api ts (rpo api f) f ps = Some (Inr (g, ps1))" "fn_name g = fn_name f"
      "map bb_label (fn_blocks g) = map bb_label (fn_blocks f)"
      "\<And>l. if l \<in> set (rpo api f) then hooked ts (insts_of f l) (insts_of g l) else insts_of g l = insts_of f l"
      "next_id ps \<le> next_id ps1" "mset (func_ids g) = mset (func_ids f) + mset [next_id ps..<next_id ps1]"
      by (auto simp: rpo_ok_def)
    then have "func_hooked api ts f g" unfolding func_hooked_def by blast
    with g(1,5,6) False show ?thesis by simp
  qed simp
  then obtain g ps1 where g: "(if is_declaration f then Some (Inr (f, ps)) else hook_blocks api ts (rpo api f) f ps) = Some (Inr (g, ps1))"
    "if is_declaration f then g = f else func_hooked api ts f g" "next_id ps \<le> next_id ps1"
    "mset (func_ids g) = mset (func_ids f) + mset [next_id ps..<next_id ps1]" by blast
  have "\<forall>f\<in>set fs. distinct (map bb_label (fn_blocks f)) \<and> (\<not> is_declaration f \<longrightarrow> rpo_ok api f) \<and>
      (\<forall>b\<in>set (fn_blocks f). hookable ts (bb_insts b) \<and> distinct (map inst_id (bb_insts b)) \<and>
        (\<forall>i\<in>set (bb_insts b). inst_id i < next_id ps1))"
    using Cons.prems g(3) by (meson list.set_intros(2) order_less_le_trans)
  from Cons.IH [OF this] obtain gs ps' where gs: "hook_funcs api ts fs ps1 = Some (Inr (gs, ps'))"
    "list_all2 (\<lambda>f g. if is_declaration f then g = f else func_hooked api ts f g) fs gs"
    "next_id ps1 \<le> next_id ps'"
    "mset (concat (map func_ids gs)) = mset (concat (map func_ids fs)) + mset [next_id ps1..<next_id ps']" by blast
  show ?case using g gs ids_split [OF g(3) gs(3)] by (auto simp: union_ac)
qed simp

lemma func_ids_all: "map inst_id (all_insts m) = concat (map func_ids (mod_funcs m))"
  by (simp add: all_insts_def func_ids_def [abs_def] map_concat o_def)

lemma block_insts_distinct:
  "distinct (map inst_id (all_insts m)) \<Longrightarrow> f \<in> set (mod_funcs m) \<Longrightarrow> b \<in> set (fn_blocks f) \<Longrightarrow>
    distinct (map inst_id (bb_insts b))"
proof -
  assume d: "distinct (map inst_id (all_insts m))" and f: "f \<in> set (mod_funcs m)" and b: "b \<in> set (fn_blocks f)"
  have "distinct (func_ids f)" using d f by (simp add: func_ids_all distinct_concat_iff)
  then show ?thesis using b by (simp add: func_ids_def distinct_concat_iff)
qed

lemma declare_hooks_keeps:
  "all_insts (declare_hooks m) = all_insts m"
  "\<exists>ds. mod_funcs (declare_hooks m) = mod_funcs m @ ds \<and> (\<forall>d\<in>set ds. is_declaration d)"
  "distinct (map fn_name (mod_funcs m)) \<Longrightarrow> distinct (map fn_name (mod_funcs (declare_hooks m)))"
proof -
  have one: "all_insts (getOrInsertFunction name m) = all_insts m \<and>
    (\<exists>ds. mod_funcs (getOrInsertFunction name m) = mod_funcs m @ ds \<and> (\<forall>d\<in>set ds. is_declaration d)) \<and>
    (distinct (map fn_name (mod_funcs m)) \<longrightarrow> distinct (map fn_name (mod_funcs (getOrInsertFunction name m))))" for name m
    by (auto simp: getOrInsertFunction_def all_insts_def is_declaration_def get_function_def find_None_iff)
  show "all_insts (declare_hooks m) = all_insts m" by (simp add: declare_hooks_def one)
  show "distinct (map fn_name (mod_funcs m)) \<Longrightarrow> distinct (map fn_name (mod_funcs (declare_hooks m)))"
    by (simp add: declare_hooks_def one)
  let ?m1 = "getOrInsertFunction ''allocHook'' m" and ?m2 = "getOrInsertFunction ''reallocHook'' (getOrInsertFunction ''allocHook'' m)"
  obtain d1 d2 d3 where "mod_funcs ?m1 = mod_funcs m @ d1" "mod_funcs ?m2 = mod_funcs ?m1 @ d2"
    "mod_funcs (declare_hooks m) = mod_funcs ?m2 @ d3" "\<forall>d\<in>set (d1 @ d2 @ d3). is_declaration d"
    using one [of "''allocHook''" m] one [of "''reallocHook''" ?m1] one [of "''deallocHook''" ?m2]
    unfolding declare_hooks_def by (metis UnE set_append)
  then show "\<exists>ds. mod_funcs (declare_hooks m) = mod_funcs m @ ds \<and> (\<forall>d\<in>set ds. is_declaration d)"
    by (intro exI [of _ "d1 @ d2 @ d3"]) simp
qed

subsection \<open>Properties\<close>

definition pre_input_ok :: "llvm_api \<Rightarrow> pre_targets \<Rightarrow> ir_module \<Rightarrow> pre_state \<Rightarrow> bool" where
  "pre_input_ok api ts m ps \<longleftrightarrow>
    well_formed m \<and> no_hook_target ts \<and>
    (\<forall>f\<in>set (mod_funcs m). rpo_ok api f \<and> (\<forall>b\<in>set (fn_blocks f). hookable ts (bb_insts b))) \<and>
    (\<forall>i\<in>set (all_insts m). inst_id i < next_id ps)"

definition module_hooked :: "llvm_api \<Rightarrow> pre_targets \<Rightarrow> ir_module \<Rightarrow> ir_module \<Rightarrow> bool" where
  "module_hooked api ts m m' \<longleftrightarrow>
    list_all2 (\<lambda>f g. if is_declaration f then g = f else func_hooked api ts f g)
      (mod_funcs (declare_hooks m)) (mod_funcs m')"

lemma list_all2_map_eq: "list_all2 P xs ys \<Longrightarrow> (\<And>x y. P x y \<Longrightarrow> g y = g x) \<Longrightarrow> map g ys = map g xs"
  by (induction rule: list_all2_induct) auto

lemma module_hooked_names:
  assumes "module_hooked api ts m m'"
  shows "map fn_name (mod_funcs m') = map fn_name (mod_funcs (declare_hooks m))"
    "map (map bb_label \<circ> fn_blocks) (mod_funcs m') = map (map bb_label \<circ> fn_blocks) (mod_funcs (declare_hooks m))"
  using assms unfolding module_hooked_def
  by (auto elim!: list_all2_map_eq simp: func_hooked_def split: if_splits)

lemma run_pre_result:
  assumes "ts = find_targets (read_options env opts) m" and "pre_input_ok api ts m ps"
  shows "\<exists>m' ps'. run_pre api env opts m ps = Some (Inr (m', ps')) \<and> module_hooked api ts m m' \<and>
    well_formed m' \<and> next_id ps \<le> next_id ps'"
proof -
  let ?m = "declare_hooks m"
  have wf: "distinct (map inst_id (all_insts m))" "distinct (map fn_name (mod_funcs m))"
    "\<forall>f\<in>set (mod_funcs m). distinct (map bb_label (fn_blocks f))" and "no_hook_target ts"
    and in_m: "\<forall>f\<in>set (mod_funcs m). rpo_ok api f \<and> (\<forall>b\<in>set (fn_blocks f). hookable ts (bb_insts b))"
    and old: "\<forall>i\<in>set (all_insts m). inst_id i < next_id ps"
    using assms(2) by (simp_all add: pre_input_ok_def well_formed_def)
  obtain ds where ds: "mod_funcs ?m = mod_funcs m @ ds" "\<forall>d\<in>set ds. is_declaration d"
    using declare_hooks_keeps(2) by blast
  have "\<forall>f\<in>set (mod_funcs ?m). distinct (map bb_label (fn_blocks f)) \<and> (\<not> is_declaration f \<longrightarrow> rpo_ok api f) \<and>
      (\<forall>b\<in>set (fn_blocks f). hookable ts (bb_insts b) \<and> distinct (map inst_id (bb_insts b)) \<and>
        (\<forall>i\<in>set (bb_insts b). inst_id i < next_id ps))"
  proof
    fix f assume "f \<in> set (mod_funcs ?m)"
    then consider "f \<in> set (mod_funcs m)" | "fn_blocks f = []" using ds by (auto simp: is_declaration_def)
    then show "distinct (map bb_label (fn_blocks f)) \<and> (\<not> is_declaration f \<longrightarrow> rpo_ok api f) \<and>
      (\<forall>b\<in>set (fn_blocks f). hookable ts (bb_insts b) \<and> distinct (map inst_id (bb_insts b)) \<and>
        (\<forall>i\<in>set (bb_insts b). inst_id i < next_id ps))"
    proof cases
      case 1
      then show ?thesis
        using wf(3) in_m old block_insts_distinct [OF wf(1)] by (fastforce simp: all_insts_def)
    qed (simp add: is_declaration_def)
  qed
  from hook_funcs_spec [OF \<open>no_hook_target ts\<close> this]
  obtain gs ps' where gs: "hook_funcs api ts (mod_funcs ?m) ps = Some (Inr (gs, ps'))"
    "list_all2 (\<lambda>f g. if is_declaration f then g = f else func_hooked api ts f g) (mod_funcs ?m) gs"
    "next_id ps \<le> next_id ps'"
    "mset (concat (map func_ids gs)) = mset (concat (map func_ids (mod_funcs ?m))) + mset [next_id ps..<next_id ps']"
    by blast
  let ?m' = "?m\<lparr>mod_funcs := gs\<rparr>"
  have run: "run_pre api env opts m ps = Some (Inr (?m', ps'))"
    using gs(1) by (simp add: run_pre_def hookFunctions_def assms(1))
  have hooked: "module_hooked api ts m ?m'" using gs(2) by (simp add: module_hooked_def)
  have "mset (map inst_id (all_insts ?m')) = mset (map inst_id (all_insts m) @ [next_id ps..<next_id ps'])"
    using gs(4) declare_hooks_keeps(1) [of m] func_ids_all [of ?m'] func_ids_all [of ?m] by simp
  moreover have "distinct (map inst_id (all_insts m) @ [next_id ps..<next_id ps'])"
    using wf(1) old by auto
  ultimately have "distinct (map inst_id (all_insts ?m'))"
    by (metis mset_eq_imp_distinct_iff)
  moreover have "distinct (map fn_name (mod_funcs ?m'))"
    using module_hooked_names(1) [OF hooked] declare_hooks_keeps(3) [OF wf(2)] by simp
  moreover have "\<forall>ls\<in>set (map (map bb_label \<circ> fn_blocks) (mod_funcs ?m')). distinct ls"
    unfolding module_hooked_names(2) [OF hooked] using wf(3) ds by (auto simp: is_declaration_def)
  ultimately have "well_formed ?m'" by (simp add: well_formed_def)
  then show ?thesis using run hooked gs(3) by blast
qed

text \<open>A source module, and a run in an environment without the variables.\<close>

definition demo_source :: ir_module where
  "demo_source =
    \<lparr>mod_funcs =
      [\<lparr>fn_name = ''trusted_malloc'', fn_blocks = []\<rparr>, \<lparr>fn_name = ''untrusted_malloc'', fn_blocks = []\<rparr>,
       \<lparr>fn_name = ''trusted_free'', fn_blocks = []\<rparr>,
       \<lparr>fn_name = ''f'', fn_blocks =
         [\<lparr>bb_label = 0, bb_name = ''entry'', bb_insts =
            [CallBase 0 CallInst (Func ''trusted_malloc'') [Int64 16], OtherInst 1 [Result 0]]\<rparr>,
          \<lparr>bb_label = 1, bb_name = [], bb_insts =
            [CallBase 2 CallInst (Func ''trusted_malloc'') [Int64 32],
             CallBase 3 CallInst (Func ''trusted_free'') [Result 0, Int64 16], OtherInst 4 []]\<rparr>]\<rparr>],
     mod_AllocSiteTotal = None\<rparr>"

definition demo_pre_state :: pre_state where
  "demo_pre_state =
    \<lparr>hook_count = 0, alloc_hook_counter = 0, realloc_hook_counter = 0, dealloc_hook_counter = 0, next_id = 5\<rparr>"

definition no_options :: pre_options where
  "no_options = \<lparr>ProvSanAlloc = [], ProvSanRealloc = [], ProvSanFree = []\<rparr>"

definition demo_targets :: pre_targets where
  "demo_targets =
    \<lparr>AllocFunctions = [Some ''trusted_malloc''], ReallocFunctions = [None], DeallocFunctions = [Some ''trusted_free'']\<rparr>"

lemma demo_targets: "find_targets (read_options (\<lambda>_. None) no_options) demo_source = demo_targets"
  by code_simp

lemma demo_pre_input: "pre_input_ok demo_api demo_targets demo_source demo_pre_state"
  by code_simp

text \<open>C8: The pass returns on a well-formed module where the functions to hook are called by plain calls only, with
  as many arguments as their hooks read and not last in their block, no hook is a function to hook, and the traversal visits
  a block once. Behind every call of a target in a block the
  traversal visits stands the call of its hook, with the result, the repeated arguments and the
  placeholder identifier and names; nothing else changes, and the module stays well formed.\<close>

theorem pre_pass_hooks_calls:
  assumes "ts = find_targets (read_options env opts) m" and "pre_input_ok api ts m ps"
  shows "\<exists>m' ps'. run_pre api env opts m ps = Some (Inr (m', ps')) \<and> module_hooked api ts m m' \<and> well_formed m'"
  using run_pre_result [OF assms] by blast

theorem pre_pass_hooks_calls_witness:
  "\<exists>m' ps'. run_pre demo_api (\<lambda>_. None) no_options demo_source demo_pre_state = Some (Inr (m', ps')) \<and>
    module_hooked demo_api demo_targets demo_source m' \<and> well_formed m'"
  by (rule pre_pass_hooks_calls [OF demo_targets [symmetric] demo_pre_input])

text \<open>A target call that is too short is read beyond its arguments, as \<open>realloc\<close> and \<open>free\<close> of C.\<close>

lemma hook_argument_bounds:
  "getHookInst ts i ps = Inl e \<longleftrightarrow> e = ArgOutOfRange \<and> \<not> enough_args ts i"
  by (cases "(ts, i, ps)" rule: getHookInst.cases)
     (auto simp: Let_def enough_args_def getArgOperand_def create_call_def Suc_le_eq split: if_splits)

end
