(* ===== verification/Diagnostics.thy ===== *)
theory Diagnostics
  imports Module_IR
begin

section \<open>The message for a call that leaks\<close>

text \<open>
  \<open>PrintFaultingLocation\<close> and \<open>getDiagMessage\<close> of \<open>DynUntrustedAllocPost.cpp\<close>: the position of an
  allocation call, with the calls it was inlined at, the outermost one highlighted. The terminal
  is a list of texts and changes of colour.
\<close>

datatype colour = YELLOW | WHITE | HighlightError | DefaultColor

datatype stream_item = Out string | ChangeColor colour

definition position_text :: "string \<Rightarrow> nat \<Rightarrow> nat \<Rightarrow> string" where
  "position_text file_name line col =
    file_name @ '':'' @ base_text 10 line @ (if col \<noteq> 0 then '':'' @ base_text 10 col else [])"

definition inlined_text :: string where
  "inlined_text = [CHR 0x0A, CHR 0x09] @ ''Inlined @[ ''"

fun getDiagMessage :: "debug_loc \<Rightarrow> bool \<Rightarrow> stream_item list" where
  "getDiagMessage (DebugLoc f l c None) first =
    [ChangeColor YELLOW, Out (position_text f l c), ChangeColor WHITE]"
| "getDiagMessage (DebugLoc f l c (Some InlinedAtDL)) first =
    [Out (position_text f l c), Out (if first then [] else '' ]''), Out inlined_text]
    @ getDiagMessage InlinedAtDL False @ [Out (if first then '' ]'' else [])]"

definition PrintFaultingLocation :: "debug_loc option \<Rightarrow> pass_error + stream_item list" where
  "PrintFaultingLocation DI =
    (case DI of
       None \<Rightarrow> Inl NoDebugLocation
     | Some loc \<Rightarrow>
         Inr ([ChangeColor HighlightError, Out ''Error'', ChangeColor DefaultColor, ChangeColor WHITE,
               Out '': Compartment Violation from memory originally allocated at '', ChangeColor WHITE]
              @ getDiagMessage loc True @ [Out [CHR 0x0A]]))"

subsection \<open>What is read on the terminal\<close>

text \<open>The text without colours, and the text in one colour.\<close>

fun plain_text :: "stream_item list \<Rightarrow> string" where
  "plain_text [] = []"
| "plain_text (Out t # is) = t @ plain_text is"
| "plain_text (ChangeColor c # is) = plain_text is"

fun text_in :: "colour \<Rightarrow> colour \<Rightarrow> stream_item list \<Rightarrow> string" where
  "text_in k now [] = []"
| "text_in k now (Out t # is) = (if now = k then t else []) @ text_in k now is"
| "text_in k now (ChangeColor c # is) = text_in k c is"

text \<open>The positions of a location, the innermost first.\<close>

fun frames :: "debug_loc \<Rightarrow> string list" where
  "frames (DebugLoc f l c None) = [position_text f l c]"
| "frames (DebugLoc f l c (Some at)) = position_text f l c # frames at"

fun final_color :: "colour \<Rightarrow> stream_item list \<Rightarrow> colour" where
  "final_color now [] = now"
| "final_color now (Out t # is) = final_color now is"
| "final_color now (ChangeColor c # is) = final_color c is"

lemma plain_text_append [simp]: "plain_text (xs @ ys) = plain_text xs @ plain_text ys"
  by (induction xs rule: plain_text.induct) auto

lemma text_in_append [simp]: "text_in k now (xs @ ys) = text_in k now xs @ text_in k (final_color now xs) ys"
  by (induction k now xs rule: text_in.induct) auto

lemma final_color_append [simp]: "final_color now (xs @ ys) = final_color (final_color now xs) ys"
  by (induction now xs rule: final_color.induct) auto

lemma frames_nonempty [simp]: "frames loc \<noteq> []"
  by (cases loc rule: frames.cases) auto

lemma getDiagMessage_text:
  "plain_text (getDiagMessage loc first) =
    hd (frames loc) @ (if first \<or> tl (frames loc) = [] then [] else '' ]'') @
    concat (map (\<lambda>p. inlined_text @ p @ '' ]'') (butlast (tl (frames loc)))) @
    (if tl (frames loc) = [] then [] else inlined_text @ last (frames loc) @ (if first then '' ]'' else []))"
proof (induction loc first rule: getDiagMessage.induct)
  case (2 f l c at first)
  then show ?case by (cases "frames at") auto
qed simp

lemma getDiagMessage_highlight:
  "now \<noteq> YELLOW \<Longrightarrow> text_in YELLOW now (getDiagMessage loc first) = last (frames loc) \<and>
    final_color now (getDiagMessage loc first) = WHITE"
  by (induction loc first rule: getDiagMessage.induct) auto

lemma violation_text:
  assumes "PrintFaultingLocation (Some loc) = Inr msg"
  shows "plain_text msg = ''Error: Compartment Violation from memory originally allocated at '' @
      hd (frames loc) @ concat (map (\<lambda>p. inlined_text @ p @ '' ]'') (tl (frames loc))) @ [CHR 0x0A]"
    "text_in YELLOW now msg = last (frames loc)"
proof -
  have "concat (map g (tl (frames loc))) =
      concat (map g (butlast (tl (frames loc)))) @ (if tl (frames loc) = [] then [] else g (last (frames loc)))" for g :: "string \<Rightarrow> string"
    by (cases "tl (frames loc)" rule: rev_cases) (auto simp: last_tl [symmetric])
  then show "plain_text msg = ''Error: Compartment Violation from memory originally allocated at '' @
      hd (frames loc) @ concat (map (\<lambda>p. inlined_text @ p @ '' ]'') (tl (frames loc))) @ [CHR 0x0A]"
    using assms by (auto simp: PrintFaultingLocation_def getDiagMessage_text)
  show "text_in YELLOW now msg = last (frames loc)"
    using assms getDiagMessage_highlight [of WHITE loc True] by (auto simp: PrintFaultingLocation_def)
qed

end
