(* ===== verification/Fault_Profile.thy ===== *)
theory Fault_Profile
  imports Pass_Options Std_Containers
begin

section \<open>Reading profiles\<close>

text \<open>
  The part of \<open>Passes/DynUntrustedAllocPost/DynUntrustedAllocPost.cpp\<close> that turns the profiles of
  earlier runs into a map from function names and local identifiers to faulting sites:
  \<open>fromJSON\<close>, \<open>getFaultPaths\<close>, \<open>parseJSONArrayFile\<close> and \<open>getFaultingAllocMap\<close>. LLVM's file
  system and JSON parser are the record \<open>file_env\<close>; the two integers that \<open>fromJSON\<close> leaves
  uninitialised are arguments.
\<close>

text \<open>A number is known by what \<open>getAsInteger\<close> says of it.\<close>

datatype json =
    JNull
  | JBool bool
  | JNumber "i64 option"
  | JString string
  | JArray "json list"
  | JObject "(string \<times> json) list"

record FaultingSite =
  fs_localID :: u64
  fs_pkey :: u32
  fs_bbName :: string
  fs_funcName :: string

record file_env =
  fe_is_directory :: "string \<Rightarrow> bool"
  fe_entries :: "string \<Rightarrow> string list" \<comment> \<open>paths \<open>directory_iterator\<close> yields before an error\<close>
  fe_extension :: "string \<Rightarrow> string"
  fe_read :: "string \<Rightarrow> string option"
  fe_parse :: "string \<Rightarrow> json option"

type_synonym fault_map = "(string \<times> (u64 \<times> FaultingSite) list) list"

subsection \<open>One object\<close>

text \<open>
  \<open>ObjectMapper::map\<close>: whether the field has a value of the right type, and the variable
  afterwards, which keeps its old contents otherwise.
\<close>

definition map_int :: "(string \<times> json) list \<Rightarrow> string \<Rightarrow> i64 \<Rightarrow> bool \<times> i64" where
  "map_int ob prop old =
    (case map_of ob prop of
       Some (JNumber (Some n)) \<Rightarrow> (True, n)
     | _ \<Rightarrow> (False, old))"

definition map_str :: "(string \<times> json) list \<Rightarrow> string \<Rightarrow> string \<Rightarrow> bool \<times> string" where
  "map_str ob prop old =
    (case map_of ob prop of
       Some (JString s) \<Rightarrow> (True, s)
     | _ \<Rightarrow> (False, old))"

definition fromJSON :: "i64 \<Rightarrow> i64 \<Rightarrow> json \<Rightarrow> pass_error + FaultingSite option" where
  "fromJSON junk_id junk_pkey Alloc =
    (case Alloc of
       JObject ob \<Rightarrow>
         (let (temp_id_result, temp_id) = map_int ob ''id'' junk_id in
          if sint temp_id < 0 then Inr None
          else
            let (temp_pkey_result, temp_pkey) = map_int ob ''pkey'' junk_pkey in
            if sint temp_pkey < 0 then Inr None
            else
              let (temp_bbName_result, temp_bbName) = map_str ob ''bbName'' [] in
              if temp_bbName = [] then Inr None
              else
                let (temp_funcName_result, temp_funcName) = map_str ob ''funcName'' [] in
                if temp_funcName = [] then Inr None
                else if temp_id_result \<and> temp_pkey_result \<and> temp_bbName_result \<and> temp_funcName_result
                then Inr (Some \<lparr>fs_localID = temp_id, fs_pkey = ucast temp_pkey,
                                fs_bbName = temp_bbName, fs_funcName = temp_funcName\<rparr>)
                else Inr None)
     | _ \<Rightarrow> Inl NotAnObject)"

subsection \<open>Files\<close>

definition lower_char :: "char \<Rightarrow> char" where
  "lower_char c =
    (if 65 \<le> (of_char c :: nat) \<and> (of_char c :: nat) \<le> 90 then char_of ((of_char c :: nat) + 32) else c)"

definition getFaultPaths :: "file_env \<Rightarrow> string \<Rightarrow> string list" where
  "getFaultPaths fe path =
    (if fe_is_directory fe path
     then filter (\<lambda>p. map lower_char (fe_extension fe p) = ''.json'') (fe_entries fe path)
     else [path])"

definition parseJSONArrayFile :: "file_env \<Rightarrow> string \<Rightarrow> json list option" where
  "parseJSONArrayFile fe path =
    (case fe_read fe path of
       None \<Rightarrow> None
     | Some text \<Rightarrow>
         (case fe_parse fe text of
            Some (JArray xs) \<Rightarrow> Some xs
          | _ \<Rightarrow> None))"

subsection \<open>The fault map\<close>

definition add_fault :: "FaultingSite \<Rightarrow> fault_map \<Rightarrow> fault_map" where
  "add_fault fs m =
    (let m = (if map_of m (fs_funcName fs) = None then om_emplace (fs_funcName fs) [] m else m)
     in map (\<lambda>e. if fst e = fs_funcName fs then (fst e, om_emplace (fs_localID fs) fs (snd e)) else e) m)"

fun add_allocs :: "i64 \<Rightarrow> i64 \<Rightarrow> json list \<Rightarrow> fault_map \<Rightarrow> pass_error + fault_map" where
  "add_allocs j1 j2 [] m = Inr m"
| "add_allocs j1 j2 (a # as) m =
     and_then (fromJSON j1 j2 a) (\<lambda>r.
       case r of None \<Rightarrow> add_allocs j1 j2 as m | Some fs \<Rightarrow> add_allocs j1 j2 as (add_fault fs m))"

fun add_files :: "file_env \<Rightarrow> i64 \<Rightarrow> i64 \<Rightarrow> string list \<Rightarrow> fault_map \<Rightarrow> pass_error + fault_map" where
  "add_files fe j1 j2 [] m = Inr m"
| "add_files fe j1 j2 (p # ps) m =
     (case parseJSONArrayFile fe p of
        None \<Rightarrow> add_files fe j1 j2 ps m
      | Some xs \<Rightarrow> and_then (add_allocs j1 j2 xs m) (add_files fe j1 j2 ps))"

definition getFaultingAllocMap :: "file_env \<Rightarrow> i64 \<Rightarrow> i64 \<Rightarrow> string \<Rightarrow> pass_error + fault_map" where
  "getFaultingAllocMap fe j1 j2 path =
    (if path = [] then Inr [] else add_files fe j1 j2 (getFaultPaths fe path) [])"

text \<open>Looking a site up, as \<open>assignLocalIDs\<close> does.\<close>

definition fault_at :: "fault_map \<Rightarrow> string \<Rightarrow> u64 \<Rightarrow> FaultingSite option" where
  "fault_at m fn lid = (case map_of m fn of None \<Rightarrow> None | Some fm \<Rightarrow> map_of fm lid)"

subsection \<open>What the map holds\<close>

definition fault_map_inv :: "fault_map \<Rightarrow> bool" where
  "fault_map_inv m \<longleftrightarrow> om_invar m \<and> (\<forall>e\<in>set m. om_invar (snd e))"

lemma map_of_map_snd:
  "map_of (map (\<lambda>e. if fst e = k then (fst e, g (snd e)) else e) m) q =
    (if q = k then map_option g (map_of m q) else map_of m q)"
  by (induction m) auto

lemma om_invar_map_snd: "om_invar (map (\<lambda>e. if fst e = k then (fst e, g (snd e)) else e) m) \<longleftrightarrow> om_invar m"
proof -
  have "map fst (map (\<lambda>e. if fst e = k then (fst e, g (snd e)) else e) m) = map fst m"
    by simp
  then show ?thesis by (simp only: om_invar_def)
qed

lemma set_om_emplace_sub: "set (om_emplace k v m) \<subseteq> insert (k, v) (set m)"
  by (induction k v m rule: om_emplace.induct) auto

lemma add_fault_inv: "fault_map_inv m \<Longrightarrow> fault_map_inv (add_fault fs m)"
  using set_om_emplace_sub [of "fs_funcName fs" "[]" m]
  by (fastforce simp: fault_map_inv_def add_fault_def Let_def om_invar_map_snd om_invar_emplace)

lemma fault_at_add:
  assumes "fault_map_inv m"
  shows "fault_at (add_fault fs m) fn lid =
    (case fault_at m fn lid of
       Some x \<Rightarrow> Some x
     | None \<Rightarrow> (if fn = fs_funcName fs \<and> lid = fs_localID fs then Some fs else None))"
proof -
  have outer: "om_invar m" using assms by (simp add: fault_map_inv_def)
  have inner: "om_invar fm" if "map_of m k = Some fm" for k fm
    using assms that by (fastforce simp: fault_map_inv_def dest: map_of_SomeD)
  show ?thesis
    using outer inner
    by (auto simp: fault_at_def add_fault_def Let_def map_of_map_snd map_of_om_emplace
        split: option.splits)
qed

lemma add_allocs_result:
  assumes "add_allocs j1 j2 as m = Inr m'" and "fault_map_inv m"
  shows "fault_map_inv m' \<and>
    (fault_at m' fn lid \<noteq> None \<longleftrightarrow> fault_at m fn lid \<noteq> None \<or>
      (\<exists>a\<in>set as. \<exists>fs. fromJSON j1 j2 a = Inr (Some fs) \<and> fs_funcName fs = fn \<and> fs_localID fs = lid))"
  using assms
proof (induction as arbitrary: m)
  case Nil
  then show ?case by simp
next
  case (Cons a as)
  then obtain r where r: "fromJSON j1 j2 a = Inr r"
    "(case r of None \<Rightarrow> add_allocs j1 j2 as m | Some fs \<Rightarrow> add_allocs j1 j2 as (add_fault fs m)) = Inr m'"
    by (auto simp: and_then_eq_Inr)
  show ?case
  proof (cases r)
    case None
    then show ?thesis using r Cons.IH [of m] Cons.prems(2) by simp
  next
    case (Some fs)
    then show ?thesis
      using r Cons.IH [of "add_fault fs m"] Cons.prems(2) add_fault_inv [of m fs] fault_at_add [of m fs fn lid]
      by (auto split: option.splits)
  qed
qed

lemma add_files_result:
  assumes "add_files fe j1 j2 ps m = Inr m'" and "fault_map_inv m"
  shows "fault_at m' fn lid \<noteq> None \<longleftrightarrow> fault_at m fn lid \<noteq> None \<or>
    (\<exists>p\<in>set ps. \<exists>xs. parseJSONArrayFile fe p = Some xs \<and>
      (\<exists>a\<in>set xs. \<exists>fs. fromJSON j1 j2 a = Inr (Some fs) \<and> fs_funcName fs = fn \<and> fs_localID fs = lid))"
  using assms
proof (induction ps arbitrary: m)
  case Nil
  then show ?case by simp
next
  case (Cons p ps)
  show ?case
  proof (cases "parseJSONArrayFile fe p")
    case None
    then show ?thesis using Cons by simp
  next
    case (Some xs)
    with Cons.prems(1) obtain m1 where m1: "add_allocs j1 j2 xs m = Inr m1" "add_files fe j1 j2 ps m1 = Inr m'"
      by (auto simp: and_then_eq_Inr)
    then show ?thesis
      using Some Cons.IH [of m1] add_allocs_result [OF m1(1) Cons.prems(2), of fn lid] by auto
  qed
qed

lemma fault_map_inv_empty: "fault_map_inv []"
  by (simp add: fault_map_inv_def)

lemma fault_at_empty [simp]: "fault_at [] fn lid = None"
  by (simp add: fault_at_def)

subsection \<open>Properties\<close>

text \<open>The fields a profile entry must have.\<close>

definition entry_of :: "json \<Rightarrow> FaultingSite \<Rightarrow> bool" where
  "entry_of v fs \<longleftrightarrow>
    (\<exists>ob n pk. v = JObject ob \<and>
       map_of ob ''id'' = Some (JNumber (Some n)) \<and> 0 \<le> sint n \<and> fs_localID fs = n \<and>
       map_of ob ''pkey'' = Some (JNumber (Some pk)) \<and> 0 \<le> sint pk \<and> fs_pkey fs = ucast pk \<and>
       map_of ob ''bbName'' = Some (JString (fs_bbName fs)) \<and> fs_bbName fs \<noteq> [] \<and>
       map_of ob ''funcName'' = Some (JString (fs_funcName fs)) \<and> fs_funcName fs \<noteq> [])"

lemma map_int_iff: "map_int ob p old = (True, n) \<longleftrightarrow> map_of ob p = Some (JNumber (Some n))"
  by (auto simp: map_int_def split: option.splits json.splits)

lemma map_str_iff: "map_str ob p old = (True, s) \<longleftrightarrow> map_of ob p = Some (JString s)"
  by (auto simp: map_str_def split: option.splits json.splits)

lemma fromJSON_Some: "fromJSON j1 j2 v = Inr (Some fs) \<longleftrightarrow> entry_of v fs"
proof (cases v)
  case (JObject ob)
  obtain r1 n where 1: "map_int ob ''id'' j1 = (r1, n)" by fastforce
  obtain r2 pk where 2: "map_int ob ''pkey'' j2 = (r2, pk)" by fastforce
  obtain r3 bb where 3: "map_str ob ''bbName'' [] = (r3, bb)" by fastforce
  obtain r4 fn where 4: "map_str ob ''funcName'' [] = (r4, fn)" by fastforce
  show ?thesis
  proof
    assume "fromJSON j1 j2 v = Inr (Some fs)"
    then have ok: "r1" "r2" "r3" "r4" "0 \<le> sint n" "0 \<le> sint pk" "bb \<noteq> []" "fn \<noteq> []"
      and fs: "fs = \<lparr>fs_localID = n, fs_pkey = ucast pk, fs_bbName = bb, fs_funcName = fn\<rparr>"
      by (auto simp: fromJSON_def JObject 1 2 3 4 Let_def not_less split: if_splits)
    have "map_of ob ''id'' = Some (JNumber (Some n))" "map_of ob ''pkey'' = Some (JNumber (Some pk))"
      "map_of ob ''bbName'' = Some (JString bb)" "map_of ob ''funcName'' = Some (JString fn)"
      using map_int_iff [of ob "''id''" j1 n] map_int_iff [of ob "''pkey''" j2 pk]
        map_str_iff [of ob "''bbName''" "[]" bb] map_str_iff [of ob "''funcName''" "[]" fn]
        1 2 3 4 ok(1-4) by simp_all
    then show "entry_of v fs" using ok(5-8) by (simp add: entry_of_def JObject fs)
  next
    assume "entry_of v fs"
    then show "fromJSON j1 j2 v = Inr (Some fs)"
      by (cases fs) (auto simp: entry_of_def JObject fromJSON_def map_int_def map_str_def)
  qed
qed (auto simp: fromJSON_def entry_of_def)

lemma fromJSON_Inl: "fromJSON j1 j2 v = Inl e \<longleftrightarrow> e = NotAnObject \<and> (\<nexists>ob. v = JObject ob)"
  by (cases v) (auto simp: fromJSON_def Let_def case_prod_unfold)

text \<open>Reading an entry succeeds exactly for an object with an integer identifier and key that are
  not negative and two names that are not empty; whatever the two uninitialised integers hold
  when a field is missing, the result is the same.\<close>

lemma fromJSON_exact:
  "(fromJSON j1 j2 v = Inr (Some fs) \<longleftrightarrow> entry_of v fs) \<and> fromJSON j1 j2 v = fromJSON 0 0 v"
proof -
  have "fromJSON j1 j2 v = fromJSON 0 0 v"
  proof (cases "fromJSON 0 0 v")
    case (Inl e)
    then show ?thesis using fromJSON_Inl by metis
  next
    case (Inr r)
    then show ?thesis
      using fromJSON_Inl [of _ _ v] fromJSON_Some [of j1 j2 v] fromJSON_Some [of 0 0 v]
      by (metis option.exhaust sumE)
  qed
  then show ?thesis using fromJSON_Some by blast
qed

text \<open>C40: The map has an entry for a function and an identifier exactly when a profile file that can be
  read as a JSON array holds a valid entry for them; files that cannot be read and invalid
  entries are skipped.\<close>

theorem fault_map_complete:
  assumes "getFaultingAllocMap fe j1 j2 path = Inr m" and "path \<noteq> []"
  shows "fault_at m fn lid \<noteq> None \<longleftrightarrow>
    (\<exists>p\<in>set (getFaultPaths fe path). \<exists>xs. parseJSONArrayFile fe p = Some xs \<and>
      (\<exists>a\<in>set xs. \<exists>fs. entry_of a fs \<and> fs_funcName fs = fn \<and> fs_localID fs = lid))"
  using assms add_files_result [of fe j1 j2 _ "[]" m fn lid] fault_map_inv_empty
  by (simp add: getFaultingAllocMap_def fromJSON_Some)

theorem fault_map_complete_witness:
  "let entry = JObject [(''id'', JNumber (Some 3)), (''pkey'', JNumber (Some 1)),
        (''bbName'', JString ''block1''), (''funcName'', JString ''f'')];
      fe = \<lparr>fe_is_directory = (\<lambda>_. False), fe_entries = (\<lambda>_. []), fe_extension = (\<lambda>_. []),
            fe_read = (\<lambda>_. Some []), fe_parse = (\<lambda>_. Some (JArray [entry]))\<rparr>
    in \<exists>m. getFaultingAllocMap fe 0 0 ''p.json'' = Inr m \<and> fault_at m ''f'' 3 \<noteq> None \<and>
      fault_at m ''f'' 4 = None"
proof -
  let ?entry = "JObject [(''id'', JNumber (Some 3)), (''pkey'', JNumber (Some 1)),
        (''bbName'', JString ''block1''), (''funcName'', JString ''f'')]"
  let ?fe = "\<lparr>fe_is_directory = (\<lambda>_. False), fe_entries = (\<lambda>_. []), fe_extension = (\<lambda>_. []),
            fe_read = (\<lambda>_. Some []), fe_parse = (\<lambda>_. Some (JArray [?entry]))\<rparr>"
  have e: "fromJSON 0 0 ?entry = Inr (Some \<lparr>fs_localID = 3, fs_pkey = 1, fs_bbName = ''block1'', fs_funcName = ''f''\<rparr>)"
    by (simp add: fromJSON_def map_int_def map_str_def)
  have files: "getFaultPaths ?fe ''p.json'' = [''p.json'']" "parseJSONArrayFile ?fe ''p.json'' = Some [?entry]"
    by (simp_all add: getFaultPaths_def parseJSONArrayFile_def)
  then obtain m where m: "getFaultingAllocMap ?fe 0 0 ''p.json'' = Inr m"
    using e by (simp add: getFaultingAllocMap_def)
  have only: "entry_of ?entry fs \<longleftrightarrow> fs = \<lparr>fs_localID = 3, fs_pkey = 1, fs_bbName = ''block1'', fs_funcName = ''f''\<rparr>" for fs
    using fromJSON_Some [of 0 0 ?entry fs] e by auto
  show ?thesis
    using m fault_map_complete [OF m, of "''f''" 3] fault_map_complete [OF m, of "''f''" 4]
    unfolding files(1) Let_def by (simp add: files(2) only)
qed

end
