(* ===== verification/Post_Pass.thy ===== *)
theory Post_Pass
  imports Diagnostics Fault_Profile
begin

section \<open>The post pass\<close>

text \<open>
  \<open>Passes/DynUntrustedAllocPost/DynUntrustedAllocPost.cpp\<close>: every hook call gets the identifier
  of its position in its function and the names of its block and function; with a profile, the
  allocation calls whose hooks the profile names are collected and redirected to the untrusted
  allocator; with \<open>RemoveHooks\<close> the hooks are erased. The globals of the file are the record
  \<open>post_globals\<close>; instructions are collected by identifier.
\<close>

record hook_counts =
  n_allocHook :: int
  n_reallocHook :: int
  n_deallocHook :: int

record post_globals =
  hookList :: "inst_id list"
  patchList :: "inst_id list"
  total_hooks :: u64
  modified_inst_count :: u64
  hookCountMap :: hook_counts
  IDG :: u64
  err_stream :: "stream_item list" \<comment> \<open>the messages about the calls to redirect\<close>

definition post_globals0 :: post_globals where
  "post_globals0 =
    \<lparr>hookList = [], patchList = [], total_hooks = 0, modified_inst_count = 0,
     hookCountMap = \<lparr>n_allocHook = 0, n_reallocHook = 0, n_deallocHook = 0\<rparr>, IDG = 0, err_stream = []\<rparr>"

abbreviation deallocHookIndex :: int where "deallocHookIndex \<equiv> -1"

definition patchArgIndexMap :: "string \<Rightarrow> int option" where
  "patchArgIndexMap name =
    (if name = ''allocHook'' then Some 2
     else if name = ''reallocHook'' then Some 4
     else if name = ''deallocHook'' then Some deallocHookIndex
     else None)"

definition AllocReplacementMap :: "string \<Rightarrow> string option" where
  "AllocReplacementMap name =
    (if name = ''__rust_alloc'' then Some ''__rust_untrusted_alloc''
     else if name = ''trusted_malloc'' then Some ''untrusted_malloc''
     else if name = ''__rust_alloc_zeroed'' then Some ''__rust_untrusted_alloc_zeroed''
     else None)"

definition count_hook :: "string \<Rightarrow> hook_counts \<Rightarrow> hook_counts" where
  "count_hook name c =
    (if name = ''allocHook'' then c\<lparr>n_allocHook := n_allocHook c + 1\<rparr>
     else if name = ''reallocHook'' then c\<lparr>n_reallocHook := n_reallocHook c + 1\<rparr>
     else if name = ''deallocHook'' then c\<lparr>n_deallocHook := n_deallocHook c + 1\<rparr>
     else c)"

definition set_arg :: "nat \<Rightarrow> operand \<Rightarrow> operand list \<Rightarrow> pass_error + operand list" where
  "set_arg k v as = (if k < length as then Inr (as[k := v]) else Inl ArgOutOfRange)"

definition block_name :: "llvm_api \<Rightarrow> func \<Rightarrow> basic_block \<Rightarrow> string" where
  "block_name api f b =
    (if bb_name b = [] then ''block'' @ dec_int (local_slot api f (bb_label b)) else bb_name b)"

subsection \<open>Assigning identifiers\<close>

text \<open>The arguments of a numbered hook, with the names only when the hook stays.\<close>

definition hook_args ::
    "post_options \<Rightarrow> nat \<Rightarrow> u64 \<Rightarrow> string \<Rightarrow> string \<Rightarrow> operand list \<Rightarrow> pass_error + operand list" where
  "hook_args opts index lid bbName funcName as =
    and_then (set_arg index (Int64 lid) as) (\<lambda>as.
      if \<not> RemoveHooks opts then
        and_then (set_arg (index + 1) (GlobalStr bbName) as) (\<lambda>as.
          set_arg (index + 2) (GlobalStr funcName) as)
      else Inr as)"

text \<open>What is printed when the profile has another block for a hook than the module.\<close>

definition mismatch_text :: "FaultingSite \<Rightarrow> string \<Rightarrow> string" where
  "mismatch_text site bbName =
    ''ERROR : Faulting allocation site found in non-matching BasicBlock:'' @ [CHR 0x0A]
    @ ''AllocSite('' @ dec_u64 (fs_localID site) @ '', '' @ fs_funcName site @ '')'' @ [CHR 0x0A]
    @ ''TraceBlock('' @ fs_bbName site @ '') -> '' @ ''InstrBlock('' @ bbName @ '')'' @ [CHR 0x0A]"

text \<open>The part that collects the allocation call a hook belongs to.\<close>

definition collect_patch ::
    "llvm_api \<Rightarrow> fault_map \<Rightarrow> ir_module \<Rightarrow> string \<Rightarrow> string \<Rightarrow> u64 \<Rightarrow> operand list \<Rightarrow> post_globals
      \<Rightarrow> pass_error + post_globals" where
  "collect_patch api fault_map m funcName bbName lid as ps =
    (case map_of fault_map funcName of
       None \<Rightarrow> Inr ps
     | Some func_fault_map \<Rightarrow>
         (case as of
            Result a # _ \<Rightarrow>
              (case get_inst m a of
                 Some (CallBase _ _ _ _) \<Rightarrow>
                   (case map_of func_fault_map lid of
                      None \<Rightarrow> Inr ps
                    | Some site \<Rightarrow>
                        let ps = (if bbName \<noteq> fs_bbName site
                                  then ps\<lparr>err_stream := err_stream ps @ [Out (mismatch_text site bbName)]\<rparr> else ps);
                            ps = ps\<lparr>patchList := patchList ps @ [a]\<rparr>
                        in and_then (PrintFaultingLocation (debug_location api a)) (\<lambda>msg.
                          Inr (ps\<lparr>err_stream := err_stream ps @ msg\<rparr>)))
               | _ \<Rightarrow> Inr ps)
          | _ \<Rightarrow> Inr ps))"

text \<open>A hook is counted, and collected when it is going to be removed.\<close>

definition register_hook :: "post_options \<Rightarrow> string \<Rightarrow> inst_id \<Rightarrow> post_globals \<Rightarrow> post_globals" where
  "register_hook opts hook n ps =
    (let ps = ps\<lparr>hookCountMap := count_hook hook (hookCountMap ps), total_hooks := total_hooks ps + 1\<rparr>
     in if RemoveHooks opts then ps\<lparr>hookList := hookList ps @ [n]\<rparr> else ps)"

lemma register_hook_simps [simp]:
  "patchList (register_hook opts h n ps) = patchList ps" "IDG (register_hook opts h n ps) = IDG ps"
  "err_stream (register_hook opts h n ps) = err_stream ps"
  "hookList (register_hook opts h n ps) = hookList ps @ (if RemoveHooks opts then [n] else [])"
  by (simp_all add: register_hook_def Let_def)

fun assign_inst ::
    "llvm_api \<Rightarrow> post_options \<Rightarrow> fault_map \<Rightarrow> ir_module \<Rightarrow> string \<Rightarrow> string \<Rightarrow> instr \<Rightarrow> u64 \<Rightarrow> post_globals
      \<Rightarrow> pass_error + instr \<times> u64 \<times> post_globals" where
  "assign_inst api opts fault_map m funcName bbName (OtherInst n as) lid ps = Inr (OtherInst n as, lid, ps)"
| "assign_inst api opts fault_map m funcName bbName (CallBase n k c as) lid ps =
     (case c of
        Indirect \<Rightarrow> Inr (CallBase n k c as, lid, ps)
      | Func hook \<Rightarrow>
          (case patchArgIndexMap hook of
             None \<Rightarrow> Inr (CallBase n k c as, lid, ps)
           | Some index \<Rightarrow>
               let ps = register_hook opts hook n ps
               in if index = deallocHookIndex then Inr (CallBase n k c as, lid, ps)
                  else and_then (hook_args opts (nat index) lid bbName funcName as) (\<lambda>as.
                    and_then (if MPKProfilePath opts \<noteq> []
                              then collect_patch api fault_map m funcName bbName lid as ps else Inr ps) (\<lambda>ps.
                      Inr (CallBase n k c as, lid + 1, ps)))))"

fun assign_insts ::
    "llvm_api \<Rightarrow> post_options \<Rightarrow> fault_map \<Rightarrow> ir_module \<Rightarrow> string \<Rightarrow> string \<Rightarrow> instr list \<Rightarrow> u64
      \<Rightarrow> post_globals \<Rightarrow> pass_error + instr list \<times> u64 \<times> post_globals" where
  "assign_insts api opts fault_map m funcName bbName [] lid ps = Inr ([], lid, ps)"
| "assign_insts api opts fault_map m funcName bbName (i # is) lid ps =
     and_then (assign_inst api opts fault_map m funcName bbName i lid ps) (\<lambda>(i, lid, ps).
       and_then (assign_insts api opts fault_map m funcName bbName is lid ps) (\<lambda>(is, lid, ps).
         Inr (i # is, lid, ps)))"

text \<open>The blocks of a function in traversal order; the names and slots are those of \<open>f\<close>.\<close>

fun assign_blocks ::
    "llvm_api \<Rightarrow> post_options \<Rightarrow> fault_map \<Rightarrow> ir_module \<Rightarrow> func \<Rightarrow> label list \<Rightarrow> func \<Rightarrow> u64
      \<Rightarrow> post_globals \<Rightarrow> pass_error + func \<times> post_globals" where
  "assign_blocks api opts fault_map m f [] g lid ps = Inr (g, ps)"
| "assign_blocks api opts fault_map m f (l # ls) g lid ps =
     (case block_of f l of
        None \<Rightarrow> assign_blocks api opts fault_map m f ls g lid ps
      | Some b \<Rightarrow>
          and_then (assign_insts api opts fault_map m (fn_name f) (block_name api f b) (insts_of g l) lid ps)
            (\<lambda>(is, lid, ps). assign_blocks api opts fault_map m f ls (set_insts l is g) lid ps))"

definition assign_func ::
    "llvm_api \<Rightarrow> post_options \<Rightarrow> fault_map \<Rightarrow> ir_module \<Rightarrow> func \<Rightarrow> post_globals
      \<Rightarrow> pass_error + func \<times> post_globals" where
  "assign_func api opts fault_map m f ps = assign_blocks api opts fault_map m f (rpo api f) f 0 ps"

text \<open>
  \<open>funcSort\<close> orders by descending name. The class of the instruction a hook refers to does not
  change, so \<open>dyn_cast\<close> reads it off the module as it was.
\<close>

definition worklist :: "ir_module \<Rightarrow> func list" where
  "worklist m = rev (sort_key fn_name (filter (\<lambda>f. \<not> is_declaration f) (mod_funcs m)))"

definition replace_func :: "func \<Rightarrow> ir_module \<Rightarrow> ir_module" where
  "replace_func g m = m\<lparr>mod_funcs := map (\<lambda>f. if fn_name f = fn_name g then g else f) (mod_funcs m)\<rparr>"

fun assign_funcs ::
    "llvm_api \<Rightarrow> post_options \<Rightarrow> fault_map \<Rightarrow> ir_module \<Rightarrow> func list \<Rightarrow> ir_module \<Rightarrow> post_globals
      \<Rightarrow> pass_error + ir_module \<times> post_globals" where
  "assign_funcs api opts fault_map m0 [] m ps = Inr (m, ps)"
| "assign_funcs api opts fault_map m0 (f # fs) m ps =
     and_then (assign_func api opts fault_map m0 f ps) (\<lambda>(g, ps).
       assign_funcs api opts fault_map m0 fs (replace_func g m) ps)"

definition assignLocalIDs ::
    "llvm_api \<Rightarrow> file_env \<Rightarrow> i64 \<Rightarrow> i64 \<Rightarrow> post_options \<Rightarrow> ir_module \<Rightarrow> post_globals
      \<Rightarrow> pass_error + ir_module \<times> post_globals" where
  "assignLocalIDs api fe j1 j2 opts m ps =
    and_then (getFaultingAllocMap fe j1 j2 (MPKProfilePath opts)) (\<lambda>fault_map.
      assign_funcs api opts fault_map m (worklist m) m ps)"

subsection \<open>Patching and removing\<close>

text \<open>The lists hold pointers: one that is to no instruction of the module is dangling or of another module.\<close>

definition patchInstruction :: "inst_id \<Rightarrow> ir_module \<times> post_globals \<Rightarrow> pass_error + ir_module \<times> post_globals" where
  "patchInstruction a = (\<lambda>(m, ps).
    (case get_inst m a of
       Some (CallBase n k c as) \<Rightarrow>
         (case c of
            Indirect \<Rightarrow> Inl NullCalledFunction
          | Func calledFuncName \<Rightarrow>
              (case AllocReplacementMap calledFuncName of
                 None \<Rightarrow> Inr (m, ps)
               | Some replacement \<Rightarrow>
                   (if get_function m replacement = None then Inr (m, ps)
                    else Inr (map_insts (\<lambda>i. if inst_id i = a then CallBase n k (Func replacement) as else i) m,
                              ps\<lparr>modified_inst_count := modified_inst_count ps + 1\<rparr>))))
     | _ \<Rightarrow> Inl ForeignInstruction))"

fun patch_all :: "inst_id list \<Rightarrow> ir_module \<times> post_globals \<Rightarrow> pass_error + ir_module \<times> post_globals" where
  "patch_all [] s = Inr s"
| "patch_all (a # as) s = and_then (patchInstruction a s) (patch_all as)"

text \<open>
  Erasing an instruction removes its use from the list the loop is walking, so the loop is
  defined only when there is no user left. The users are the calls of the function, as nothing else
  in the model refers to one; the assertion on users of other kinds, and the counters that the body
  of the loop updates on its way to the use that is gone, are not modelled.
\<close>

definition removeFunctionUsers :: "string \<Rightarrow> ir_module \<Rightarrow> pass_error + ir_module" where
  "removeFunctionUsers name m =
    (if list_ex (\<lambda>i. called_function i = Some name) (all_insts m) then Inl UsersChanged
     else Inr (m\<lparr>mod_funcs := filter (\<lambda>f. fn_name f \<noteq> name) (mod_funcs m)\<rparr>))"

definition remove_hook_function :: "string \<Rightarrow> ir_module \<Rightarrow> pass_error + ir_module" where
  "remove_hook_function name m =
    (if get_function m name \<noteq> None then removeFunctionUsers name m else Inr m)"

fun erase_hooks :: "inst_id list \<Rightarrow> ir_module \<Rightarrow> pass_error + ir_module" where
  "erase_hooks [] m = Inr m"
| "erase_hooks (n # ns) m =
    (if get_inst m n = None then Inl ForeignInstruction
     else erase_hooks ns (erase_insts (\<lambda>i. inst_id i = n) m))"

definition removeHooks :: "ir_module \<Rightarrow> post_globals \<Rightarrow> pass_error + ir_module" where
  "removeHooks m ps =
    and_then (erase_hooks (hookList ps) m) (\<lambda>m.
       and_then (remove_hook_function ''allocHook'' m) (\<lambda>m.
          and_then (remove_hook_function ''reallocHook'' m) (\<lambda>m.
            remove_hook_function ''deallocHook'' m)))"

lemma erase_hooks_erases: "erase_hooks ns m = Inr m' \<Longrightarrow> m' = erase_insts (\<lambda>i. inst_id i \<in> set ns) m"
proof (induction ns arbitrary: m)
  case Nil
  then show ?case by (simp add: erase_insts_def)
next
  case (Cons n ns)
  then have "m' = erase_insts (\<lambda>i. inst_id i \<in> set ns) (erase_insts (\<lambda>i. inst_id i = n) m)"
    by (simp split: if_splits)
  then show ?case by (simp add: erase_insts_def o_def conj_commute)
qed

lemma erase_hooks_known: "erase_hooks ns m = Inr m' \<Longrightarrow> n \<in> set ns \<Longrightarrow> get_inst m n \<noteq> None"
proof (induction ns arbitrary: m)
  case (Cons k ns)
  then have "n = k \<or> get_inst (erase_insts (\<lambda>i. inst_id i = k) m) n \<noteq> None" "get_inst m k \<noteq> None"
    by (auto split: if_splits)
  then show ?case by (auto simp: get_inst_def find_None_iff all_insts_erase)
qed simp

definition post_stats_text :: "post_globals \<Rightarrow> string" where
  "post_stats_text ps =
    ''Number of alloc instructions modified to unsafe: '' @ dec_u64 (modified_inst_count ps) @ [CHR 0x0A]
    @ ''Total number hooks given a LocalID: '' @ dec_u64 (total_hooks ps) @ [CHR 0x0A]
    @ ''Total allocHooks: '' @ dec_int (n_allocHook (hookCountMap ps)) @ [CHR 0x0A]
    @ ''Total reallocHooks: '' @ dec_int (n_reallocHook (hookCountMap ps)) @ [CHR 0x0A]
    @ ''Total deallocHooks: '' @ dec_int (n_deallocHook (hookCountMap ps)) @ [CHR 0x0A]"

definition run_post ::
    "llvm_api \<Rightarrow> file_env \<Rightarrow> i64 \<Rightarrow> i64 \<Rightarrow> post_options \<Rightarrow> ir_module \<Rightarrow> post_globals
      \<Rightarrow> pass_error + ir_module \<times> post_globals" where
  "run_post api fe j1 j2 opts m ps =
    and_then (assignLocalIDs api fe j1 j2 opts m ps) (\<lambda>(m, ps).
      and_then (if MPKProfilePath opts \<noteq> [] then patch_all (patchList ps) (m, ps) else Inr (m, ps)) (\<lambda>(m, ps).
        and_then (if RemoveHooks opts then removeHooks m ps else Inr m) (\<lambda>m.
          Inr (m\<lparr>mod_AllocSiteTotal := Some (IDG ps)\<rparr>, ps))))"

subsection \<open>Reference description of the numbering\<close>

text \<open>The position of the identifier in a call of a numbered hook.\<close>

definition hook_index :: "instr \<Rightarrow> nat option" where
  "hook_index i =
    (case called_function i of
       None \<Rightarrow> None
     | Some h \<Rightarrow> (if h = ''allocHook'' then Some 2 else if h = ''reallocHook'' then Some 4 else None))"

abbreviation numbered :: "instr \<Rightarrow> bool" where
  "numbered i \<equiv> hook_index i \<noteq> None"

definition is_hook :: "instr \<Rightarrow> bool" where
  "is_hook i \<longleftrightarrow> called_function i \<in> {Some ''allocHook'', Some ''reallocHook'', Some ''deallocHook''}"

text \<open>The call with its identifier and, when the hook stays, its names.\<close>

definition with_id :: "post_options \<Rightarrow> string \<Rightarrow> string \<Rightarrow> nat \<Rightarrow> instr \<Rightarrow> instr" where
  "with_id opts funcName bbName j i =
    (case (i, hook_index i) of
       (CallBase n k c as, Some x) \<Rightarrow>
         CallBase n k c
           (if RemoveHooks opts then as[x := Int64 (of_nat j)]
            else as[x := Int64 (of_nat j), x + 1 := GlobalStr bbName, x + 2 := GlobalStr funcName])
     | _ \<Rightarrow> i)"

text \<open>The call of an allocation function a hook refers to.\<close>

definition is_call :: "ir_module \<Rightarrow> inst_id \<Rightarrow> bool" where
  "is_call m a \<longleftrightarrow> (case get_inst m a of Some (CallBase _ _ _ _) \<Rightarrow> True | _ \<Rightarrow> False)"

definition alloc_of :: "ir_module \<Rightarrow> instr \<Rightarrow> inst_id option" where
  "alloc_of m i =
    (case i of
       CallBase _ _ _ (Result a # _) \<Rightarrow> (if is_call m a then Some a else None)
     | _ \<Rightarrow> None)"

definition patched_by ::
    "post_options \<Rightarrow> fault_map \<Rightarrow> ir_module \<Rightarrow> string \<Rightarrow> nat \<times> instr \<Rightarrow> inst_id list" where
  "patched_by opts fault_map m funcName = (\<lambda>(j, i).
    (case alloc_of m i of
       None \<Rightarrow> []
     | Some a \<Rightarrow>
         (if MPKProfilePath opts \<noteq> [] \<and> fault_at fault_map funcName (of_nat j) \<noteq> None then [a] else [])))"

definition arity_ok :: "post_options \<Rightarrow> instr \<Rightarrow> bool" where
  "arity_ok opts i \<longleftrightarrow>
    (case i of
       CallBase n k c as \<Rightarrow>
         (case hook_index i of None \<Rightarrow> True
          | Some x \<Rightarrow> x < length as \<and> (\<not> RemoveHooks opts \<longrightarrow> x + 2 < length as))
     | _ \<Rightarrow> True)"

lemma hook_index_cases:
  "hook_index (OtherInst n as) = None"
  "hook_index (CallBase n k Indirect as) = None"
  "hook_index (CallBase n k (Func h) as) =
    (if h = ''allocHook'' then Some 2 else if h = ''reallocHook'' then Some 4 else None)"
  by (simp_all add: hook_index_def)

lemma with_id_keeps [simp]:
  "inst_id (with_id opts fn bb j i) = inst_id i"
  "called_function (with_id opts fn bb j i) = called_function i"
  "hook_index (with_id opts fn bb j i) = hook_index i"
proof -
  show "inst_id (with_id opts fn bb j i) = inst_id i"
    by (cases i) (simp_all add: with_id_def split: option.splits)
  show c: "called_function (with_id opts fn bb j i) = called_function i"
    by (cases i rule: called_function.cases) (simp_all add: with_id_def split: option.splits)
  show "hook_index (with_id opts fn bb j i) = hook_index i"
    by (simp add: hook_index_def c)
qed

lemma hook_args_Inr:
  "hook_args opts x lid bb fn as = Inr as' \<longleftrightarrow>
    x < length as \<and> (\<not> RemoveHooks opts \<longrightarrow> x + 2 < length as) \<and>
    as' = (if RemoveHooks opts then as[x := Int64 lid]
           else as[x := Int64 lid, x + 1 := GlobalStr bb, x + 2 := GlobalStr fn])"
  by (auto simp: hook_args_def set_arg_def and_then_eq_Inr)

lemma hd_hook_args: "0 < x \<Longrightarrow> hook_args opts x lid bb fn as = Inr as' \<Longrightarrow> as' \<noteq> [] \<and> hd as' = hd as"
  by (cases as; cases x) (auto simp: hook_args_Inr split: nat.splits)

lemma collect_patch_Inr:
  assumes "collect_patch api fm m fn bb (of_nat j) as ps = Inr ps'" and "MPKProfilePath opts \<noteq> []"
    and "as \<noteq> []" and "hd as = hd as0" and "as0 \<noteq> []"
  shows "patchList ps' = patchList ps @ patched_by opts fm m fn (j, CallBase n k c as0)"
    "hookList ps' = hookList ps" "IDG ps' = IDG ps"
proof -
  obtain v r r0 where "as = v # r" "as0 = v # r0"
    using assms(3-5) by (metis hd_Cons_tl)
  note heads = this
  show "patchList ps' = patchList ps @ patched_by opts fm m fn (j, CallBase n k c as0)"
    "hookList ps' = hookList ps" "IDG ps' = IDG ps"
    using assms(1,2) heads
    by (auto simp: collect_patch_def patched_by_def alloc_of_def is_call_def fault_at_def and_then_eq_Inr Let_def
        split: option.splits operand.splits instr.splits if_splits)
qed

lemma assign_other_spec:
  "assign_inst api opts fm m fn bb i lid ps = Inr (i', lid', ps') \<Longrightarrow> \<not> numbered i \<Longrightarrow>
    i' = i \<and> lid' = lid \<and> patchList ps' = patchList ps \<and> IDG ps' = IDG ps \<and> arity_ok opts i \<and>
    hookList ps' = hookList ps @ (if RemoveHooks opts \<and> is_hook i then [inst_id i] else [])"
proof (cases i)
  case (CallBase n k c as)
  assume "assign_inst api opts fm m fn bb i lid ps = Inr (i', lid', ps')" and "\<not> numbered i"
  then show ?thesis
    unfolding CallBase
    by (cases c) (auto simp: hook_index_cases is_hook_def arity_ok_def patchArgIndexMap_def Let_def split: if_splits)
qed (auto simp: is_hook_def arity_ok_def)

lemma assign_numbered_spec:
  assumes "assign_inst api opts fm m fn bb i (of_nat j) ps = Inr (i', lid', ps')" and "hook_index i = Some x"
  shows "i' = with_id opts fn bb j i \<and> lid' = of_nat (Suc j) \<and>
    patchList ps' = patchList ps @ patched_by opts fm m fn (j, i) \<and>
    hookList ps' = hookList ps @ (if RemoveHooks opts then [inst_id i] else []) \<and>
    IDG ps' = IDG ps \<and> arity_ok opts i \<and> is_hook i"
proof -
  obtain n k h as where i: "i = CallBase n k (Func h) as"
    using assms(2) by (cases i; cases "case i of CallBase n k c as \<Rightarrow> c | OtherInst n as \<Rightarrow> Indirect") (auto simp: hook_index_cases)
  define ps1 where "ps1 = register_hook opts h n ps"
  have x: "patchArgIndexMap h = Some (int x)" "0 < x" "is_hook i"
    using assms(2) by (auto simp: i hook_index_cases patchArgIndexMap_def is_hook_def split: if_splits)
  have step: "assign_inst api opts fm m fn bb i (of_nat j) ps =
      and_then (hook_args opts x (of_nat j) bb fn as) (\<lambda>as.
        and_then (if MPKProfilePath opts \<noteq> [] then collect_patch api fm m fn bb (of_nat j) as ps1 else Inr ps1)
          (\<lambda>ps. Inr (CallBase n k (Func h) as, of_nat j + 1, ps)))"
    using x(1,2) unfolding ps1_def by (simp add: i Let_def cong: if_cong)
  obtain as' where as': "hook_args opts x (of_nat j) bb fn as = Inr as'"
    "(if MPKProfilePath opts \<noteq> [] then collect_patch api fm m fn bb (of_nat j) as' ps1 else Inr ps1) = Inr ps'"
    "i' = CallBase n k (Func h) as'" "lid' = of_nat j + 1"
    using assms(1) unfolding step and_then_eq_Inr by auto
  have same: "as' \<noteq> []" "hd as' = hd as" using hd_hook_args [OF x(2) as'(1)] by simp_all
  have ne: "as \<noteq> []" using as'(1) by (auto simp: hook_args_Inr)
  have "patchList ps' = patchList ps1 @ patched_by opts fm m fn (j, i) \<and>
      hookList ps' = hookList ps1 \<and> IDG ps' = IDG ps1"
  proof (cases "MPKProfilePath opts = []")
    case True
    then show ?thesis using as'(2) by (auto simp: patched_by_def split: option.splits)
  next
    case False
    then have run: "collect_patch api fm m fn bb (of_nat j) as' ps1 = Inr ps'" using as'(2) by simp
    show ?thesis using collect_patch_Inr [OF run False same ne] i by simp
  qed
  moreover have "i' = with_id opts fn bb j i" "arity_ok opts i"
    using as'(1,3) assms(2) i by (simp_all add: hook_args_Inr with_id_def arity_ok_def)
  ultimately show ?thesis using x(3) as'(4) i by (simp add: ps1_def)
qed

lemma assign_inst_spec:
  assumes "assign_inst api opts fm m fn bb i (of_nat j) ps = Inr (i', lid', ps')"
  shows "i' = (if numbered i then with_id opts fn bb j i else i)"
    "lid' = of_nat (if numbered i then Suc j else j)"
    "patchList ps' = patchList ps @ (if numbered i then patched_by opts fm m fn (j, i) else [])"
    "hookList ps' = hookList ps @ (if RemoveHooks opts \<and> is_hook i then [inst_id i] else [])"
    "IDG ps' = IDG ps" "arity_ok opts i"
  using assign_other_spec [OF assms] assign_numbered_spec [OF assms] by (cases "hook_index i"; simp)+

lemma concat_map_enumerate_append:
  "concat (map g (enumerate n (xs @ ys))) = concat (map g (enumerate n xs)) @ concat (map g (enumerate (n + length xs) ys))"
  by (simp add: enumerate_append_eq)

text \<open>What the pass leaves of an instruction it numbers.\<close>

definition same_call :: "instr \<Rightarrow> instr \<Rightarrow> bool" where
  "same_call i i' \<longleftrightarrow>
    inst_id i' = inst_id i \<and> called_function i' = called_function i \<and> (\<not> numbered i \<longrightarrow> i' = i)"

lemma same_call_with_id: "numbered i \<Longrightarrow> same_call i (with_id opts fn bb j i)"
  by (simp add: same_call_def)

lemma assign_insts_spec:
  "assign_insts api opts fm m fn bb is (of_nat k) ps = Inr (is', lid', ps') \<Longrightarrow>
    lid' = of_nat (k + length (filter numbered is)) \<and>
    filter numbered is' = map (\<lambda>(j, i). with_id opts fn bb j i) (enumerate k (filter numbered is)) \<and>
    list_all2 same_call is is' \<and>
    patchList ps' = patchList ps @ concat (map (patched_by opts fm m fn) (enumerate k (filter numbered is))) \<and>
    hookList ps' = hookList ps @ (if RemoveHooks opts then map inst_id (filter is_hook is) else []) \<and>
    IDG ps' = IDG ps \<and> (\<forall>i\<in>set is. arity_ok opts i)"
proof (induction "is" arbitrary: k ps is' lid' ps')
  case Nil
  then show ?case by simp
next
  case (Cons i "is")
  then obtain i' lid1 ps1 is2 where
    i: "assign_inst api opts fm m fn bb i (of_nat k) ps = Inr (i', lid1, ps1)"
    and rest: "assign_insts api opts fm m fn bb is lid1 ps1 = Inr (is2, lid', ps')" and is': "is' = i' # is2"
    by (auto simp: and_then_eq_Inr)
  note one = assign_inst_spec [OF i]
  let ?k = "if numbered i then Suc k else k"
  note IH = Cons.IH [of ?k ps1 is2 lid' ps', OF rest [unfolded one(2)]]
  show ?case
  proof (cases "numbered i")
    case True
    then show ?thesis
      using one IH is' by (auto simp: same_call_with_id)
  next
    case False
    then show ?thesis
      using one IH is' by (auto simp: same_call_def)
  qed
qed

text \<open>The numbered hooks of a function in traversal order, with the names of their blocks.\<close>

definition hook_seq :: "llvm_api \<Rightarrow> func \<Rightarrow> label list \<Rightarrow> func \<Rightarrow> (string \<times> instr) list" where
  "hook_seq api f ls g =
    concat (map (\<lambda>l. case block_of f l of None \<Rightarrow> []
      | Some b \<Rightarrow> map (Pair (block_name api f b)) (filter numbered (insts_of g l))) ls)"

lemma hook_seq_cong: "\<forall>l\<in>set ls. insts_of g l = insts_of g' l \<Longrightarrow> hook_seq api f ls g = hook_seq api f ls g'"
  unfolding hook_seq_def by (intro arg_cong [where f = concat] map_cong) (auto split: option.splits)

lemma hook_seq_Cons:
  "block_of f l = Some b \<Longrightarrow>
    hook_seq api f (l # ls) g = map (Pair (block_name api f b)) (filter numbered (insts_of g l)) @ hook_seq api f ls g"
  by (simp add: hook_seq_def)

definition numbered_seq :: "post_options \<Rightarrow> string \<Rightarrow> nat \<Rightarrow> (string \<times> instr) list \<Rightarrow> (string \<times> instr) list" where
  "numbered_seq opts fn k hs = map (\<lambda>(j, bb, i). (bb, with_id opts fn bb j i)) (enumerate k hs)"

lemma enumerate_map_Pair: "enumerate k (map (Pair c) xs) = map (\<lambda>(j, x). (j, c, x)) (enumerate k xs)"
  by (induction xs arbitrary: k) auto

lemma numbered_seq_append:
  "numbered_seq opts fn k (xs @ ys) = numbered_seq opts fn k xs @ numbered_seq opts fn (k + length xs) ys"
  by (simp add: numbered_seq_def enumerate_append_eq)

lemma numbered_seq_block:
  "numbered_seq opts fn k (map (Pair bb) is) = map (Pair bb) (map (\<lambda>(j, i). with_id opts fn bb j i) (enumerate k is))"
  by (simp add: numbered_seq_def enumerate_map_Pair case_prod_unfold o_def)

lemma assign_blocks_spec:
  "assign_blocks api opts fm m f ls g (of_nat k) ps = Inr (g', ps') \<Longrightarrow> distinct ls \<Longrightarrow>
    set ls \<subseteq> set (map bb_label (fn_blocks f)) \<Longrightarrow> map bb_label (fn_blocks g) = map bb_label (fn_blocks f) \<Longrightarrow>
    hook_seq api f ls g' = numbered_seq opts (fn_name f) k (hook_seq api f ls g) \<and>
    (\<forall>l. l \<notin> set ls \<longrightarrow> insts_of g' l = insts_of g l) \<and>
    (\<forall>l. list_all2 same_call (insts_of g l) (insts_of g' l)) \<and>
    (\<forall>l\<in>set ls. \<forall>i\<in>set (insts_of g l). arity_ok opts i) \<and>
    fn_name g' = fn_name g \<and> map bb_label (fn_blocks g') = map bb_label (fn_blocks g) \<and>
    patchList ps' = patchList ps @
      concat (map (\<lambda>(j, bb, i). patched_by opts fm m (fn_name f) (j, i)) (enumerate k (hook_seq api f ls g))) \<and>
    hookList ps' = hookList ps @ (if RemoveHooks opts
      then map inst_id (concat (map (\<lambda>l. filter is_hook (insts_of g l)) ls)) else []) \<and>
    IDG ps' = IDG ps"
proof (induction ls arbitrary: g k ps)
  case Nil
  then show ?case by (simp add: hook_seq_def numbered_seq_def list.rel_refl same_call_def)
next
  case (Cons l ls)
  from Cons.prems(3) have "block_of f l \<noteq> None" using block_of_label by auto
  then obtain b where b: "block_of f l = Some b" by blast
  have "block_of g l \<noteq> None"
    using Cons.prems(3,4) by (intro block_of_label) auto
  then have set: "insts_of (set_insts l is g) l' = (if l' = l then is else insts_of g l')" for "is" l'
    by (rule insts_of_set_insts)
  let ?bb = "block_name api f b"
  from Cons.prems(1) b obtain is' lid1 ps1 where
    one: "assign_insts api opts fm m (fn_name f) ?bb (insts_of g l) (of_nat k) ps = Inr (is', lid1, ps1)"
    and rest: "assign_blocks api opts fm m f ls (set_insts l is' g) lid1 ps1 = Inr (g', ps')"
    by (auto simp: and_then_eq_Inr)
  note s = assign_insts_spec [OF one]
  let ?g = "set_insts l is' g" and ?k = "k + length (filter numbered (insts_of g l))"
  have IH: "hook_seq api f ls g' = numbered_seq opts (fn_name f) ?k (hook_seq api f ls ?g) \<and>
    (\<forall>l. l \<notin> set ls \<longrightarrow> insts_of g' l = insts_of ?g l) \<and>
    (\<forall>l. list_all2 same_call (insts_of ?g l) (insts_of g' l)) \<and>
    (\<forall>l\<in>set ls. \<forall>i\<in>set (insts_of ?g l). arity_ok opts i) \<and>
    fn_name g' = fn_name ?g \<and> map bb_label (fn_blocks g') = map bb_label (fn_blocks ?g) \<and>
    patchList ps' = patchList ps1 @
      concat (map (\<lambda>(j, bb, i). patched_by opts fm m (fn_name f) (j, i)) (enumerate ?k (hook_seq api f ls ?g))) \<and>
    hookList ps' = hookList ps1 @ (if RemoveHooks opts
      then map inst_id (concat (map (\<lambda>l. filter is_hook (insts_of ?g l)) ls)) else []) \<and>
    IDG ps' = IDG ps1"
    using Cons.prems s rest by (intro Cons.IH) auto
  have l: "l \<notin> set ls" "distinct ls" using Cons.prems(2) by auto
  have same: "\<forall>l'\<in>set ls. insts_of ?g l' = insts_of g l'" using l(1) set by auto
  have seq: "hook_seq api f ls ?g = hook_seq api f ls g" by (rule hook_seq_cong [OF same])
  have hooks: "concat (map (\<lambda>l. filter is_hook (insts_of ?g l)) ls) = concat (map (\<lambda>l. filter is_hook (insts_of g l)) ls)"
    using same by (intro arg_cong [where f = concat] map_cong) auto
  have at_l: "insts_of g' l = is'" using IH l(1) set by simp
  have "hook_seq api f (l # ls) g' = numbered_seq opts (fn_name f) k (hook_seq api f (l # ls) g)"
    using IH s at_l unfolding hook_seq_Cons [OF b] numbered_seq_append numbered_seq_block seq by simp
  moreover have "\<forall>l'. list_all2 same_call (insts_of g l') (insts_of g' l')"
    using IH s at_l set by (metis (no_types, lifting))
  moreover have "patchList ps' = patchList ps @
      concat (map (\<lambda>(j, bb, i). patched_by opts fm m (fn_name f) (j, i)) (enumerate k (hook_seq api f (l # ls) g)))"
    using IH s unfolding hook_seq_Cons [OF b] seq
    by (simp add: enumerate_append_eq enumerate_map_Pair o_def case_prod_unfold)
  moreover have "hookList ps' = hookList ps @ (if RemoveHooks opts
      then map inst_id (concat (map (\<lambda>l. filter is_hook (insts_of g l)) (l # ls))) else [])"
    using IH s hooks by simp
  ultimately show ?case using IH s l set same by auto
qed

end
