(* ===== verification/Post_Pass_Spec.thy ===== *)
theory Post_Pass_Spec
  imports Post_Pass
begin

section \<open>What the post pass does to a module\<close>

text \<open>
  The effect of \<open>assignLocalIDs\<close>, \<open>patchInstruction\<close> and \<open>removeHooks\<close> on a whole module, read off
  the module as it was: which identifier each hook gets, which allocation calls are redirected,
  and what removing the hooks needs.
\<close>

subsection \<open>Functions\<close>

definition func_numbered :: "llvm_api \<Rightarrow> post_options \<Rightarrow> func \<Rightarrow> func \<Rightarrow> bool" where
  "func_numbered api opts f g \<longleftrightarrow>
    fn_name g = fn_name f \<and> map bb_label (fn_blocks g) = map bb_label (fn_blocks f) \<and>
    hook_seq api f (rpo api f) g = numbered_seq opts (fn_name f) 0 (hook_seq api f (rpo api f) f) \<and>
    (\<forall>l. l \<notin> set (rpo api f) \<longrightarrow> insts_of g l = insts_of f l) \<and>
    (\<forall>l. list_all2 same_call (insts_of f l) (insts_of g l)) \<and>
    (\<forall>l\<in>set (rpo api f). \<forall>i\<in>set (insts_of f l). arity_ok opts i)"

definition func_patches :: "llvm_api \<Rightarrow> post_options \<Rightarrow> fault_map \<Rightarrow> ir_module \<Rightarrow> func \<Rightarrow> inst_id list" where
  "func_patches api opts fm m f =
    concat (map (\<lambda>(j, bb, i). patched_by opts fm m (fn_name f) (j, i))
      (enumerate 0 (hook_seq api f (rpo api f) f)))"

definition func_hooks :: "llvm_api \<Rightarrow> post_options \<Rightarrow> func \<Rightarrow> inst_id list" where
  "func_hooks api opts f =
    (if RemoveHooks opts then map inst_id (concat (map (\<lambda>l. filter is_hook (insts_of f l)) (rpo api f))) else [])"

lemma assign_func_spec:
  assumes "assign_func api opts fm m f ps = Inr (g, ps')" and "rpo_ok api f"
  shows "func_numbered api opts f g"
    "patchList ps' = patchList ps @ func_patches api opts fm m f"
    "hookList ps' = hookList ps @ func_hooks api opts f" "IDG ps' = IDG ps"
proof -
  have "assign_blocks api opts fm m f (rpo api f) f (of_nat 0) ps = Inr (g, ps')"
    using assms(1) by (simp add: assign_func_def)
  from assign_blocks_spec [OF this] assms(2)
  show "func_numbered api opts f g"
    "patchList ps' = patchList ps @ func_patches api opts fm m f"
    "hookList ps' = hookList ps @ func_hooks api opts f" "IDG ps' = IDG ps"
    by (simp_all add: rpo_ok_def func_numbered_def func_patches_def func_hooks_def)
qed

lemma assign_funcs_spec:
  assumes "assign_funcs api opts fm m0 fs m ps = Inr (m', ps')"
    and "distinct (map fn_name fs)" and "distinct (map fn_name (mod_funcs m))"
    and "set fs \<subseteq> set (mod_funcs m)" and "\<forall>f\<in>set fs. rpo_ok api f"
  shows "\<exists>h. (\<forall>f\<in>set fs. func_numbered api opts f (h f)) \<and>
    mod_funcs m' = map (\<lambda>f. if f \<in> set fs then h f else f) (mod_funcs m) \<and>
    patchList ps' = patchList ps @ concat (map (func_patches api opts fm m0) fs) \<and>
    hookList ps' = hookList ps @ concat (map (func_hooks api opts) fs) \<and> IDG ps' = IDG ps"
  using assms
proof (induction fs arbitrary: m ps)
  case Nil
  then show ?case by simp
next
  case (Cons f fs)
  then obtain g ps1 where g: "assign_func api opts fm m0 f ps = Inr (g, ps1)"
    and rest: "assign_funcs api opts fm m0 fs (replace_func g m) ps1 = Inr (m', ps')"
    by (auto simp: and_then_eq_Inr)
  have ok: "rpo_ok api f" using Cons.prems(5) by simp
  note s = assign_func_spec [OF g ok]
  have name: "fn_name g = fn_name f" using s(1) by (simp add: func_numbered_def)
  have inj: "x = y" if "x \<in> set (mod_funcs m)" "y \<in> set (mod_funcs m)" "fn_name x = fn_name y" for x y
    using Cons.prems(3) that by (auto simp: distinct_map inj_on_def)
  have funcs: "mod_funcs (replace_func g m) = map (\<lambda>x. if x = f then g else x) (mod_funcs m)"
    using inj Cons.prems(4) name by (auto simp: replace_func_def)
  have "map fn_name (mod_funcs (replace_func g m)) = map fn_name (mod_funcs m)"
    using name by (auto simp: replace_func_def)
  moreover have "f \<notin> set fs" "g \<notin> set fs"
    using Cons.prems(2) name by (auto simp: image_iff)
  then have "set fs \<subseteq> set (mod_funcs (replace_func g m))"
    using Cons.prems(4) by (auto simp: funcs image_iff)
  ultimately obtain h where h: "\<forall>f\<in>set fs. func_numbered api opts f (h f)"
    "mod_funcs m' = map (\<lambda>f. if f \<in> set fs then h f else f) (mod_funcs (replace_func g m))"
    "patchList ps' = patchList ps1 @ concat (map (func_patches api opts fm m0) fs)"
    "hookList ps' = hookList ps1 @ concat (map (func_hooks api opts) fs)" "IDG ps' = IDG ps1"
    using Cons.IH [OF rest] Cons.prems(2,3,5) by auto
  have "mod_funcs m' = map (\<lambda>x. if x \<in> set (f # fs) then (h(f := g)) x else x) (mod_funcs m)"
    using \<open>f \<notin> set fs\<close> \<open>g \<notin> set fs\<close> by (auto simp: h(2) funcs)
  moreover have "\<forall>x\<in>set (f # fs). func_numbered api opts x ((h(f := g)) x)"
    using h(1) s(1) by simp
  ultimately show ?case
    using h(3-5) s(2-4) by (intro exI [of _ "h(f := g)"]) simp
qed

lemma set_worklist: "set (worklist m) = {f \<in> set (mod_funcs m). \<not> is_declaration f}"
  by (simp add: worklist_def)

lemma distinct_worklist: "distinct (map fn_name (mod_funcs m)) \<Longrightarrow> distinct (map fn_name (worklist m))"
proof -
  assume "distinct (map fn_name (mod_funcs m))"
  then have d: "distinct (mod_funcs m)" "inj_on fn_name (set (mod_funcs m))"
    by (simp_all add: distinct_map)
  have "distinct (worklist m)" using d(1) by (simp add: worklist_def)
  moreover have "inj_on fn_name (set (worklist m))"
    using d(2) by (rule inj_on_subset) (auto simp: set_worklist)
  ultimately show ?thesis by (simp add: distinct_map)
qed

text \<open>The module after the numbering.\<close>

definition module_numbered :: "llvm_api \<Rightarrow> post_options \<Rightarrow> ir_module \<Rightarrow> ir_module \<Rightarrow> bool" where
  "module_numbered api opts m m' \<longleftrightarrow>
    list_all2 (\<lambda>f g. if is_declaration f then g = f else func_numbered api opts f g) (mod_funcs m) (mod_funcs m')"

lemma assignLocalIDs_spec:
  assumes "assignLocalIDs api fe j1 j2 opts m ps = Inr (m', ps')"
    and "well_formed m" and "\<forall>f\<in>set (mod_funcs m). rpo_ok api f"
  obtains fm where "getFaultingAllocMap fe j1 j2 (MPKProfilePath opts) = Inr fm"
    "module_numbered api opts m m'"
    "patchList ps' = patchList ps @ concat (map (func_patches api opts fm m) (worklist m))"
    "hookList ps' = hookList ps @ concat (map (func_hooks api opts) (worklist m))" "IDG ps' = IDG ps"
proof -
  from assms(1) obtain fm where fm: "getFaultingAllocMap fe j1 j2 (MPKProfilePath opts) = Inr fm"
    and run: "assign_funcs api opts fm m (worklist m) m ps = Inr (m', ps')"
    by (auto simp: assignLocalIDs_def and_then_eq_Inr)
  have names: "distinct (map fn_name (mod_funcs m))" using assms(2) by (simp add: well_formed_def)
  obtain h where h: "\<forall>f\<in>set (worklist m). func_numbered api opts f (h f)"
    "mod_funcs m' = map (\<lambda>f. if f \<in> set (worklist m) then h f else f) (mod_funcs m)"
    "patchList ps' = patchList ps @ concat (map (func_patches api opts fm m) (worklist m))"
    "hookList ps' = hookList ps @ concat (map (func_hooks api opts) (worklist m))" "IDG ps' = IDG ps"
    using assign_funcs_spec [OF run distinct_worklist [OF names] names] assms(3) by (auto simp: set_worklist)
  have "module_numbered api opts m m'"
    using h(1) by (auto simp: module_numbered_def h(2) list_all2_map2 set_worklist intro!: list.rel_refl_strong)
  then show ?thesis using that fm h(3-5) by blast
qed

subsection \<open>Identifiers\<close>

definition local_id :: "instr \<Rightarrow> operand option" where
  "local_id i =
    (case i of
       CallBase n k c as \<Rightarrow>
         (case hook_index i of None \<Rightarrow> None | Some x \<Rightarrow> if x < length as then Some (as ! x) else None)
     | _ \<Rightarrow> None)"

definition hook_operands :: "instr \<Rightarrow> (operand \<times> operand \<times> operand) option" where
  "hook_operands i =
    (case i of
       CallBase n k c as \<Rightarrow>
         (case hook_index i of
            None \<Rightarrow> None
          | Some x \<Rightarrow> if x + 2 < length as then Some (as ! x, as ! (x + 1), as ! (x + 2)) else None)
     | _ \<Rightarrow> None)"

lemma local_id_with_id:
  assumes "numbered i" and "arity_ok opts i"
  shows "local_id (with_id opts fn bb j i) = Some (Int64 (of_nat j))"
proof -
  obtain n k c as x where i: "i = CallBase n k c as" "hook_index i = Some x"
    using assms(1) by (cases i) (auto simp: hook_index_cases)
  have "hook_index (with_id opts fn bb j i) = Some x" using i(2) by simp
  then show ?thesis
    using assms(2) i by (auto simp: local_id_def with_id_def arity_ok_def)
qed

lemma hook_operands_with_id:
  assumes "numbered i" and "arity_ok opts i" and "\<not> RemoveHooks opts"
  shows "hook_operands (with_id opts fn bb j i) = Some (Int64 (of_nat j), GlobalStr bb, GlobalStr fn)"
proof -
  obtain n k c as x where i: "i = CallBase n k c as" "hook_index i = Some x"
    using assms(1) by (cases i) (auto simp: hook_index_cases)
  have "hook_index (with_id opts fn bb j i) = Some x" using i(2) by simp
  then show ?thesis
    using assms(2,3) i by (auto simp: hook_operands_def with_id_def arity_ok_def nth_list_update)
qed

lemma hook_seq_mem:
  "(bb, i) \<in> set (hook_seq api f ls g) \<Longrightarrow> numbered i \<and> (\<exists>l\<in>set ls. i \<in> set (insts_of g l))"
  by (auto simp: hook_seq_def split: option.splits)

lemma enumerate_mem: "(j, x) \<in> set (enumerate k xs) \<Longrightarrow> x \<in> set xs"
  by (metis enumerate_eq_zip set_zip_rightD)

lemma numbered_seq_map:
  assumes "\<forall>(bb, i)\<in>set hs. \<forall>j. h (bb, with_id opts fn bb j i) = h' (j, bb, i)"
  shows "map h (numbered_seq opts fn k hs) = map h' (enumerate k hs)"
  using assms by (force simp: numbered_seq_def o_def dest: enumerate_mem)

lemma module_numbered_func:
  assumes "module_numbered api opts m m'" and "f \<in> set (mod_funcs m)" and "\<not> is_declaration f"
  obtains g where "g \<in> set (mod_funcs m')" "func_numbered api opts f g"
  using assms by (auto simp: module_numbered_def list_all2_conv_all_nth in_set_conv_nth) metis

subsection \<open>All instructions\<close>

lemma list_all2_concat: "list_all2 (list_all2 P) xs ys \<Longrightarrow> list_all2 P (concat xs) (concat ys)"
  by (induction rule: list_all2_induct) (auto intro: list_all2_appendI)

lemma same_call_refl [simp]: "same_call i i"
  by (simp add: same_call_def)

lemma func_insts_same:
  assumes "map bb_label (fn_blocks g) = map bb_label (fn_blocks f)" and "distinct (map bb_label (fn_blocks f))"
    and "\<forall>l. list_all2 same_call (insts_of f l) (insts_of g l)"
  shows "list_all2 same_call (concat (map bb_insts (fn_blocks f))) (concat (map bb_insts (fn_blocks g)))"
proof (rule list_all2_concat, unfold list_all2_map1 list_all2_map2, rule list_all2_all_nthI)
  show len: "length (fn_blocks f) = length (fn_blocks g)" using assms(1) by (metis length_map)
  fix n assume n: "n < length (fn_blocks f)"
  have "bb_label (fn_blocks g ! n) = bb_label (fn_blocks f ! n)"
    using assms(1) n len by (metis nth_map)
  moreover have "insts_of f (bb_label (fn_blocks f ! n)) = bb_insts (fn_blocks f ! n)"
    using n assms(2) by (intro insts_of_block) simp_all
  moreover have "insts_of g (bb_label (fn_blocks g ! n)) = bb_insts (fn_blocks g ! n)"
    using n len assms(1,2) by (intro insts_of_block) simp_all
  ultimately show "list_all2 same_call (bb_insts (fn_blocks f ! n)) (bb_insts (fn_blocks g ! n))"
    using assms(3) by metis
qed

lemma module_insts_same:
  assumes "module_numbered api opts m m'" and "well_formed m"
  shows "list_all2 same_call (all_insts m) (all_insts m')"
  unfolding all_insts_def
proof (rule list_all2_concat, unfold list_all2_map1 list_all2_map2)
  show "list_all2 (\<lambda>f g. list_all2 same_call (concat (map bb_insts (fn_blocks f))) (concat (map bb_insts (fn_blocks g))))
      (mod_funcs m) (mod_funcs m')"
    using assms(1) unfolding module_numbered_def
  proof (rule list.rel_mono_strong)
    fix f g
    assume f: "f \<in> set (mod_funcs m)" and r: "if is_declaration f then g = f else func_numbered api opts f g"
    show "list_all2 same_call (concat (map bb_insts (fn_blocks f))) (concat (map bb_insts (fn_blocks g)))"
    proof (cases "is_declaration f")
      case True
      then show ?thesis using r by (simp add: list.rel_refl)
    next
      case False
      then show ?thesis
        using r f assms(2) by (intro func_insts_same) (simp_all add: func_numbered_def well_formed_def)
    qed
  qed
qed

lemma module_names: "module_numbered api opts m m' \<Longrightarrow> map fn_name (mod_funcs m') = map fn_name (mod_funcs m)"
proof -
  assume "module_numbered api opts m m'"
  then have "list_all2 (\<lambda>f g. fn_name f = fn_name g) (mod_funcs m) (mod_funcs m')"
    unfolding module_numbered_def by (rule list_all2_mono) (auto simp: func_numbered_def split: if_splits)
  then have "list_all2 (=) (map fn_name (mod_funcs m)) (map fn_name (mod_funcs m'))"
    by (simp only: list_all2_map1 list_all2_map2)
  then show ?thesis by (simp add: list.rel_eq)
qed

lemma same_call_ids: "list_all2 same_call xs ys \<Longrightarrow> map inst_id ys = map inst_id xs"
  by (induction rule: list_all2_induct) (auto simp: same_call_def)

lemma get_function_None: "get_function m r = None \<longleftrightarrow> r \<notin> fn_name ` set (mod_funcs m)"
  by (auto simp: get_function_def find_None_iff)

subsection \<open>Redirected calls\<close>

definition retarget_name :: "ir_module \<Rightarrow> string \<Rightarrow> string" where
  "retarget_name m g =
    (case AllocReplacementMap g of
       None \<Rightarrow> g
     | Some r \<Rightarrow> if get_function m r = None then g else r)"

fun retarget :: "ir_module \<Rightarrow> instr \<Rightarrow> instr" where
  "retarget m (CallBase n k (Func g) as) = CallBase n k (Func (retarget_name m g)) as"
| "retarget m i = i"

lemma retarget_id [simp]: "inst_id (retarget m i) = inst_id i"
  by (cases "(m, i)" rule: retarget.cases) simp_all

lemma replacement_final: "AllocReplacementMap g = Some r \<Longrightarrow> AllocReplacementMap r = None"
  by (auto simp: AllocReplacementMap_def split: if_splits)

lemma retarget_twice: "retarget m (retarget m i) = retarget m i"
proof -
  have "retarget_name m (retarget_name m g) = retarget_name m g" for g
    by (auto simp: retarget_name_def replacement_final split: option.splits)
  then show ?thesis by (cases "(m, i)" rule: retarget.cases) simp_all
qed

lemma map_insts_names: "fn_name ` set (mod_funcs (map_insts g m)) = fn_name ` set (mod_funcs m)"
  by (simp add: map_insts_def image_image)

lemma retarget_names:
  assumes "fn_name ` set (mod_funcs m') = fn_name ` set (mod_funcs m)"
  shows "retarget m' = retarget m"
proof
  have eq: "retarget_name m' g = retarget_name m g" for g
    by (cases "AllocReplacementMap g") (simp_all add: retarget_name_def get_function_None assms)
  show "retarget m' i = retarget m i" for i
    by (cases "(m, i)" rule: retarget.cases) (simp_all add: eq)
qed

lemma retarget_map_insts: "retarget (map_insts g m) = retarget m"
  by (rule retarget_names [OF map_insts_names])

lemma map_insts_map_insts: "map_insts h (map_insts g m) = map_insts (h \<circ> g) m"
  by (simp add: map_insts_def)

lemma map_insts_cong: "(\<And>i. i \<in> set (all_insts m) \<Longrightarrow> g i = h i) \<Longrightarrow> map_insts g m = map_insts h m"
proof -
  assume eq: "\<And>i. i \<in> set (all_insts m) \<Longrightarrow> g i = h i"
  have "map g (bb_insts b) = map h (bb_insts b)" if "f \<in> set (mod_funcs m)" "b \<in> set (fn_blocks f)" for f b
    using that eq by (auto simp: all_insts_def)
  then show ?thesis by (simp add: map_insts_def cong: map_cong)
qed

lemma map_insts_id: "(\<And>i. i \<in> set (all_insts m) \<Longrightarrow> g i = i) \<Longrightarrow> map_insts g m = m"
proof -
  assume "\<And>i. i \<in> set (all_insts m) \<Longrightarrow> g i = i"
  then have "map_insts g m = map_insts (\<lambda>i. i) m" by (rule map_insts_cong)
  then show ?thesis by (simp add: map_insts_def)
qed

lemma get_inst_unique:
  assumes "distinct (map inst_id (all_insts m))" and "i \<in> set (all_insts m)"
  shows "get_inst m (inst_id i) = Some i"
  using find_unique [OF assms(2,1)] by (simp add: get_inst_def)

lemma patchInstruction_spec:
  assumes "patchInstruction a (m, ps) = Inr (m', ps')" and "distinct (map inst_id (all_insts m))"
  shows "m' = map_insts (\<lambda>i. if inst_id i = a then retarget m i else i) m \<and>
    IDG ps' = IDG ps \<and> hookList ps' = hookList ps"
proof (cases "get_inst m a")
  case None
  then show ?thesis using assms(1) by (simp add: patchInstruction_def)
next
  case (Some x)
  have mem: "x \<in> set (all_insts m)" "inst_id x = a"
    using find_Some_mem [OF Some [unfolded get_inst_def]] by auto
  have only: "i = x" if "i \<in> set (all_insts m)" "inst_id i = a" for i
    using get_inst_unique [OF assms(2) that(1)] that(2) Some by simp
  have eq: "map_insts (\<lambda>i. if inst_id i = a then retarget m i else i) m =
      map_insts (\<lambda>i. if inst_id i = a then retarget m x else i) m"
    using only by (intro map_insts_cong) auto
  have same: "map_insts (\<lambda>i. if inst_id i = a then x else i) m = m"
    using only by (intro map_insts_id) auto
  show ?thesis
  proof (cases x)
    case (OtherInst n as)
    then show ?thesis using assms(1) Some by (simp add: patchInstruction_def)
  next
    case (CallBase n k c as)
    show ?thesis
    proof (cases c)
      case Indirect
      then show ?thesis using assms(1) Some CallBase by (simp add: patchInstruction_def)
    next
      case (Func g)
      have r: "retarget m x = CallBase n k (Func (retarget_name m g)) as" using CallBase Func by simp
      show ?thesis
        unfolding eq r retarget_name_def using assms(1) Some same CallBase Func
        by (cases "AllocReplacementMap g") (auto simp: patchInstruction_def cong: if_cong split: if_splits)
    qed
  qed
qed

lemma patch_all_spec:
  assumes "patch_all as (m, ps) = Inr (m', ps')" and "distinct (map inst_id (all_insts m))"
  shows "m' = map_insts (\<lambda>i. if inst_id i \<in> set as then retarget m i else i) m \<and>
    IDG ps' = IDG ps \<and> hookList ps' = hookList ps"
  using assms
proof (induction as arbitrary: m ps)
  case Nil
  then show ?case by (simp add: map_insts_id)
next
  case (Cons a as)
  obtain m1 ps1 where one: "patchInstruction a (m, ps) = Inr (m1, ps1)" and rest: "patch_all as (m1, ps1) = Inr (m', ps')"
    using Cons.prems(1) by (auto simp: and_then_eq_Inr)
  note s = patchInstruction_spec [OF one Cons.prems(2)]
  have ids: "map inst_id (all_insts m1) = map inst_id (all_insts m)"
    using s by (simp add: all_insts_map o_def if_distrib [of inst_id] cong: if_cong)
  have re: "retarget m1 = retarget m" using s by (simp add: retarget_map_insts)
  from Cons.IH [OF rest] ids Cons.prems(2)
  have "m' = map_insts (\<lambda>i. if inst_id i \<in> set as then retarget m i else i) m1"
    and k: "IDG ps' = IDG ps1" "hookList ps' = hookList ps1"
    unfolding re by auto
  then have "m' = map_insts (\<lambda>i. if inst_id i \<in> set (a # as) then retarget m i else i) m"
    using s by (auto simp: map_insts_map_insts retarget_twice intro!: map_insts_cong)
  with k s show ?case by simp
qed

subsection \<open>Hooks in a module\<close>

abbreviation hook_names :: "string set" where
  "hook_names \<equiv> {''allocHook'', ''reallocHook'', ''deallocHook''}"

definition hooks_declared :: "ir_module \<Rightarrow> bool" where
  "hooks_declared m \<longleftrightarrow> (\<forall>f\<in>set (mod_funcs m). fn_name f \<in> hook_names \<longrightarrow> is_declaration f)"

lemma is_hook_names: "is_hook i \<longleftrightarrow> (\<exists>h\<in>hook_names. called_function i = Some h)"
  by (auto simp: is_hook_def)

lemma numbered_is_hook: "numbered i \<Longrightarrow> is_hook i"
  by (auto simp: hook_index_def is_hook_def split: option.splits if_splits)

lemma retarget_name_hook: "retarget_name m g \<in> hook_names \<longleftrightarrow> g \<in> hook_names"
  by (auto simp: retarget_name_def AllocReplacementMap_def)

lemma is_hook_retarget [simp]: "is_hook (retarget m i) = is_hook i"
  using retarget_name_hook by (cases "(m, i)" rule: retarget.cases) (simp_all add: is_hook_names)

lemma hook_retarget: "is_hook i \<Longrightarrow> retarget m i = i"
  by (cases "(m, i)" rule: retarget.cases)
     (auto simp: is_hook_def retarget_name_def AllocReplacementMap_def)

lemma same_call_hook: "same_call i i' \<Longrightarrow> is_hook i' = is_hook i \<and> (\<not> is_hook i \<longrightarrow> i' = i)"
  using numbered_is_hook [of i] by (auto simp: same_call_def is_hook_def)

lemma same_call_hooks: "list_all2 same_call xs ys \<Longrightarrow> filter (\<lambda>i. \<not> is_hook i) ys = filter (\<lambda>i. \<not> is_hook i) xs"
  by (induction rule: list_all2_induct) (auto dest: same_call_hook)

lemma filter_map_keep: "(\<And>x. P (h x) = P x) \<Longrightarrow> filter P (map h xs) = map h (filter P xs)"
  by (induction xs) auto

lemma insts_of_subset: "f \<in> set (mod_funcs m) \<Longrightarrow> set (insts_of f l) \<subseteq> set (all_insts m)"
proof -
  assume f: "f \<in> set (mod_funcs m)"
  show ?thesis
  proof (cases "block_of f l")
    case None
    then show ?thesis by (simp add: insts_of_def)
  next
    case (Some b)
    then have "b \<in> set (fn_blocks f)" using find_Some_mem [OF Some [unfolded block_of_def]] by simp
    then show ?thesis using f Some by (auto simp: insts_of_def all_insts_def)
  qed
qed

text \<open>The hook calls that lie in a block the traversal visits.\<close>

definition traversed_hooks :: "llvm_api \<Rightarrow> ir_module \<Rightarrow> instr set" where
  "traversed_hooks api m =
    {i. is_hook i \<and> (\<exists>f\<in>set (mod_funcs m). \<not> is_declaration f \<and> (\<exists>l\<in>set (rpo api f). i \<in> set (insts_of f l)))}"

lemma func_hooks_set:
  "RemoveHooks opts \<Longrightarrow>
    set (concat (map (func_hooks api opts) (worklist m))) = inst_id ` traversed_hooks api m"
  by (auto simp: func_hooks_def set_worklist traversed_hooks_def image_iff)

lemma traversed_subset: "traversed_hooks api m \<subseteq> set (all_insts m)"
  using insts_of_subset by (fastforce simp: traversed_hooks_def)

lemma traversed_is_hook: "i \<in> traversed_hooks api m \<Longrightarrow> is_hook i"
  by (simp add: traversed_hooks_def)

definition blamed :: "llvm_api \<Rightarrow> fault_map \<Rightarrow> ir_module \<Rightarrow> inst_id \<Rightarrow> bool" where
  "blamed api fm m a \<longleftrightarrow>
    (\<exists>f\<in>set (mod_funcs m). \<not> is_declaration f \<and>
      (\<exists>(j, bb, i)\<in>set (enumerate 0 (hook_seq api f (rpo api f) f)).
        alloc_of m i = Some a \<and> fault_at fm (fn_name f) (of_nat j) \<noteq> None))"

lemma patched_by_mem:
  "MPKProfilePath opts \<noteq> [] \<Longrightarrow>
    a \<in> set (patched_by opts fm m fn (j, i)) \<longleftrightarrow> alloc_of m i = Some a \<and> fault_at fm fn (of_nat j) \<noteq> None"
  by (auto simp: patched_by_def split: option.splits)

lemma func_patches_set:
  "MPKProfilePath opts \<noteq> [] \<Longrightarrow>
    a \<in> set (concat (map (func_patches api opts fm m) (worklist m))) \<longleftrightarrow> blamed api fm m a"
  by (simp add: func_patches_def set_worklist blamed_def patched_by_mem split_beta) blast

lemma hooks_declared_numbered: "module_numbered api opts m m' \<Longrightarrow> hooks_declared m \<Longrightarrow> hooks_declared m'"
  by (fastforce simp: module_numbered_def hooks_declared_def list_all2_conv_all_nth in_set_conv_nth
      func_numbered_def split: if_splits)

lemma hooks_declared_map: "hooks_declared m \<Longrightarrow> hooks_declared (map_insts g m)"
  by (auto simp: hooks_declared_def map_insts_def is_declaration_def)

lemma hooks_declared_erase: "hooks_declared m \<Longrightarrow> hooks_declared (erase_insts P m)"
  by (auto simp: hooks_declared_def erase_insts_def is_declaration_def)

lemma erase_names: "fn_name ` set (mod_funcs (erase_insts P m)) = fn_name ` set (mod_funcs m)"
  by (simp add: erase_insts_def image_image)

lemma remove_hook_function_spec:
  assumes "remove_hook_function name m = Inr m'" and "name \<in> hook_names" and "hooks_declared m"
  shows "all_insts m' = all_insts m" "hooks_declared m'"
    "fn_name ` set (mod_funcs m') = fn_name ` set (mod_funcs m) - {name}"
    "name \<in> fn_name ` set (mod_funcs m) \<Longrightarrow> \<forall>i\<in>set (all_insts m). called_function i \<noteq> Some name"
proof -
  have all: "all_insts (m\<lparr>mod_funcs := filter (\<lambda>f. fn_name f \<noteq> name) (mod_funcs m)\<rparr>) = all_insts m"
  proof -
    have "concat (map (\<lambda>f. concat (map bb_insts (fn_blocks f))) (filter (\<lambda>f. fn_name f \<noteq> name) fs)) =
        concat (map (\<lambda>f. concat (map bb_insts (fn_blocks f))) fs)" if "set fs \<subseteq> set (mod_funcs m)" for fs
      using that assms(2,3) by (induction fs) (auto simp: hooks_declared_def is_declaration_def)
    then show ?thesis by (simp add: all_insts_def)
  qed
  then show "all_insts m' = all_insts m" "hooks_declared m'"
    "fn_name ` set (mod_funcs m') = fn_name ` set (mod_funcs m) - {name}"
    "name \<in> fn_name ` set (mod_funcs m) \<Longrightarrow> \<forall>i\<in>set (all_insts m). called_function i \<noteq> Some name"
    using assms(1,3)
    by (auto simp: remove_hook_function_def removeFunctionUsers_def get_function_None list_ex_iff
        hooks_declared_def split: if_splits)
qed

lemma removeHooks_spec:
  assumes "removeHooks m ps = Inr m'" and "hooks_declared m"
    and "\<forall>i\<in>set (all_insts m). \<forall>h. called_function i = Some h \<longrightarrow> h \<in> fn_name ` set (mod_funcs m)"
  shows "all_insts m' = filter (\<lambda>i. inst_id i \<notin> set (hookList ps)) (all_insts m)"
    "\<forall>i\<in>set (all_insts m'). \<not> is_hook i"
    "fn_name ` set (mod_funcs m') = fn_name ` set (mod_funcs m) - hook_names"
proof -
  let ?m = "erase_insts (\<lambda>i. inst_id i \<in> set (hookList ps)) m"
  obtain m1 m2 where r: "remove_hook_function ''allocHook'' ?m = Inr m1"
    "remove_hook_function ''reallocHook'' m1 = Inr m2" "remove_hook_function ''deallocHook'' m2 = Inr m'"
    using assms(1) erase_hooks_erases by (auto simp: removeHooks_def and_then_eq_Inr)
  note s1 = remove_hook_function_spec [OF r(1) _ hooks_declared_erase [OF assms(2)], simplified]
  note s2 = remove_hook_function_spec [OF r(2) _ s1(2), simplified]
  note s3 = remove_hook_function_spec [OF r(3) _ s2(2), simplified]
  show insts: "all_insts m' = filter (\<lambda>i. inst_id i \<notin> set (hookList ps)) (all_insts m)"
    using s1(1) s2(1) s3(1) by (simp add: all_insts_erase)
  show "fn_name ` set (mod_funcs m') = fn_name ` set (mod_funcs m) - hook_names"
    using s1(3) s2(3) s3(3) by (auto simp: erase_names)
  show "\<forall>i\<in>set (all_insts m'). \<not> is_hook i"
  proof (rule ballI, rule notI)
    fix i assume i: "i \<in> set (all_insts m')" "is_hook i"
    then obtain h where h: "h \<in> hook_names" "called_function i = Some h" by (auto simp: is_hook_names)
    then have "h \<in> fn_name ` set (mod_funcs m)" using assms(3) i insts by auto
    then have names: "h \<in> fn_name ` set (mod_funcs ?m)"
      "h \<noteq> ''allocHook'' \<Longrightarrow> h \<in> fn_name ` set (mod_funcs m1)"
      "h \<noteq> ''allocHook'' \<Longrightarrow> h \<noteq> ''reallocHook'' \<Longrightarrow> h \<in> fn_name ` set (mod_funcs m2)"
      using s1(3) s2(3) by (simp_all add: erase_names)
    have mem: "i \<in> set (all_insts ?m)" "i \<in> set (all_insts m1)" "i \<in> set (all_insts m2)"
      using i(1) s1(1) s2(1) s3(1) by simp_all
    from h(1) consider "h = ''allocHook''" | "h = ''reallocHook''" | "h = ''deallocHook''" by blast
    then show False
    proof cases
      case 1
      then show False using s1(4) names(1) mem(1) h(2) by blast
    next
      case 2
      then have "''reallocHook'' \<in> fn_name ` set (mod_funcs m1)" using names(2) by simp
      then show False using s2(4) mem(2) h(2) 2 by blast
    next
      case 3
      then have "''deallocHook'' \<in> fn_name ` set (mod_funcs m2)" using names(3) by simp
      then show False using s3(4) mem(3) h(2) 3 by blast
    qed
  qed
qed

subsection \<open>The whole run\<close>

text \<open>The run, taken apart: after the numbering, after the patching, after the removal.\<close>

lemma run_post_cases:
  assumes "run_post api fe j1 j2 opts m ps = Inr (m', ps')"
    and "well_formed m" and "\<forall>f\<in>set (mod_funcs m). rpo_ok api f"
    and "patchList ps = []" and "hookList ps = []"
  obtains fm m1 ps1 m2 ps2 m3 where "getFaultingAllocMap fe j1 j2 (MPKProfilePath opts) = Inr fm"
    "module_numbered api opts m m1"
    "m2 = map_insts (\<lambda>i. if MPKProfilePath opts \<noteq> [] \<and> blamed api fm m (inst_id i) then retarget m i else i) m1"
    "hookList ps2 = concat (map (func_hooks api opts) (worklist m))" "IDG ps2 = IDG ps"
    "if RemoveHooks opts then removeHooks m2 ps2 = Inr m3 else m3 = m2"
    "m' = m3\<lparr>mod_AllocSiteTotal := Some (IDG ps)\<rparr>" "ps' = ps2"
proof -
  from assms(1) obtain m1 ps1 m2 ps2 m3 where
    a: "assignLocalIDs api fe j1 j2 opts m ps = Inr (m1, ps1)"
    and p: "(if MPKProfilePath opts \<noteq> [] then patch_all (patchList ps1) (m1, ps1) else Inr (m1, ps1)) = Inr (m2, ps2)"
    and r: "(if RemoveHooks opts then removeHooks m2 ps2 else Inr m2) = Inr m3"
    and m': "m' = m3\<lparr>mod_AllocSiteTotal := Some (IDG ps2)\<rparr>" "ps' = ps2"
    by (auto simp: run_post_def and_then_eq_Inr)
  obtain fm where fm: "getFaultingAllocMap fe j1 j2 (MPKProfilePath opts) = Inr fm"
    and num: "module_numbered api opts m m1"
    and ps1: "patchList ps1 = patchList ps @ concat (map (func_patches api opts fm m) (worklist m))"
      "hookList ps1 = hookList ps @ concat (map (func_hooks api opts) (worklist m))" "IDG ps1 = IDG ps"
    by (rule assignLocalIDs_spec [OF a assms(2,3)])
  have ids: "distinct (map inst_id (all_insts m1))"
    using same_call_ids [OF module_insts_same [OF num assms(2)]] assms(2) by (simp add: well_formed_def)
  have re: "retarget m1 = retarget m"
    by (rule retarget_names) (metis list.set_map module_names [OF num])
  have m2: "m2 = map_insts (\<lambda>i. if MPKProfilePath opts \<noteq> [] \<and> blamed api fm m (inst_id i) then retarget m i else i) m1"
    and ps2: "IDG ps2 = IDG ps1" "hookList ps2 = hookList ps1"
  proof -
    have "m2 = map_insts (\<lambda>i. if MPKProfilePath opts \<noteq> [] \<and> blamed api fm m (inst_id i) then retarget m i else i) m1 \<and>
        IDG ps2 = IDG ps1 \<and> hookList ps2 = hookList ps1"
    proof (cases "MPKProfilePath opts = []")
      case True
      then show ?thesis using p by (simp add: map_insts_id)
    next
      case False
      then have "patch_all (patchList ps1) (m1, ps1) = Inr (m2, ps2)" using p by simp
      from patch_all_spec [OF this ids, unfolded re] func_patches_set [OF False, of _ api fm m] False
      show ?thesis by (simp add: ps1(1) assms(4))
    qed
    then show "m2 = map_insts (\<lambda>i. if MPKProfilePath opts \<noteq> [] \<and> blamed api fm m (inst_id i) then retarget m i else i) m1"
      "IDG ps2 = IDG ps1" "hookList ps2 = hookList ps1" by blast+
  qed
  show ?thesis
    by (rule that [OF fm num m2, of ps2 m3]) (use ps1 ps2 r m' assms(5) in \<open>simp_all split: if_splits\<close>)
qed

lemma final_map_hooks:
  "filter (\<lambda>i. \<not> is_hook i) (map (\<lambda>i. if P i then retarget m i else i) xs) =
    map (\<lambda>i. if P i then retarget m i else i) (filter (\<lambda>i. \<not> is_hook i) xs)"
  by (induction xs) auto

text \<open>How the instructions after numbering and patching relate to those before.\<close>

definition kept :: "instr \<Rightarrow> instr \<Rightarrow> bool" where
  "kept i i' \<longleftrightarrow> inst_id i' = inst_id i \<and> is_hook i' = is_hook i \<and> (is_hook i \<longrightarrow> called_function i' = called_function i)"

lemma same_call_kept: "same_call i i' \<Longrightarrow> kept i (if P i' then retarget m i' else i')"
  using same_call_hook [of i i'] hook_retarget [of i' m]
  by (cases "P i'"; cases "is_hook i") (simp_all add: kept_def same_call_def)

lemma kept_insts:
  assumes "module_numbered api opts m m1" and "well_formed m"
    and "m2 = map_insts (\<lambda>i. if P i then retarget m i else i) m1"
  shows "list_all2 kept (all_insts m) (all_insts m2)"
proof -
  have "list_all2 (\<lambda>i i'. kept i (if P i' then retarget m i' else i')) (all_insts m) (all_insts m1)"
    using module_insts_same [OF assms(1,2)]
    by (rule list_all2_mono) (rule same_call_kept)
  then show ?thesis by (simp add: assms(3) all_insts_map list_all2_map2)
qed

lemma kept_mem:
  assumes "list_all2 kept xs ys"
  shows "i \<in> set xs \<Longrightarrow> \<exists>i'\<in>set ys. kept i i'" "i' \<in> set ys \<Longrightarrow> \<exists>i\<in>set xs. kept i i'"
  using assms by (fastforce simp: list_all2_conv_all_nth in_set_conv_nth)+

lemma names_after:
  assumes "module_numbered api opts m m1" and "m2 = map_insts g m1"
  shows "fn_name ` set (mod_funcs m2) = fn_name ` set (mod_funcs m)"
  unfolding assms(2) map_insts_names using module_names [OF assms(1)] by (metis list.set_map)

text \<open>Every function that is called is in the module.\<close>

definition callees_known :: "ir_module \<Rightarrow> bool" where
  "callees_known m \<longleftrightarrow>
    (\<forall>i\<in>set (all_insts m). \<forall>h. called_function i = Some h \<longrightarrow> h \<in> fn_name ` set (mod_funcs m))"

lemma retarget_known:
  assumes "called_function (retarget m i) = Some h"
    and "\<And>g. called_function i = Some g \<Longrightarrow> g \<in> fn_name ` set (mod_funcs m)"
  shows "h \<in> fn_name ` set (mod_funcs m)"
  using assms
  by (cases "(m, i)" rule: retarget.cases)
     (auto simp: retarget_name_def get_function_None split: option.splits if_splits)

lemma callees_known_after:
  assumes "callees_known m" and "module_numbered api opts m m1" and "well_formed m"
    and "m2 = map_insts (\<lambda>i. if P i then retarget m i else i) m1"
  shows "callees_known m2"
  unfolding callees_known_def names_after [OF assms(2,4)]
proof (intro ballI allI impI)
  fix i2 h assume "i2 \<in> set (all_insts m2)" and h: "called_function i2 = Some h"
  then obtain i1 where i1: "i1 \<in> set (all_insts m1)" "i2 = (if P i1 then retarget m i1 else i1)"
    by (auto simp: assms(4) all_insts_map)
  then obtain i where "i \<in> set (all_insts m)" "same_call i i1"
    using module_insts_same [OF assms(2,3)] by (fastforce simp: list_all2_conv_all_nth in_set_conv_nth)
  then have "g \<in> fn_name ` set (mod_funcs m)" if "called_function i1 = Some g" for g
    using that assms(1) by (auto simp: callees_known_def same_call_def)
  then show "h \<in> fn_name ` set (mod_funcs m)"
    using h i1(2) retarget_known [of m i1 h] by (auto split: if_splits)
qed

lemma not_in_hook_list:
  assumes "list_all2 kept (all_insts m) (all_insts m2)" and "well_formed m"
    and "x \<in> set (all_insts m2)" and "\<not> is_hook x"
  shows "inst_id x \<notin> inst_id ` traversed_hooks api m"
proof
  assume "inst_id x \<in> inst_id ` traversed_hooks api m"
  then obtain t where "t \<in> traversed_hooks api m" and same: "inst_id x = inst_id t"
    by (rule imageE)
  then have t: "t \<in> set (all_insts m)" "is_hook t" "inst_id t = inst_id x"
    using traversed_subset [of api m] traversed_is_hook by (simp_all add: subset_iff)
  obtain i where i: "i \<in> set (all_insts m)" "kept i x"
    using kept_mem(2) [OF assms(1,3)] by blast
  have "i = t"
    using i t assms(2) by (auto simp: well_formed_def kept_def distinct_map inj_on_def)
  then show False using i(2) t(2) assms(4) by (simp add: kept_def)
qed

subsection \<open>An example\<close>

text \<open>
  A module with one function that allocates twice, the hooks the pre pass leaves behind the two
  calls, and a profile that names the second site.
\<close>

definition demo_module :: ir_module where
  "demo_module =
    \<lparr>mod_funcs =
      [\<lparr>fn_name = ''allocHook'', fn_blocks = []\<rparr>, \<lparr>fn_name = ''deallocHook'', fn_blocks = []\<rparr>,
       \<lparr>fn_name = ''trusted_malloc'', fn_blocks = []\<rparr>, \<lparr>fn_name = ''untrusted_malloc'', fn_blocks = []\<rparr>,
       \<lparr>fn_name = ''trusted_free'', fn_blocks = []\<rparr>,
       \<lparr>fn_name = ''f'', fn_blocks =
         [\<lparr>bb_label = 0, bb_name = ''entry'', bb_insts =
            [CallBase 0 CallInst (Func ''trusted_malloc'') [Int64 16],
             CallBase 1 CallInst (Func ''allocHook'') [Result 0, Int64 16, Int64 (-1), NullPtr, NullPtr],
             OtherInst 2 [Result 0]]\<rparr>,
          \<lparr>bb_label = 1, bb_name = [], bb_insts =
            [CallBase 3 CallInst (Func ''trusted_malloc'') [Int64 32],
             CallBase 4 CallInst (Func ''allocHook'') [Result 3, Int64 32, Int64 (-1), NullPtr, NullPtr],
             CallBase 5 CallInst (Func ''trusted_free'') [Result 0],
             CallBase 6 CallInst (Func ''deallocHook'') [Result 0, OtherValue 0, Int64 (-1)]]\<rparr>]\<rparr>],
     mod_AllocSiteTotal = None\<rparr>"

definition demo_files :: file_env where
  "demo_files =
    \<lparr>fe_is_directory = (\<lambda>_. False), fe_entries = (\<lambda>_. []), fe_extension = (\<lambda>_. []), fe_read = (\<lambda>_. Some []),
     fe_parse = (\<lambda>_. Some (JArray [JObject [(''id'', JNumber (Some 1)), (''pkey'', JNumber (Some 1)),
       (''bbName'', JString ''block1''), (''funcName'', JString ''f'')]]))\<rparr>"

abbreviation profile_build :: post_options where
  "profile_build \<equiv> \<lparr>MPKProfilePath = ''p'', RemoveHooks = True\<rparr>"

abbreviation hook_build :: post_options where
  "hook_build \<equiv> \<lparr>MPKProfilePath = [], RemoveHooks = False\<rparr>"

lemma demo_module_ok:
  "well_formed demo_module" "\<forall>f\<in>set (mod_funcs demo_module). rpo_ok demo_api f" "hooks_declared demo_module"
  "callees_known demo_module"
proof -
  show "well_formed demo_module" by code_simp
  show "\<forall>f\<in>set (mod_funcs demo_module). rpo_ok demo_api f" by code_simp
  show "hooks_declared demo_module" by code_simp
  show "callees_known demo_module" by (simp add: callees_known_def all_insts_def demo_module_def)
qed

lemma demo_runs:
  "\<exists>m ps. assignLocalIDs demo_api demo_files 0 0 hook_build demo_module post_globals0 = Inr (m, ps)"
  "\<exists>m ps. assignLocalIDs demo_api demo_files 0 0 profile_build demo_module post_globals0 = Inr (m, ps)"
  "\<exists>m ps. run_post demo_api demo_files 0 0 profile_build demo_module post_globals0 = Inr (m, ps)"
proof -
  have isl: "\<not> isl r \<Longrightarrow> \<exists>m ps. r = Inr (m, ps)" for r :: "pass_error + ir_module \<times> post_globals"
    by (cases r) auto
  show "\<exists>m ps. assignLocalIDs demo_api demo_files 0 0 hook_build demo_module post_globals0 = Inr (m, ps)"
    by (rule isl) code_simp
  show "\<exists>m ps. assignLocalIDs demo_api demo_files 0 0 profile_build demo_module post_globals0 = Inr (m, ps)"
    by (rule isl) code_simp
  show "\<exists>m ps. run_post demo_api demo_files 0 0 profile_build demo_module post_globals0 = Inr (m, ps)"
    by (rule isl) code_simp
qed

abbreviation demo_f :: func where
  "demo_f \<equiv> mod_funcs demo_module ! 5"

lemma demo_f: "demo_f \<in> set (mod_funcs demo_module)" "\<not> is_declaration demo_f" "fn_name demo_f = ''f''"
  by (simp_all add: demo_module_def is_declaration_def)

subsection \<open>Properties\<close>

text \<open>C35: After the pass the numbered hooks of a function, in traversal order, are the hook calls it
  had, and carry the identifiers 0, 1, 2, ... together with the names of their block and
  function.\<close>

theorem hooks_numbered:
  assumes "assignLocalIDs api fe j1 j2 opts m ps = Inr (m', ps')" and "\<not> RemoveHooks opts"
    and "well_formed m" and "\<forall>f\<in>set (mod_funcs m). rpo_ok api f"
    and "f \<in> set (mod_funcs m)" and "\<not> is_declaration f"
  shows "\<exists>g\<in>set (mod_funcs m'). fn_name g = fn_name f \<and>
    map (\<lambda>(bb, i). (inst_id i, hook_operands i)) (hook_seq api f (rpo api f) g) =
    map (\<lambda>(j, bb, i). (inst_id i, Some (Int64 (of_nat j), GlobalStr bb, GlobalStr (fn_name f))))
      (enumerate 0 (hook_seq api f (rpo api f) f))"
proof -
  obtain fm where "module_numbered api opts m m'"
    by (rule assignLocalIDs_spec [OF assms(1,3,4)])
  then obtain g where g: "g \<in> set (mod_funcs m')" "func_numbered api opts f g"
    using assms(5,6) by (rule module_numbered_func)
  have "hook_operands (with_id opts (fn_name f) bb j i) =
      Some (Int64 (of_nat j), GlobalStr bb, GlobalStr (fn_name f))"
    if "(bb, i) \<in> set (hook_seq api f (rpo api f) f)" for bb i j
    using hook_seq_mem [OF that] g(2) assms(2)
    by (intro hook_operands_with_id) (auto simp: func_numbered_def)
  then have "map (\<lambda>(bb, i). (inst_id i, hook_operands i)) (hook_seq api f (rpo api f) g) =
      map (\<lambda>(j, bb, i). (inst_id i, Some (Int64 (of_nat j), GlobalStr bb, GlobalStr (fn_name f))))
      (enumerate 0 (hook_seq api f (rpo api f) f))"
    using g(2) unfolding func_numbered_def by (auto intro!: numbered_seq_map)
  then show ?thesis using g by (auto simp: func_numbered_def)
qed

theorem hooks_numbered_witness:
  "\<exists>m' ps'. assignLocalIDs demo_api demo_files 0 0 hook_build demo_module post_globals0 = Inr (m', ps') \<and>
    (\<exists>g\<in>set (mod_funcs m'). fn_name g = ''f'' \<and>
      map (\<lambda>(bb, i). (inst_id i, hook_operands i)) (hook_seq demo_api demo_f [0, 1] g) =
        [(1, Some (Int64 0, GlobalStr ''entry'', GlobalStr ''f'')), (4, Some (Int64 1, GlobalStr ''block1'', GlobalStr ''f''))])"
proof -
  obtain m' ps' where run: "assignLocalIDs demo_api demo_files 0 0 hook_build demo_module post_globals0 = Inr (m', ps')"
    using demo_runs(1) by blast
  have seq: "map (\<lambda>(j, bb, i). (inst_id i, Some (Int64 (of_nat j), GlobalStr bb, GlobalStr (fn_name demo_f))))
        (enumerate 0 (hook_seq demo_api demo_f [0, 1] demo_f)) =
      [(1, Some (Int64 0, GlobalStr ''entry'', GlobalStr ''f'')), (4, Some (Int64 1, GlobalStr ''block1'', GlobalStr ''f''))]"
    by code_simp
  have "rpo demo_api demo_f = [0, 1]" by (simp add: demo_api_def demo_module_def)
  then show ?thesis
    using run seq hooks_numbered [OF run _ demo_module_ok(1,2) demo_f(1,2)] by (auto simp: demo_f(3))
qed

text \<open>C36: Two builds of the same module give every hook the same identifier, whatever profile the
  one or the other reads and whether it keeps or removes the hooks.\<close>

theorem numbering_stable:
  assumes "assignLocalIDs api fe j1 j2 opts m ps = Inr (m1, ps1)"
    and "assignLocalIDs api fe' j1' j2' opts' m ps' = Inr (m2, ps2)"
    and "well_formed m" and "\<forall>f\<in>set (mod_funcs m). rpo_ok api f"
    and "f \<in> set (mod_funcs m)" and "\<not> is_declaration f"
  shows "\<exists>g1\<in>set (mod_funcs m1). \<exists>g2\<in>set (mod_funcs m2). fn_name g1 = fn_name f \<and> fn_name g2 = fn_name f \<and>
    map (\<lambda>(bb, i). (bb, inst_id i, local_id i)) (hook_seq api f (rpo api f) g1) =
    map (\<lambda>(bb, i). (bb, inst_id i, local_id i)) (hook_seq api f (rpo api f) g2)"
proof -
  have ids: "map (\<lambda>(bb, i). (bb, inst_id i, local_id i)) (hook_seq api f (rpo api f) g) =
      map (\<lambda>(j, bb, i). (bb, inst_id i, Some (Int64 (of_nat j)))) (enumerate 0 (hook_seq api f (rpo api f) f))"
    if g: "func_numbered api opts f g" for opts g
  proof -
    have "local_id (with_id opts (fn_name f) bb j i) = Some (Int64 (of_nat j))"
      if "(bb, i) \<in> set (hook_seq api f (rpo api f) f)" for bb i j
      using hook_seq_mem [OF that] g by (intro local_id_with_id) (auto simp: func_numbered_def)
    then show ?thesis using g unfolding func_numbered_def by (auto intro!: numbered_seq_map)
  qed
  obtain fm where "module_numbered api opts m m1" by (rule assignLocalIDs_spec [OF assms(1,3,4)])
  then obtain g1 where g1: "g1 \<in> set (mod_funcs m1)" "func_numbered api opts f g1"
    using assms(5,6) by (rule module_numbered_func)
  obtain fm' where "module_numbered api opts' m m2" by (rule assignLocalIDs_spec [OF assms(2-4)])
  then obtain g2 where g2: "g2 \<in> set (mod_funcs m2)" "func_numbered api opts' f g2"
    using assms(5,6) by (rule module_numbered_func)
  have "fn_name g1 = fn_name f" "fn_name g2 = fn_name f"
    using g1(2) g2(2) by (simp_all add: func_numbered_def)
  moreover have "map (\<lambda>(bb, i). (bb, inst_id i, local_id i)) (hook_seq api f (rpo api f) g1) =
      map (\<lambda>(bb, i). (bb, inst_id i, local_id i)) (hook_seq api f (rpo api f) g2)"
    unfolding ids [OF g1(2)] ids [OF g2(2)] by (rule refl)
  ultimately show ?thesis using g1(1) g2(1) by (intro bexI [of _ g1] bexI [of _ g2] conjI)
qed

theorem numbering_stable_witness:
  "\<exists>m1 ps1 m2 ps2. assignLocalIDs demo_api demo_files 0 0 hook_build demo_module post_globals0 = Inr (m1, ps1) \<and>
    assignLocalIDs demo_api demo_files 0 0 profile_build demo_module post_globals0 = Inr (m2, ps2) \<and>
    (\<exists>g1\<in>set (mod_funcs m1). \<exists>g2\<in>set (mod_funcs m2). fn_name g1 = ''f'' \<and> fn_name g2 = ''f'' \<and>
      map (\<lambda>(bb, i). (bb, inst_id i, local_id i)) (hook_seq demo_api demo_f (rpo demo_api demo_f) g1) =
      map (\<lambda>(bb, i). (bb, inst_id i, local_id i)) (hook_seq demo_api demo_f (rpo demo_api demo_f) g2))"
proof -
  obtain m1 ps1 m2 ps2 where runs:
    "assignLocalIDs demo_api demo_files 0 0 hook_build demo_module post_globals0 = Inr (m1, ps1)"
    "assignLocalIDs demo_api demo_files 0 0 profile_build demo_module post_globals0 = Inr (m2, ps2)"
    using demo_runs(1,2) by blast
  then show ?thesis
    using numbering_stable [OF runs demo_module_ok(1,2) demo_f(1,2)] unfolding demo_f(3) by blast
qed

lemma post_redirects:
  assumes "run_post api fe j1 j2 opts m post_globals0 = Inr (m', ps')" and "MPKProfilePath opts \<noteq> []"
    and "getFaultingAllocMap fe j1 j2 (MPKProfilePath opts) = Inr fm"
    and "well_formed m" and "\<forall>f\<in>set (mod_funcs m). rpo_ok api f" and "hooks_declared m"
    and "callees_known m"
  shows "filter (\<lambda>i. \<not> is_hook i) (all_insts m') =
    map (\<lambda>i. if blamed api fm m (inst_id i) then retarget m i else i) (filter (\<lambda>i. \<not> is_hook i) (all_insts m))"
proof -
  let ?P = "\<lambda>i. MPKProfilePath opts \<noteq> [] \<and> blamed api fm m (inst_id i)"
  obtain m1 m2 ps2 m3 where num: "module_numbered api opts m m1"
    and m2: "m2 = map_insts (\<lambda>i. if ?P i then retarget m i else i) m1"
    and hl: "hookList ps2 = concat (map (func_hooks api opts) (worklist m))"
    and m3: "if RemoveHooks opts then removeHooks m2 ps2 = Inr m3 else m3 = m2"
    and m': "m' = m3\<lparr>mod_AllocSiteTotal := Some (IDG post_globals0)\<rparr>"
    by (rule run_post_cases [OF assms(1,4,5)]) (use assms(3) in \<open>simp_all add: post_globals0_def\<close>)
  have kept: "list_all2 kept (all_insts m) (all_insts m2)" by (rule kept_insts [OF num assms(4) m2])
  have "filter (\<lambda>i. \<not> is_hook i) (all_insts m3) = filter (\<lambda>i. \<not> is_hook i) (all_insts m2)"
  proof (cases "RemoveHooks opts")
    case True
    have "callees_known m2" by (rule callees_known_after [OF assms(7) num assms(4) m2])
    moreover have "hooks_declared m2"
      unfolding m2 by (rule hooks_declared_map [OF hooks_declared_numbered [OF num assms(6)]])
    ultimately have "all_insts m3 = filter (\<lambda>i. inst_id i \<notin> inst_id ` traversed_hooks api m) (all_insts m2)"
      using True m3 removeHooks_spec(1) [of m2 ps2 m3, unfolded hl func_hooks_set [OF True]]
      by (simp only: callees_known_def if_True)
    then show ?thesis
      using not_in_hook_list [OF kept assms(4)] by (simp only: filter_filter) (rule filter_cong, auto)
  qed (use m3 in simp)
  also have "\<dots> = map (\<lambda>i. if ?P i then retarget m i else i) (filter (\<lambda>i. \<not> is_hook i) (all_insts m))"
    unfolding m2 all_insts_map final_map_hooks
    using same_call_hooks [OF module_insts_same [OF num assms(4)]] by simp
  finally show ?thesis using m' assms(2) by (simp add: all_insts_def)
qed

text \<open>C7: Apart from the hook calls, the run leaves every instruction of the module as it is and in
  its place, except the allocation calls the profile blames: the calls that a numbered hook
  refers to at a position the fault map has. These call the untrusted allocator, if their
  function has a replacement and the module declares it. The module is well formed, it only declares the
  hooks, and what it calls by name are functions of the module.\<close>

theorem redirects_blamed_calls:
  assumes "run_post api fe j1 j2 opts m post_globals0 = Inr (m', ps')" and "MPKProfilePath opts \<noteq> []"
    and "getFaultingAllocMap fe j1 j2 (MPKProfilePath opts) = Inr fm"
    and "well_formed m" and "\<forall>f\<in>set (mod_funcs m). rpo_ok api f" and "hooks_declared m"
    and "callees_known m"
  shows "filter (\<lambda>i. \<not> is_hook i) (all_insts m') =
    map (\<lambda>i. if blamed api fm m (inst_id i) then retarget m i else i) (filter (\<lambda>i. \<not> is_hook i) (all_insts m))"
  using assms by (rule post_redirects)

theorem redirects_blamed_calls_witness:
  "\<exists>m' ps'. run_post demo_api demo_files 0 0 profile_build demo_module post_globals0 = Inr (m', ps') \<and>
    filter (\<lambda>i. \<not> is_hook i) (all_insts m') =
      [CallBase 0 CallInst (Func ''trusted_malloc'') [Int64 16], OtherInst 2 [Result 0],
       CallBase 3 CallInst (Func ''untrusted_malloc'') [Int64 32],
       CallBase 5 CallInst (Func ''trusted_free'') [Result 0]]"
proof -
  obtain m' ps' where run: "run_post demo_api demo_files 0 0 profile_build demo_module post_globals0 = Inr (m', ps')"
    using demo_runs(3) by blast
  let ?fm = "[(''f'', [(1, \<lparr>fs_localID = 1, fs_pkey = 1, fs_bbName = ''block1'', fs_funcName = ''f''\<rparr>)])]"
  have "getFaultingAllocMap demo_files 0 0 (MPKProfilePath profile_build) = Inr ?fm" by code_simp
  note result = redirects_blamed_calls [OF run _ this demo_module_ok]
  have "map (\<lambda>i. if blamed demo_api ?fm demo_module (inst_id i) then retarget demo_module i else i)
        (filter (\<lambda>i. \<not> is_hook i) (all_insts demo_module)) =
      [CallBase 0 CallInst (Func ''trusted_malloc'') [Int64 16], OtherInst 2 [Result 0],
       CallBase 3 CallInst (Func ''untrusted_malloc'') [Int64 32],
       CallBase 5 CallInst (Func ''trusted_free'') [Result 0]]"
    by code_simp
  with result run show ?thesis by simp
qed

lemma post_removes:
  assumes "run_post api fe j1 j2 opts m post_globals0 = Inr (m', ps')" and "RemoveHooks opts"
    and "well_formed m" and "\<forall>f\<in>set (mod_funcs m). rpo_ok api f" and "hooks_declared m" and "callees_known m"
  shows "(\<forall>i\<in>set (all_insts m'). \<not> is_hook i) \<and>
    fn_name ` set (mod_funcs m') = fn_name ` set (mod_funcs m) - hook_names \<and>
    {i \<in> set (all_insts m). is_hook i} = traversed_hooks api m"
proof -
  obtain P m1 m2 ps2 m3 where num: "module_numbered api opts m m1"
    and m2: "m2 = map_insts (\<lambda>i. if P i then retarget m i else i) m1"
    and hl: "hookList ps2 = concat (map (func_hooks api opts) (worklist m))"
    and m3: "removeHooks m2 ps2 = Inr m3"
    and m': "m' = m3\<lparr>mod_AllocSiteTotal := Some (IDG post_globals0)\<rparr>"
    by (rule run_post_cases [OF assms(1,3,4)]) (use assms(2) in \<open>simp_all add: post_globals0_def\<close>)
  have kept: "list_all2 kept (all_insts m) (all_insts m2)" by (rule kept_insts [OF num assms(3) m2])
  have "hooks_declared m2"
    unfolding m2 by (rule hooks_declared_map [OF hooks_declared_numbered [OF num assms(5)]])
  note r = removeHooks_spec [OF m3 this callees_known_after [OF assms(6) num assms(3) m2, unfolded callees_known_def]]
  have "i \<in> traversed_hooks api m" if i: "i \<in> set (all_insts m)" "is_hook i" for i
  proof (rule ccontr)
    assume "i \<notin> traversed_hooks api m"
    then have "inst_id i \<notin> inst_id ` traversed_hooks api m"
      using i(1) assms(3) traversed_subset [of api m] by (auto simp: well_formed_def distinct_map dest: inj_onD)
    moreover obtain i' where "i' \<in> set (all_insts m2)" "kept i i'" using kept_mem(1) [OF kept i(1)] by blast
    ultimately have "i' \<in> set (all_insts m3)" "is_hook i'"
      using r(1) [unfolded hl func_hooks_set [OF assms(2)]] i(2) by (simp_all add: kept_def)
    then show False using r(2) by blast
  qed
  then have "{i \<in> set (all_insts m). is_hook i} = traversed_hooks api m"
    using traversed_subset [of api m] by (auto simp: traversed_hooks_def)
  then show ?thesis
    using r(2,3) m' names_after [OF num m2] by (simp add: all_insts_def)
qed

text \<open>C37: With \<open>RemoveHooks\<close> a run that succeeds on a well-formed module, which only declares the hooks and
  calls by name only functions of its own, leaves no hook call and no hook function, and this
  needs every hook call to lie in a block the traversal visited: the loop that was written for
  the calls in unreachable blocks changes the list it walks.\<close>

theorem hooks_removed:
  assumes "run_post api fe j1 j2 opts m post_globals0 = Inr (m', ps')" and "RemoveHooks opts"
    and "well_formed m" and "\<forall>f\<in>set (mod_funcs m). rpo_ok api f" and "hooks_declared m" and "callees_known m"
  shows "(\<forall>i\<in>set (all_insts m'). \<not> is_hook i) \<and>
    fn_name ` set (mod_funcs m') = fn_name ` set (mod_funcs m) - hook_names \<and>
    {i \<in> set (all_insts m). is_hook i} = traversed_hooks api m"
  using assms by (rule post_removes)

theorem hooks_removed_witness:
  "\<exists>m' ps'. run_post demo_api demo_files 0 0 profile_build demo_module post_globals0 = Inr (m', ps') \<and>
    (\<forall>i\<in>set (all_insts m'). \<not> is_hook i) \<and>
    fn_name ` set (mod_funcs m') = {''trusted_malloc'', ''untrusted_malloc'', ''trusted_free'', ''f''}"
proof -
  obtain m' ps' where run: "run_post demo_api demo_files 0 0 profile_build demo_module post_globals0 = Inr (m', ps')"
    using demo_runs(3) by blast
  have "fn_name ` set (mod_funcs demo_module) - hook_names = {''trusted_malloc'', ''untrusted_malloc'', ''trusted_free'', ''f''}"
    by (auto simp: demo_module_def)
  then show ?thesis using run hooks_removed [OF run _ demo_module_ok] by simp
qed

text \<open>The number of allocation sites the pass writes into the program is always 0: it comes from a
  generator that no identifier is taken from.\<close>

lemma site_total_is_zero:
  assumes "run_post api fe j1 j2 opts m post_globals0 = Inr (m', ps')"
    and "well_formed m" and "\<forall>f\<in>set (mod_funcs m). rpo_ok api f"
  shows "mod_AllocSiteTotal m' = Some 0"
proof -
  obtain m3 where "m' = m3\<lparr>mod_AllocSiteTotal := Some (IDG post_globals0)\<rparr>"
    by (rule run_post_cases [OF assms]) (simp_all add: post_globals0_def)
  then show ?thesis by (simp add: post_globals0_def)
qed

end
