(* ===== verification/Formatter.thy ===== *)
theory Formatter
  imports Provenance
begin

section \<open>Writing the profile\<close>

text \<open>
  \<open>Runtime/provsan_formatter.cpp\<close>: at program exit the fault set is written as a JSON array to a
  file of a fresh name in \<open>TestResults\<close>. The file system is a table of modes (what \<open>stat\<close> sees)
  and contents; the random numbers, the process id as text, and whether the system lets the
  process create a directory or open a file, are arguments.
\<close>

record fsys =
  fs_mode :: "string \<Rightarrow> u32 option"
  fs_text :: "string \<Rightarrow> string option"

record os_env =
  os_random :: "nat \<Rightarrow> nat \<Rightarrow> u64" \<comment> \<open>the numbers of the n-th generator\<close>
  os_mkdir_ok :: bool
  os_open_ok :: "string \<Rightarrow> bool"

abbreviation S_IFDIR :: u32 where "S_IFDIR \<equiv> 0x4000"
abbreviation S_IFREG :: u32 where "S_IFREG \<equiv> 0x8000"
abbreviation ATTEMPTS :: "8 word" where "ATTEMPTS \<equiv> 128"
abbreviation ENTROPY :: nat where "ENTROPY \<equiv> 16"

subsection \<open>Fresh file names\<close>

definition set_width :: "nat \<Rightarrow> char \<Rightarrow> string \<Rightarrow> string" where
  "set_width w c s = replicate (w - length s) c @ s"

definition candidate :: "string \<Rightarrow> string \<Rightarrow> string \<Rightarrow> thread_id \<Rightarrow> u64 \<Rightarrow> string" where
  "candidate path base_name extension pid r =
    path @ ''/'' @ base_name @ ''-'' @ dec_int (sint pid) @ ''-''
      @ set_width ENTROPY (CHR ''0'') (base_text 16 (unat r)) @ ''.'' @ extension"

text \<open>The loop over the attempts, counted in a byte.\<close>

function unique_loop :: "(u64 \<Rightarrow> string) \<Rightarrow> (nat \<Rightarrow> u64) \<Rightarrow> fsys \<Rightarrow> 8 word \<Rightarrow> string option" where
  "unique_loop name rand fs attempt =
    (if attempt = ATTEMPTS then None
     else if fs_mode fs (name (rand (unat attempt))) = None then Some (name (rand (unat attempt)))
     else unique_loop name rand fs (attempt + 1))"
  by pat_completeness auto
termination
proof (relation "measure (\<lambda>(_, _, _, a). unat (ATTEMPTS - a))")
  fix name :: "u64 \<Rightarrow> string" and rand :: "nat \<Rightarrow> u64" and fs :: fsys and a :: "8 word"
  assume "a \<noteq> ATTEMPTS"
  then have "ATTEMPTS - a \<noteq> 0" by simp
  then have "unat (ATTEMPTS - a - 1) < unat (ATTEMPTS - a)" by (rule unat_decr)
  then have "unat (ATTEMPTS - (a + 1)) < unat (ATTEMPTS - a)" by (simp only: diff_diff_add)
  then show "((name, rand, fs, a + 1), (name, rand, fs, a)) \<in> measure (\<lambda>(_, _, _, a). unat (ATTEMPTS - a))"
    by (simp only: in_measure case_prod_conv)
qed simp

declare unique_loop.simps [simp del]

definition makeUniqueFilename ::
    "(nat \<Rightarrow> u64) \<Rightarrow> thread_id \<Rightarrow> fsys \<Rightarrow> string \<Rightarrow> string \<Rightarrow> string \<Rightarrow> string option" where
  "makeUniqueFilename rand pid fs path base_name extension =
    unique_loop (candidate path base_name extension pid) rand fs 0"

text \<open>Opening a stream creates the file, empty.\<close>

definition create_file :: "string \<Rightarrow> fsys \<Rightarrow> fsys" where
  "create_file f fs =
    fs\<lparr>fs_mode := (fs_mode fs)(f := (case fs_mode fs f of None \<Rightarrow> Some S_IFREG | Some m \<Rightarrow> Some m)),
       fs_text := (fs_text fs)(f \<mapsto> [])\<rparr>"

definition makeUniqueStream ::
    "os_env \<Rightarrow> nat \<Rightarrow> thread_id \<Rightarrow> string \<Rightarrow> string \<Rightarrow> string \<Rightarrow> fsys \<Rightarrow> string option \<times> fsys" where
  "makeUniqueStream env n pid path base_name extension fs =
    (case makeUniqueFilename (os_random env n) pid fs path base_name extension of
       None \<Rightarrow> (None, fs)
     | Some f \<Rightarrow> (if os_open_ok env f then (Some f, create_file f fs) else (None, fs)))"

definition append_text :: "string \<Rightarrow> string \<Rightarrow> fsys \<Rightarrow> fsys" where
  "append_text f t fs =
    fs\<lparr>fs_text := (fs_text fs)(f \<mapsto> (case fs_text fs f of None \<Rightarrow> t | Some u \<Rightarrow> u @ t))\<rparr>"

definition is_directory :: "fsys \<Rightarrow> string \<Rightarrow> bool" where
  "is_directory fs d =
    (case fs_mode fs d of None \<Rightarrow> False | Some m \<Rightarrow> (if m AND S_IFDIR \<noteq> 0 then True else False))"

text \<open>\<open>mkdir\<close> fails on a path that exists.\<close>

definition mkdir :: "os_env \<Rightarrow> string \<Rightarrow> fsys \<Rightarrow> fsys option" where
  "mkdir env d fs =
    (if os_mkdir_ok env \<and> fs_mode fs d = None
     then Some (fs\<lparr>fs_mode := (fs_mode fs)(d \<mapsto> S_IFDIR OR 0x1FF)\<rparr>) else None)"

subsection \<open>The JSON text\<close>

definition nl :: string where "nl = [CHR 0x0A]"

definition dquote :: string where "dquote = [CHR 0x22]"

definition json_name :: "string \<Rightarrow> string" where
  "json_name s = dquote @ s @ dquote"

definition json_item :: "alloc_site \<Rightarrow> string" where
  "json_item fault =
    ''{ '' @ json_name ''id'' @ '': '' @ dec_int (sint (as_localID fault)) @ '', ''
      @ json_name ''pkey'' @ '': '' @ base_text 10 (unat (as_pkey fault)) @ '', ''
      @ json_name ''bbName'' @ '': '' @ json_name (as_bbName fault) @ '', ''
      @ json_name ''funcName'' @ '': '' @ json_name (as_funcName fault) @ '', ''
      @ json_name ''isRealloc'' @ '': '' @ (if as_isRealloc fault then ''true'' else ''false'') @ '' }''"

fun write_items :: "int \<Rightarrow> alloc_site list \<Rightarrow> string" where
  "write_items items_remaining [] = []"
| "write_items items_remaining (fault # faults) =
     (let items_remaining = items_remaining - 1
      in json_item fault @ (if items_remaining \<noteq> 0 then '','' else []) @ nl
           @ write_items items_remaining faults)"

definition writeJSON :: "alloc_site list \<Rightarrow> string" where
  "writeJSON faultSet =
    (if length faultSet = 0 then []
     else ''['' @ nl @ write_items (int (length faultSet)) faultSet @ '']'' @ nl)"

subsection \<open>The files\<close>

fun site_lines :: "nat \<Rightarrow> u64 list \<Rightarrow> string \<times> nat" where
  "site_lines i [] = ([], 0)"
| "site_lines i (c # cs) =
     (let (t, n) = site_lines (i + 1) cs
      in if c > 0
         then (''AllocSite('' @ base_text 10 i @ '') faults: '' @ dec_u64 c @ nl @ t, n + 1)
         else (t, n))"

definition stats_text :: "stats \<Rightarrow> string" where
  "stats_text st =
    (let (sites, found) = site_lines 0 (take (unat (AllocSiteCount st)) (AllocSiteUseCounter st))
     in ''Number of Times allocHook Called: '' @ dec_u64 (allocHookCalls st) @ nl
        @ ''Number of Times reallocHook Called: '' @ dec_u64 (reallocHookCalls st) @ nl
        @ ''Number of Times deallocHook Called: '' @ dec_u64 (deallocHookCalls st) @ nl
        @ sites @ ''Number of Unique AllocSites Found: '' @ base_text 10 found @ nl)"

definition writeUniqueFile ::
    "os_env \<Rightarrow> thread_id \<Rightarrow> stats \<Rightarrow> alloc_site list \<Rightarrow> fsys \<Rightarrow> bool \<times> fsys" where
  "writeUniqueFile env pid st faultSet fs =
    (let dir = ''TestResults'' in
     case (if is_directory fs dir then Some fs else mkdir env dir fs) of
       None \<Rightarrow> (False, fs)
     | Some fs \<Rightarrow>
         (case makeUniqueStream env 0 pid dir ''faulting-allocs'' ''json'' fs of
            (None, fs) \<Rightarrow> (False, fs)
          | (Some f, fs) \<Rightarrow>
              let fs = append_text f (writeJSON faultSet) fs in
              if AllocSiteCount st \<noteq> 0 then
                (case makeUniqueStream env 1 pid dir ''runtime-stats'' ''stat'' fs of
                   (None, fs) \<Rightarrow> (False, fs)
                 | (Some g, fs) \<Rightarrow> (True, append_text g (stats_text st) fs))
              else (True, fs)))"

definition flush_allocs ::
    "platform \<Rightarrow> os_env \<Rightarrow> runtime \<Rightarrow> fsys \<Rightarrow> rt_error + runtime \<times> fsys" where
  "flush_allocs pf env rt fs =
    (let rt = getOrInit pf rt in
     and_then (the_handler rt) (\<lambda>h.
       let fault_set = faultingAllocs h in
       if fault_set = [] then Inr (rt, fs)
       else Inr (rt, snd (writeUniqueFile env (getpid pf) (rt_stats rt) fault_set fs))))"

subsection \<open>Names and files are fresh\<close>

lemma unique_loop_result:
  "unique_loop name rand fs a = Some f \<Longrightarrow> fs_mode fs f = None \<and> (\<exists>r. f = name r)"
proof (induction name rand fs a rule: unique_loop.induct)
  case (1 name rand fs a)
  then show ?case
    using unique_loop.simps [of name rand fs a] by (auto split: if_splits)
qed

text \<open>The loop gives up exactly when every remaining attempt hits an existing file.\<close>

lemma unique_loop_None_iff:
  "unat a \<le> 128 \<Longrightarrow> unique_loop name rand fs a = None \<longleftrightarrow>
    (\<forall>i. unat a \<le> i \<and> i < 128 \<longrightarrow> fs_mode fs (name (rand i)) \<noteq> None)"
proof (induction name rand fs a rule: unique_loop.induct)
  case (1 name rand fs a)
  show ?case
  proof (cases "a = ATTEMPTS")
    case True
    then show ?thesis by (auto simp: unique_loop.simps)
  next
    case False
    then have "unat a \<noteq> unat ATTEMPTS" by (metis unsigned_word_eqI)
    with "1.prems" have lt: "unat a < 128" by simp
    then have suc: "unat (a + 1) = Suc (unat a)"
      by (simp add: unat_word_ariths)
    show ?thesis
    proof (cases "fs_mode fs (name (rand (unat a))) = None")
      case True
      with False lt show ?thesis by (subst unique_loop.simps) auto
    next
      case taken: False
      have "unique_loop name rand fs a = unique_loop name rand fs (a + 1)"
        using False taken unique_loop.simps [of name rand fs a] by auto
      moreover have "unique_loop name rand fs (a + 1) = None \<longleftrightarrow>
          (\<forall>i. unat (a + 1) \<le> i \<and> i < 128 \<longrightarrow> fs_mode fs (name (rand i)) \<noteq> None)"
        using "1.IH" [OF False taken] suc lt by simp
      ultimately show ?thesis
        unfolding suc all_from_Suc [OF lt] using taken by simp
    qed
  qed
qed

text \<open>A file with a text has a mode.\<close>

definition fs_ok :: "fsys \<Rightarrow> bool" where
  "fs_ok fs \<longleftrightarrow> (\<forall>f. fs_text fs f \<noteq> None \<longrightarrow> fs_mode fs f \<noteq> None)"

text \<open>Every file of \<open>fs\<close> is in \<open>fs'\<close> with the same mode and text.\<close>

definition keeps_files :: "fsys \<Rightarrow> fsys \<Rightarrow> bool" where
  "keeps_files fs fs' \<longleftrightarrow>
    (\<forall>f. fs_mode fs f \<noteq> None \<longrightarrow> fs_mode fs' f = fs_mode fs f \<and> fs_text fs' f = fs_text fs f)"

lemma keeps_refl [simp]: "keeps_files fs fs"
  by (simp add: keeps_files_def)

lemma keeps_trans: "keeps_files fs fs' \<Longrightarrow> keeps_files fs' fs'' \<Longrightarrow> keeps_files fs fs''"
  by (simp add: keeps_files_def)

lemma mkdir_keeps:
  "mkdir env d fs = Some fs' \<Longrightarrow> keeps_files fs fs' \<and> (fs_ok fs \<longrightarrow> fs_ok fs')"
  by (auto simp: mkdir_def keeps_files_def fs_ok_def split: if_splits)

text \<open>A stream that was made is a new, empty file.\<close>

lemma makeUniqueStream_Some:
  assumes "makeUniqueStream env n pid path base ext fs = (Some f, fs')"
  shows "fs_mode fs f = None" "fs' = create_file f fs" "keeps_files fs fs'"
    "fs_mode fs' f = Some S_IFREG" "fs_text fs' f = Some []" "\<exists>r. f = candidate path base ext pid r"
proof -
  have "makeUniqueFilename (os_random env n) pid fs path base ext = Some f" "fs' = create_file f fs"
    using assms by (auto simp: makeUniqueStream_def split: option.splits if_splits)
  then show "fs_mode fs f = None" "fs' = create_file f fs" "keeps_files fs fs'"
    "fs_mode fs' f = Some S_IFREG" "fs_text fs' f = Some []" "\<exists>r. f = candidate path base ext pid r"
    using unique_loop_result [of "candidate path base ext pid" "os_random env n" fs 0 f]
    by (auto simp: makeUniqueFilename_def create_file_def keeps_files_def)
qed

lemma makeUniqueStream_None:
  "makeUniqueStream env n pid path base ext fs = (None, fs') \<Longrightarrow> fs' = fs"
  by (auto simp: makeUniqueStream_def split: option.splits if_splits)

lemma append_keeps:
  "keeps_files fs fs' \<Longrightarrow> fs_mode fs f = None \<Longrightarrow> keeps_files fs (append_text f t fs')"
  by (auto simp: keeps_files_def append_text_def)

lemma create_append_ok: "fs_ok fs \<Longrightarrow> fs_ok (append_text f t (create_file f fs))"
  by (auto simp: fs_ok_def append_text_def create_file_def split: option.splits)

text \<open>The directory the profile goes to, after it was made sure to exist.\<close>

definition results_dir :: "os_env \<Rightarrow> fsys \<Rightarrow> fsys option" where
  "results_dir env fs = (if is_directory fs ''TestResults'' then Some fs else mkdir env ''TestResults'' fs)"

lemma results_dir_keeps:
  "results_dir env fs = Some fs' \<Longrightarrow> keeps_files fs fs' \<and> (fs_ok fs \<longrightarrow> fs_ok fs')"
  by (auto simp: results_dir_def mkdir_keeps split: if_splits)

text \<open>What \<open>writeUniqueFile\<close> did, on the branch it took.\<close>

lemma writeUniqueFile_cases:
  assumes "writeUniqueFile env pid st fset fs = (ok, fs')"
  obtains (no_dir) "\<not> ok" "fs' = fs" "results_dir env fs = None"
    | (no_stream) fs1 where "\<not> ok" "results_dir env fs = Some fs1" "fs' = fs1"
        "fst (makeUniqueStream env 0 pid ''TestResults'' ''faulting-allocs'' ''json'' fs1) = None"
    | (profile) fs1 fs2 f where "results_dir env fs = Some fs1"
        "makeUniqueStream env 0 pid ''TestResults'' ''faulting-allocs'' ''json'' fs1 = (Some f, fs2)"
        "fs' = append_text f (writeJSON fset) fs2" "ok \<longleftrightarrow> AllocSiteCount st = 0"
    | (both) fs1 fs2 fs3 f g where "results_dir env fs = Some fs1"
        "makeUniqueStream env 0 pid ''TestResults'' ''faulting-allocs'' ''json'' fs1 = (Some f, fs2)"
        "makeUniqueStream env 1 pid ''TestResults'' ''runtime-stats'' ''stat''
           (append_text f (writeJSON fset) fs2) = (Some g, fs3)"
        "fs' = append_text g (stats_text st) fs3" "ok" "AllocSiteCount st \<noteq> 0"
proof (cases "results_dir env fs")
  case None
  then show ?thesis
    using assms no_dir by (auto simp: writeUniqueFile_def results_dir_def Let_def)
next
  case (Some fs1)
  note dir = this
  obtain r fs2 where str:
    "makeUniqueStream env 0 pid ''TestResults'' ''faulting-allocs'' ''json'' fs1 = (r, fs2)"
    by (cases "makeUniqueStream env 0 pid ''TestResults'' ''faulting-allocs'' ''json'' fs1")
  show ?thesis
  proof (cases r)
    case None
    then show ?thesis
      using assms dir str no_stream makeUniqueStream_None [of env 0 pid _ _ _ fs1 fs2]
      by (simp add: writeUniqueFile_def results_dir_def [symmetric])
  next
    case (Some f)
    let ?fs2 = "append_text f (writeJSON fset) fs2"
    obtain r' fs3 where str':
      "makeUniqueStream env 1 pid ''TestResults'' ''runtime-stats'' ''stat'' ?fs2 = (r', fs3)"
      by (cases "makeUniqueStream env 1 pid ''TestResults'' ''runtime-stats'' ''stat'' ?fs2")
    show ?thesis
    proof (cases "AllocSiteCount st = 0 \<or> r' = None")
      case True
      then have "fs' = ?fs2 \<and> (ok \<longleftrightarrow> AllocSiteCount st = 0)"
        using assms dir str str' Some makeUniqueStream_None [of env 1 pid _ _ _ ?fs2 fs3]
        by (auto simp: writeUniqueFile_def results_dir_def [symmetric] Let_def split: if_splits)
      then show ?thesis using dir str Some by (intro profile) auto
    next
      case False
      then obtain g where "r' = Some g" by blast
      then show ?thesis
        using assms dir str str' Some False
        by (intro both) (auto simp: writeUniqueFile_def results_dir_def [symmetric] Let_def)
    qed
  qed
qed

lemma writeUniqueFile_keeps:
  assumes "writeUniqueFile env pid st fset fs = (ok, fs')"
  shows "keeps_files fs fs'"
  using assms
proof (cases rule: writeUniqueFile_cases)
  case no_dir
  then show ?thesis by simp
next
  case (no_stream fs1)
  then show ?thesis using results_dir_keeps by blast
next
  case (profile fs1 fs2 f)
  note s = makeUniqueStream_Some [OF profile(2)]
  show ?thesis
    unfolding profile(3)
    by (rule keeps_trans [OF conjunct1 [OF results_dir_keeps [OF profile(1)]]])
       (rule append_keeps [OF s(3) s(1)])
next
  case (both fs1 fs2 fs3 f g)
  note s = makeUniqueStream_Some [OF both(2)] and s' = makeUniqueStream_Some [OF both(3)]
  have "keeps_files fs1 (append_text g (stats_text st) fs3)"
    using keeps_trans [OF append_keeps [OF s(3) s(1)] append_keeps [OF s'(3) s'(1)]] .
  then show ?thesis
    unfolding both(4) using results_dir_keeps [OF both(1)] keeps_trans by blast
qed

lemma append_text_created:
  "fs_text (append_text f t (create_file f fs)) f = Some t"
  by (simp add: append_text_def create_file_def)

lemma append_text_other [simp]: "f \<noteq> g \<Longrightarrow> fs_text (append_text g t fs) f = fs_text fs f"
  by (simp add: append_text_def)

lemma create_file_other: "f \<noteq> g \<Longrightarrow> fs_text (create_file g fs) f = fs_text fs f"
  by (simp add: create_file_def)

lemma fs_mode_append [simp]: "fs_mode (append_text g t fs) = fs_mode fs"
  by (simp add: append_text_def)

text \<open>A successful write left the profile under a name that did not exist.\<close>

lemma writeUniqueFile_profile:
  assumes "writeUniqueFile env pid st fset fs = (ok, fs')" and "results_dir env fs = Some fs1"
    and "fst (makeUniqueStream env 0 pid ''TestResults'' ''faulting-allocs'' ''json'' fs1) \<noteq> None"
  shows "\<exists>f r. f = candidate ''TestResults'' ''faulting-allocs'' ''json'' pid r \<and>
    fs_mode fs f = None \<and> fs_text fs' f = Some (writeJSON fset)"
  using assms(1)
proof (cases rule: writeUniqueFile_cases)
  case no_dir
  then show ?thesis using assms(2) by simp
next
  case (no_stream fs1)
  then show ?thesis using assms(2,3) by simp
next
  case (profile fs1 fs2 f)
  note s = makeUniqueStream_Some [OF profile(2)]
  have "fs_mode fs f = None"
    using results_dir_keeps [OF profile(1)] s(1) by (auto simp: keeps_files_def)
  then show ?thesis using s(2,6) profile(3) append_text_created by blast
next
  case (both fs1 fs2 fs3 f g)
  note s = makeUniqueStream_Some [OF both(2)] and s' = makeUniqueStream_Some [OF both(3)]
  have "fs_mode fs f = None"
    using results_dir_keeps [OF both(1)] s(1) by (auto simp: keeps_files_def)
  moreover have "f \<noteq> g" using s(4) s'(1) by auto
  then have "fs_text fs' f = Some (writeJSON fset)"
    using both(4) s'(2) s(2) append_text_created by (simp add: create_file_other)
  ultimately show ?thesis using s(6) by blast
qed

subsection \<open>The shape of the JSON text\<close>

fun joined :: "string \<Rightarrow> string list \<Rightarrow> string" where
  "joined sep [] = []"
| "joined sep [x] = x"
| "joined sep (x # y # ys) = x @ sep @ joined sep (y # ys)"

lemma write_items_joined:
  "xs \<noteq> [] \<Longrightarrow> write_items (int (length xs)) xs = joined ('','' @ nl) (map json_item xs) @ nl"
  by (induction xs rule: induct_list012) (auto simp: Let_def)

subsection \<open>Properties\<close>

text \<open>A file system with nothing in it, and a system that grants everything.\<close>

definition demo_env :: os_env where
  "demo_env = \<lparr>os_random = (\<lambda>n i. of_nat (n + i)), os_mkdir_ok = True, os_open_ok = (\<lambda>_. True)\<rparr>"

definition demo_fs :: fsys where
  "demo_fs = \<lparr>fs_mode = Map.empty, fs_text = Map.empty\<rparr>"

text \<open>C33: \<open>makeUniqueFilename\<close> returns a name of the expected form that no file has, and gives up
  exactly when all its 128 attempts name existing files.\<close>

theorem unique_filename:
  "(makeUniqueFilename rand pid fs path base ext = None \<longleftrightarrow>
      (\<forall>i<128. fs_mode fs (candidate path base ext pid (rand i)) \<noteq> None)) \<and>
    (\<forall>f. makeUniqueFilename rand pid fs path base ext = Some f \<longrightarrow>
      fs_mode fs f = None \<and> (\<exists>r. f = candidate path base ext pid r))"
  using unique_loop_None_iff [of 0 "candidate path base ext pid" rand fs]
    unique_loop_result [of "candidate path base ext pid" rand fs 0]
  by (auto simp: makeUniqueFilename_def)

theorem unique_filename_witness: "makeUniqueFilename (\<lambda>_. 0) 100 demo_fs ''d'' ''b'' ''e'' \<noteq> None"
  using unique_filename [of "\<lambda>_. 0" 100 demo_fs "''d''" "''b''" "''e''"]
  by (auto simp: demo_fs_def dest: spec [of _ 0])

lemma flush_allocs_keeps:
  assumes "flush_allocs pf env rt fs = Inr (rt', fs')"
  shows "keeps_files fs fs'"
proof -
  have "fs' = fs \<or> (\<exists>st fset. fs' = snd (writeUniqueFile env (getpid pf) st fset fs))"
    using assms by (auto simp: flush_allocs_def and_then_eq_Inr Let_def split: if_splits)
  then show ?thesis using writeUniqueFile_keeps by (metis keeps_refl prod.collapse)
qed

text \<open>A run whose fault is on record when the process exits.\<close>

lemma demo_exit:
  obtains rt h where "rt_run demo_pf (grow_run @ [Fault 0x2010 1]) demo_rt = Inr rt"
    "the_handler (getOrInit demo_pf rt) = Inr h"
    "map site_key (faultingAllocs h) = [(''grow'', ''entry'', 1), (''f'', ''entry'', 0)]"
proof -
  obtain rt0 rt where "rt_run demo_pf grow_run demo_rt = Inr rt0" "recordFault demo_pf 0x2010 1 rt0 = Inr rt"
    unfolding demo_rt_def by (rule grow_run_result)
  then have run: "rt_run demo_pf (grow_run @ [Fault 0x2010 1]) demo_rt = Inr rt"
    by (simp add: rt_run_append)
  have "map_option (\<lambda>h. map site_key (faultingAllocs h))
      (AllocSiteHandle (projr (rt_run demo_pf (grow_run @ [Fault 0x2010 1]) demo_rt))) =
      Some [(''grow'', ''entry'', 1), (''f'', ''entry'', 0)]"
    by code_simp
  then obtain h where h: "AllocSiteHandle rt = Some h"
    "map site_key (faultingAllocs h) = [(''grow'', ''entry'', 1), (''f'', ''entry'', 0)]"
    by (auto simp: run)
  have "runtime_inv rt" using run_refines [OF demo_inv(1) run] by simp
  then have "getOrInit demo_pf rt = rt" using h(1) by (simp add: runtime_inv_def getOrInit_def)
  then show ?thesis using that run h by (simp add: the_handler_def)
qed

text \<open>When the results directory exists or can be made, files can be opened and one of the 128
  names is free, the exit handler leaves the whole fault set, as JSON, in a file that did not
  exist before.\<close>

lemma flush_writes_profile:
  assumes "flush_allocs pf env rt fs = Inr (rt', fs')" and "the_handler (getOrInit pf rt) = Inr h"
    and "faultingAllocs h \<noteq> []" and "results_dir env fs = Some fs1" and "\<forall>f. os_open_ok env f"
    and "i < 128"
    and "fs_mode fs1 (candidate ''TestResults'' ''faulting-allocs'' ''json'' (getpid pf) (os_random env 0 i)) = None"
  shows "\<exists>f. f \<noteq> [] \<and> fs_mode fs f = None \<and> fs_text fs' f = Some (writeJSON (faultingAllocs h))"
proof -
  obtain ok where w: "writeUniqueFile env (getpid pf) (rt_stats (getOrInit pf rt)) (faultingAllocs h) fs = (ok, fs')"
    using assms(1-3) by (auto simp: flush_allocs_def Let_def intro: prod.collapse [symmetric])
  have "unique_loop (candidate ''TestResults'' ''faulting-allocs'' ''json'' (getpid pf))
      (os_random env 0) fs1 0 \<noteq> None"
    using unique_loop_None_iff [of 0] assms(6,7) by auto
  then have "fst (makeUniqueStream env 0 (getpid pf) ''TestResults'' ''faulting-allocs'' ''json'' fs1) \<noteq> None"
    using assms(5) by (auto simp: makeUniqueStream_def makeUniqueFilename_def)
  from writeUniqueFile_profile [OF w assms(4) this] show ?thesis by (auto simp: candidate_def)
qed

lemma bit_16384: "bit (16384 :: int) n \<longleftrightarrow> n = 14"
proof -
  have m: "(16384 :: int) = 2 ^ 14" by simp
  show ?thesis unfolding m bit_exp_iff by auto
qed

text \<open>\<open>is_directory\<close> tests one bit of the file type, which sockets and block devices share with
  directories: it accepts them too, and rejects regular files and missing paths.\<close>

lemma is_directory_by_bit:
  assumes "fs_mode fs d = Some (ty OR perm)" and "perm \<le> 0xFFF"
    and "ty \<in> {0x4000, 0x6000, 0xC000, 0x8000}"
  shows "is_directory fs d \<longleftrightarrow> ty \<noteq> 0x8000"
proof -
  have "perm < 2 ^ 12" using assms(2) by (simp add: word_le_nat_alt word_less_nat_alt)
  then have p: "perm = take_bit 12 perm" by (simp add: take_bit_eq_mod mod_word_less)
  have "take_bit 12 perm AND S_IFDIR = 0" by (rule bit_word_eqI) (auto simp: bit_simps bit_16384)
  with p have "perm AND S_IFDIR = 0" by simp
  then have "(ty OR perm) AND S_IFDIR = ty AND S_IFDIR" by (simp add: bit.conj_disj_distrib2)
  then show ?thesis using assms(1,3) by (auto simp: is_directory_def)
qed

end
