(* ===== verification/Json_Text.thy ===== *)
theory Json_Text
  imports Formatter Fault_Profile
begin

section \<open>The profile as a JSON document\<close>

text \<open>
  \<open>writeJSON\<close> writes JSON by hand and the post pass reads it with LLVM's parser. This theory states
  the grammar of JSON texts (RFC 8259, without escapes, fractions and exponents, and with ASCII
  strings only), proves that the profile of sites with plain names is a text of it, and that a
  parser that accepts the texts of the grammar makes the post pass see the reported positions.
\<close>

subsection \<open>Grammar\<close>

definition ws :: "string \<Rightarrow> bool" where
  "ws w \<longleftrightarrow> set w \<subseteq> {CHR '' '', CHR 0x09, CHR 0x0A, CHR 0x0D}"

definition plain :: "string \<Rightarrow> bool" where
  "plain s \<longleftrightarrow>
    (\<forall>c\<in>set s. 32 \<le> (of_char c :: nat) \<and> (of_char c :: nat) < 128 \<and> c \<noteq> CHR 0x22 \<and> c \<noteq> CHR 0x5C)"

definition digits :: "string \<Rightarrow> bool" where
  "digits ds \<longleftrightarrow> ds \<noteq> [] \<and> (\<forall>c\<in>set ds. is_digit c) \<and> (hd ds = CHR ''0'' \<longrightarrow> length ds = 1)"

definition int_token :: "string \<Rightarrow> int \<Rightarrow> bool" where
  "int_token s n \<longleftrightarrow>
    (digits s \<and> n = digits_value s) \<or>
    (s \<noteq> [] \<and> hd s = CHR ''-'' \<and> digits (tl s) \<and> n = - digits_value (tl s))"

inductive json_value :: "json \<Rightarrow> string \<Rightarrow> bool"
  and json_elements :: "json list \<Rightarrow> string \<Rightarrow> bool"
  and json_members :: "(string \<times> json) list \<Rightarrow> string \<Rightarrow> bool" where
  null: "json_value JNull ''null''"
| true: "json_value (JBool True) ''true''"
| false: "json_value (JBool False) ''false''"
| number: "int_token s n \<Longrightarrow> - (2 ^ 63) \<le> n \<Longrightarrow> n < 2 ^ 63 \<Longrightarrow> json_value (JNumber (Some (word_of_int n))) s"
| string: "plain s \<Longrightarrow> json_value (JString s) (dquote @ s @ dquote)"
| empty_array: "ws w \<Longrightarrow> json_value (JArray []) (''['' @ w @ '']'')"
| array: "json_elements vs s \<Longrightarrow> json_value (JArray vs) (''['' @ s @ '']'')"
| empty_object: "ws w \<Longrightarrow> json_value (JObject []) (''{'' @ w @ ''}'')"
| object: "json_members ms s \<Longrightarrow> distinct (map fst ms) \<Longrightarrow> json_value (JObject ms) (''{'' @ s @ ''}'')"
| element: "ws w \<Longrightarrow> ws x \<Longrightarrow> json_value v s \<Longrightarrow> json_elements [v] (w @ s @ x)"
| elements: "ws w \<Longrightarrow> ws x \<Longrightarrow> json_value v s \<Longrightarrow> json_elements vs t \<Longrightarrow>
    json_elements (v # vs) (w @ s @ x @ '','' @ t)"
| member: "ws w \<Longrightarrow> ws x \<Longrightarrow> ws y \<Longrightarrow> ws z \<Longrightarrow> plain k \<Longrightarrow> json_value v s \<Longrightarrow>
    json_members [(k, v)] (w @ dquote @ k @ dquote @ x @ '':'' @ y @ s @ z)"
| members: "ws w \<Longrightarrow> ws x \<Longrightarrow> ws y \<Longrightarrow> ws z \<Longrightarrow> plain k \<Longrightarrow> json_value v s \<Longrightarrow> json_members ms t \<Longrightarrow>
    json_members ((k, v) # ms) (w @ dquote @ k @ dquote @ x @ '':'' @ y @ s @ z @ '','' @ t)"

definition json_document :: "json \<Rightarrow> string \<Rightarrow> bool" where
  "json_document v s \<longleftrightarrow> (\<exists>w t x. ws w \<and> ws x \<and> json_value v t \<and> s = w @ t @ x)"

text \<open>A parser that returns the value of every text of the grammar.\<close>

definition parses_json :: "file_env \<Rightarrow> bool" where
  "parses_json fe \<longleftrightarrow> (\<forall>v s. json_document v s \<longrightarrow> fe_parse fe s = Some v)"

lemma ws_simps [simp]: "ws []" "ws '' ''" "ws nl"
  by (simp_all add: ws_def nl_def)

subsection \<open>Numbers\<close>

lemma digits_value_append: "digits_value (ds @ [c]) = 10 * digits_value ds + (of_char c - 48)"
  by (simp add: digits_value_def)

lemma digit_char_dec: "d < 10 \<Longrightarrow> (of_char (digit_char d) :: int) = 48 + int d \<and> is_digit (digit_char d)"
proof -
  assume d: "d < 10"
  then have "(of_char (digit_char d) :: nat) = 48 + d" by (simp add: digit_char_def)
  moreover have "(of_char c :: int) = int (of_char c)" for c by (rule of_nat_of_char [symmetric])
  ultimately show ?thesis using d unfolding is_digit_def by presburger
qed

lemma base_text_digits:
  "(\<forall>c\<in>set (base_text 10 n). is_digit c) \<and> base_text 10 n \<noteq> [] \<and>
    (n \<noteq> 0 \<longrightarrow> hd (base_text 10 n) \<noteq> CHR ''0'') \<and> digits_value (base_text 10 n) = int n"
proof (induction "10 :: nat" n rule: base_text.induct)
  case (1 n)
  show ?case
  proof (cases "n < 10")
    case True
    then have t: "base_text 10 n = [digit_char n]" by (simp add: base_text.simps)
    have "digit_char n \<noteq> CHR ''0''" if "n \<noteq> 0"
      using digit_char_dec [OF True] that by auto
    then show ?thesis using digit_char_dec [OF True] by (simp add: t digits_value_def)
  next
    case False
    then have t: "base_text 10 n = base_text 10 (n div 10) @ [digit_char (n mod 10)]"
      by (subst base_text.simps) simp
    have IH: "(\<forall>c\<in>set (base_text 10 (n div 10)). is_digit c) \<and> base_text 10 (n div 10) \<noteq> [] \<and>
        (n div 10 \<noteq> 0 \<longrightarrow> hd (base_text 10 (n div 10)) \<noteq> CHR ''0'') \<and>
        digits_value (base_text 10 (n div 10)) = int (n div 10)"
      using 1 False by simp
    have "n div 10 \<noteq> 0" using False by (simp add: div_eq_0_iff)
    then show ?thesis
      using IH digit_char_dec [of "n mod 10"] div_mult_mod_eq [of n 10]
      by (simp add: t digits_value_append) presburger
  qed
qed

lemma base_text_token: "digits (base_text 10 n) \<and> digits_value (base_text 10 n) = int n"
proof (cases "n = 0")
  case True
  then show ?thesis using base_text_digits [of n] by (simp add: digits_def base_text.simps)
next
  case False
  then show ?thesis using base_text_digits [of n] by (simp add: digits_def)
qed

lemma dec_int_token: "int_token (dec_int i) i"
  using base_text_token [of "nat i"] base_text_token [of "nat (- i)"] by (auto simp: dec_int_def int_token_def)

lemma number_i64: "json_value (JNumber (Some w)) (dec_int (sint (w :: i64)))"
proof -
  have "json_value (JNumber (Some (word_of_int (sint w)))) (dec_int (sint w))"
    by (rule number [OF dec_int_token]) (use sint_range_size [of w] in \<open>simp_all add: word_size\<close>)
  then show ?thesis by simp
qed

lemma number_u32: "json_value (JNumber (Some (ucast (k :: u32)))) (base_text 10 (unat k))"
proof -
  have "int (unat k) < 2 ^ 32" using uint_lt2p [of k] by simp
  moreover have "int_token (base_text 10 (unat k)) (int (unat k))"
    using base_text_token [of "unat k"] by (simp add: int_token_def)
  ultimately have "json_value (JNumber (Some (word_of_int (int (unat k))))) (base_text 10 (unat k))"
    by (intro number) (simp_all add: order_trans [OF _ uint_ge_0])
  then show ?thesis by simp
qed

subsection \<open>The written text\<close>

text \<open>The value a site is written as.\<close>

definition site_json :: "alloc_site \<Rightarrow> json" where
  "site_json s =
    JObject [(''id'', JNumber (Some (as_localID s))), (''pkey'', JNumber (Some (ucast (as_pkey s)))),
      (''bbName'', JString (as_bbName s)), (''funcName'', JString (as_funcName s)),
      (''isRealloc'', JBool (as_isRealloc s))]"

definition plain_names :: "alloc_site \<Rightarrow> bool" where
  "plain_names s \<longleftrightarrow> plain (as_bbName s) \<and> plain (as_funcName s)"

lemma plain_keys: "plain ''id''" "plain ''pkey''" "plain ''bbName''" "plain ''funcName''" "plain ''isRealloc''"
  by (simp_all add: plain_def)

lemma json_item_value: "plain_names s \<Longrightarrow> json_value (site_json s) (json_item s)"
proof -
  assume names: "plain_names s"
  let ?id = "JNumber (Some (as_localID s))" and ?pkey = "JNumber (Some (ucast (as_pkey s)))"
  let ?bb = "JString (as_bbName s)" and ?fn = "JString (as_funcName s)" and ?re = "JBool (as_isRealloc s)"
  define t5 where "t5 = '' '' @ dquote @ ''isRealloc'' @ dquote @ [] @ '':'' @ '' '' @ (if as_isRealloc s then ''true'' else ''false'') @ '' ''"
  define t4 where "t4 = '' '' @ dquote @ ''funcName'' @ dquote @ [] @ '':'' @ '' '' @ (dquote @ as_funcName s @ dquote) @ [] @ '','' @ t5"
  define t3 where "t3 = '' '' @ dquote @ ''bbName'' @ dquote @ [] @ '':'' @ '' '' @ (dquote @ as_bbName s @ dquote) @ [] @ '','' @ t4"
  define t2 where "t2 = '' '' @ dquote @ ''pkey'' @ dquote @ [] @ '':'' @ '' '' @ base_text 10 (unat (as_pkey s)) @ [] @ '','' @ t3"
  define t1 where "t1 = '' '' @ dquote @ ''id'' @ dquote @ [] @ '':'' @ '' '' @ dec_int (sint (as_localID s)) @ [] @ '','' @ t2"
  have "json_value ?re (if as_isRealloc s then ''true'' else ''false'')"
    by (simp add: json_value_json_elements_json_members.intros(2,3))
  then have "json_members [(''isRealloc'', ?re)] t5"
    unfolding t5_def by (intro member plain_keys ws_simps)
  then have "json_members [(''funcName'', ?fn), (''isRealloc'', ?re)] t4"
    using names unfolding t4_def plain_names_def by (intro members plain_keys ws_simps string) simp_all
  then have "json_members [(''bbName'', ?bb), (''funcName'', ?fn), (''isRealloc'', ?re)] t3"
    using names unfolding t3_def plain_names_def by (intro members plain_keys ws_simps string) simp_all
  then have "json_members [(''pkey'', ?pkey), (''bbName'', ?bb), (''funcName'', ?fn), (''isRealloc'', ?re)] t2"
    unfolding t2_def by (intro members plain_keys ws_simps number_u32)
  then have "json_members [(''id'', ?id), (''pkey'', ?pkey), (''bbName'', ?bb), (''funcName'', ?fn), (''isRealloc'', ?re)] t1"
    unfolding t1_def by (intro members plain_keys ws_simps number_i64)
  then have "json_value (site_json s) (''{'' @ t1 @ ''}'')"
    unfolding site_json_def by (rule object) simp
  moreover have "json_item s = ''{'' @ t1 @ ''}''"
    by (simp add: json_item_def json_name_def t1_def t2_def t3_def t4_def t5_def)
  ultimately show ?thesis by simp
qed

lemma items_elements:
  "faults \<noteq> [] \<Longrightarrow> \<forall>s\<in>set faults. plain_names s \<Longrightarrow> ws w \<Longrightarrow>
    json_elements (map site_json faults) (w @ joined ('','' @ nl) (map json_item faults) @ nl)"
proof (induction faults arbitrary: w rule: induct_list012)
  case (2 s)
  then show ?case using element [of w nl "site_json s" "json_item s"] by (simp add: json_item_value)
next
  case (3 s s' faults)
  have "json_elements (map site_json (s' # faults)) (nl @ joined ('','' @ nl) (map json_item (s' # faults)) @ nl)"
    by (rule "3.IH"(2)) (use "3.prems" in auto)
  with "3.prems" show ?case
    using elements [of w "[]" "site_json s" "json_item s"] by (simp add: json_item_value)
qed simp

lemma writeJSON_document:
  assumes "faults \<noteq> []" and "\<forall>s\<in>set faults. plain_names s"
  shows "json_document (JArray (map site_json faults)) (writeJSON faults)"
proof -
  have "json_value (JArray (map site_json faults)) (''['' @ (nl @ joined ('','' @ nl) (map json_item faults) @ nl) @ '']'')"
    by (rule array) (rule items_elements [OF assms ws_simps(3)])
  moreover have "writeJSON faults = [] @ (''['' @ (nl @ joined ('','' @ nl) (map json_item faults) @ nl) @ '']'') @ nl"
    using assms(1) by (simp add: writeJSON_def write_items_joined)
  ultimately show ?thesis unfolding json_document_def using ws_simps by blast
qed

end
