(* ===== verification/Json_Parser.thy ===== *)
theory Json_Parser
  imports Json_Text
begin

section \<open>A reference parser\<close>

text \<open>
  A recursive descent parser for the grammar of \<open>Json_Text\<close>. It is no model of LLVM's parser: it
  shows that the grammar is unambiguous, so that the assumption on LLVM's parser can be met.
  The number bounds the recursion; the length of the text is enough.
\<close>

definition is_ws :: "char \<Rightarrow> bool" where
  "is_ws c \<longleftrightarrow> c = CHR '' '' \<or> c = CHR 0x09 \<or> c = CHR 0x0A \<or> c = CHR 0x0D"

definition skip_ws :: "string \<Rightarrow> string" where
  "skip_ws s = dropWhile is_ws s"

definition parse_string :: "string \<Rightarrow> (string \<times> string) option" where
  "parse_string s =
    (case dropWhile (\<lambda>c. c \<noteq> CHR 0x22) s of
       [] \<Rightarrow> None
     | _ # r \<Rightarrow> Some (takeWhile (\<lambda>c. c \<noteq> CHR 0x22) s, r))"

definition parse_number :: "string \<Rightarrow> (json \<times> string) option" where
  "parse_number s =
    (let neg = (s \<noteq> [] \<and> hd s = CHR ''-''); t = (if neg then tl s else s); ds = takeWhile is_digit t
     in if ds = [] then None
        else Some (JNumber (Some (word_of_int (if neg then - digits_value ds else digits_value ds))),
                   dropWhile is_digit t))"

definition starts :: "string \<Rightarrow> string \<Rightarrow> bool" where
  "starts p s \<longleftrightarrow> take (length p) s = p"

fun parse_value :: "nat \<Rightarrow> string \<Rightarrow> (json \<times> string) option"
  and parse_elements :: "nat \<Rightarrow> string \<Rightarrow> (json list \<times> string) option"
  and parse_members :: "nat \<Rightarrow> string \<Rightarrow> ((string \<times> json) list \<times> string) option" where
  "parse_value 0 s = None"
| "parse_value (Suc n) s =
    (if starts ''null'' s then Some (JNull, drop 4 s)
     else if starts ''true'' s then Some (JBool True, drop 4 s)
     else if starts ''false'' s then Some (JBool False, drop 5 s)
     else if starts dquote s then
       map_option (\<lambda>(t, r). (JString t, r)) (parse_string (tl s))
     else if starts ''['' s then
       (if starts '']'' (skip_ws (tl s)) then Some (JArray [], tl (skip_ws (tl s)))
        else map_option (\<lambda>(vs, r). (JArray vs, r)) (parse_elements n (tl s)))
     else if starts ''{'' s then
       (if starts ''}'' (skip_ws (tl s)) then Some (JObject [], tl (skip_ws (tl s)))
        else map_option (\<lambda>(ms, r). (JObject ms, r)) (parse_members n (tl s)))
     else parse_number s)"
| "parse_elements 0 s = None"
| "parse_elements (Suc n) s =
    (case parse_value n (skip_ws s) of
       None \<Rightarrow> None
     | Some (v, r) \<Rightarrow>
         (let r = skip_ws r in
          if starts '']'' r then Some ([v], tl r)
          else map_option (\<lambda>(vs, q). (v # vs, q)) (parse_elements n (tl r))))"
| "parse_members 0 s = None"
| "parse_members (Suc n) s =
    (case parse_string (tl (skip_ws s)) of
       None \<Rightarrow> None
     | Some (k, r) \<Rightarrow>
         (case parse_value n (skip_ws (tl (skip_ws r))) of
            None \<Rightarrow> None
          | Some (v, r) \<Rightarrow>
              (let r = skip_ws r in
               if starts ''}'' r then Some ([(k, v)], tl r)
               else map_option (\<lambda>(ms, q). ((k, v) # ms, q)) (parse_members n (tl r)))))"

definition parse_json :: "string \<Rightarrow> json option" where
  "parse_json s = map_option fst (parse_value (length s) (skip_ws s))"

subsection \<open>It reads every text of the grammar\<close>

lemma is_ws_ws: "ws w \<longleftrightarrow> (\<forall>c\<in>set w. is_ws c)"
  by (auto simp: ws_def is_ws_def)

lemma skip_ws_append: "ws w \<Longrightarrow> skip_ws (w @ s) = skip_ws s"
  by (simp add: skip_ws_def is_ws_ws)

lemma skip_ws_Cons: "\<not> is_ws c \<Longrightarrow> skip_ws (c # s) = c # s"
  by (simp add: skip_ws_def)

lemma starts_Cons [simp]: "starts [] s" "\<not> starts (c # p) []" "starts (c # p) (d # s) \<longleftrightarrow> d = c \<and> starts p s"
  by (auto simp: starts_def)

lemma parse_string_plain: "plain k \<Longrightarrow> parse_string (k @ CHR 0x22 # r) = Some (k, r)"
proof -
  assume "plain k"
  then have "\<forall>c\<in>set k. c \<noteq> CHR 0x22" by (simp add: plain_def)
  then show ?thesis by (simp add: parse_string_def)
qed

lemma int_token_Cons: "int_token s n \<Longrightarrow> \<exists>c t. s = c # t \<and> (is_digit c \<or> c = CHR ''-'')"
  by (cases s) (auto simp: int_token_def digits_def)

definition number_ends :: "string \<Rightarrow> bool" where
  "number_ends r \<longleftrightarrow> (r \<noteq> [] \<longrightarrow> \<not> is_digit (hd r))"

lemma digits_span:
  assumes "\<forall>c\<in>set ds. is_digit c" and "number_ends r"
  shows "takeWhile is_digit (ds @ r) = ds" "dropWhile is_digit (ds @ r) = r"
  using assms by (cases r; simp add: number_ends_def)+

lemma parse_number_token:
  assumes "int_token s n" and "number_ends r"
  shows "parse_number (s @ r) = Some (JNumber (Some (word_of_int n)), r)"
proof (cases "digits s \<and> n = digits_value s")
  case True
  then have "s \<noteq> []" "\<forall>c\<in>set s. is_digit c" by (auto simp: digits_def)
  moreover from this have "hd s \<noteq> CHR ''-''" by (cases s) (auto simp: is_digit_def)
  ultimately show ?thesis
    using digits_span [OF _ assms(2), of s] True by (simp add: parse_number_def Let_def)
next
  case False
  then obtain t where t: "s = CHR ''-'' # t" "digits t" "n = - digits_value t"
    using assms(1) by (cases s) (auto simp: int_token_def)
  then show ?thesis
    using digits_span [OF _ assms(2), of t] by (simp add: parse_number_def digits_def Let_def)
qed

text \<open>What the first character of a value can be.\<close>

definition value_start :: "char \<Rightarrow> bool" where
  "value_start c \<longleftrightarrow> c \<in> {CHR ''n'', CHR ''t'', CHR ''f'', CHR 0x22, CHR ''['', CHR ''{'', CHR ''-''} \<or> is_digit c"

lemma value_start_other: "value_start c \<Longrightarrow> \<not> is_ws c \<and> c \<noteq> CHR '']'' \<and> c \<noteq> CHR ''}'' \<and> c \<noteq> CHR '',''"
  by (auto simp: value_start_def is_ws_def is_digit_def)

lemma number_ends_simps: "number_ends []" "is_ws c \<or> c \<in> {CHR '']'', CHR ''}'', CHR '',''} \<Longrightarrow> number_ends (c # r)"
  by (auto simp: number_ends_def is_ws_def is_digit_def)

lemma number_ends_ws: "ws w \<Longrightarrow> number_ends r \<Longrightarrow> number_ends (w @ r)"
  using number_ends_simps(2) by (cases w) (auto simp: is_ws_ws)

definition value_ok :: "json \<Rightarrow> string \<Rightarrow> bool" where
  "value_ok v s \<longleftrightarrow>
    (\<exists>c t. s = c # t \<and> value_start c) \<and>
    (\<forall>n r. length s \<le> n \<and> number_ends r \<longrightarrow> parse_value n (s @ r) = Some (v, r))"

definition elements_ok :: "json list \<Rightarrow> string \<Rightarrow> bool" where
  "elements_ok vs s \<longleftrightarrow>
    (\<forall>r. \<not> starts '']'' (skip_ws (s @ r))) \<and>
    (\<forall>n r. length s < n \<longrightarrow> parse_elements n (s @ CHR '']'' # r) = Some (vs, r))"

definition members_ok :: "(string \<times> json) list \<Rightarrow> string \<Rightarrow> bool" where
  "members_ok ms s \<longleftrightarrow>
    (\<forall>r. \<not> starts ''}'' (skip_ws (s @ r))) \<and>
    (\<forall>n r. length s < n \<longrightarrow> parse_members n (s @ CHR ''}'' # r) = Some (ms, r))"

lemma value_ok_skip: "value_ok v s \<Longrightarrow> skip_ws (s @ r) = s @ r"
  using value_start_other by (auto simp: value_ok_def skip_ws_Cons)

lemma value_ok_start: "value_ok v s \<Longrightarrow> \<not> starts '']'' (s @ r)"
  using value_start_other [of "CHR '']''"] by (auto simp: value_ok_def)

lemma value_okI:
  assumes "value_start c" and "\<And>n r. length t \<le> n \<Longrightarrow> number_ends r \<Longrightarrow> parse_value (Suc n) (c # t @ r) = Some (v, r)"
  shows "value_ok v (c # t)"
  unfolding value_ok_def
proof (intro conjI allI impI)
  fix n r assume "length (c # t) \<le> n \<and> number_ends r"
  then show "parse_value n ((c # t) @ r) = Some (v, r)" using assms(2) by (cases n) simp_all
qed (use assms(1) in simp)

lemma number_value_ok: "int_token s n \<Longrightarrow> value_ok (JNumber (Some (word_of_int n))) s"
proof -
  assume token: "int_token s n"
  then obtain c t where s: "s = c # t" "is_digit c \<or> c = CHR ''-''" using int_token_Cons by blast
  then have "c \<notin> {CHR ''n'', CHR ''t'', CHR ''f'', CHR 0x22, CHR ''['', CHR ''{''}"
    by (auto simp: is_digit_def)
  then have "parse_value (Suc k) (c # t @ r) = Some (JNumber (Some (word_of_int n)), r)" if "number_ends r" for k r
    using parse_number_token [OF token that] s(1) by (simp add: dquote_def)
  moreover have "value_start c" using s(2) by (auto simp: value_start_def)
  ultimately show ?thesis unfolding s(1) by (intro value_okI)
qed

lemma array_value_ok: "elements_ok vs s \<Longrightarrow> value_ok (JArray vs) (''['' @ s @ '']'')"
  by (simp, rule value_okI) (simp_all add: value_start_def elements_ok_def dquote_def)

lemma object_value_ok: "members_ok ms s \<Longrightarrow> value_ok (JObject ms) (''{'' @ s @ ''}'')"
  by (simp, rule value_okI) (simp_all add: value_start_def members_ok_def dquote_def)

lemma skip_ws_end: "ws w \<Longrightarrow> \<not> is_ws c \<Longrightarrow> skip_ws (w @ c # r) = c # r"
  by (simp add: skip_ws_append skip_ws_Cons)

lemma element_ok:
  assumes "ws w" and "ws x" and "value_ok v s"
  shows "elements_ok [v] (w @ s @ x)"
proof -
  have "parse_elements (Suc m) (w @ s @ x @ CHR '']'' # r) = Some ([v], r)" if "length s \<le> m" for m r
    using assms that number_ends_ws [OF assms(2) number_ends_simps(2), of "CHR '']''" r]
    by (simp add: value_ok_def skip_ws_append value_ok_skip [OF assms(3)] skip_ws_Cons is_ws_def Let_def)
  then have "parse_elements n ((w @ s @ x) @ CHR '']'' # r) = Some ([v], r)" if "length (w @ s @ x) < n" for n r
    using that by (cases n) simp_all
  then show ?thesis
    using assms value_ok_start [OF assms(3)] by (simp add: elements_ok_def skip_ws_append value_ok_skip)
qed

lemma elements_ok_Cons:
  assumes "ws w" and "ws x" and "value_ok v s" and "elements_ok vs t"
  shows "elements_ok (v # vs) (w @ s @ x @ '','' @ t)"
proof -
  have "parse_elements (Suc m) (w @ s @ x @ CHR '','' # t @ CHR '']'' # r) = Some (v # vs, r)"
    if "length s \<le> m" "length t < m" for m r
    using assms that number_ends_ws [OF assms(2) number_ends_simps(2), of "CHR '',''" "t @ CHR '']'' # r"]
    by (simp add: value_ok_def elements_ok_def skip_ws_append value_ok_skip [OF assms(3)] skip_ws_Cons is_ws_def Let_def)
  then have "parse_elements n ((w @ s @ x @ '','' @ t) @ CHR '']'' # r) = Some (v # vs, r)"
    if "length (w @ s @ x @ '','' @ t) < n" for n r
    using that by (cases n) simp_all
  then show ?thesis
    using assms(1) value_ok_start [OF assms(3)]
    by (simp add: elements_ok_def skip_ws_append value_ok_skip [OF assms(3)])
qed

text \<open>The key of a member and its colon.\<close>

lemma member_key:
  assumes "ws w" and "ws x" and "ws y" and "plain k" and "value_ok v s"
  shows "parse_string (tl (skip_ws (w @ CHR 0x22 # k @ CHR 0x22 # x @ CHR '':'' # y @ s @ r))) =
      Some (k, x @ CHR '':'' # y @ s @ r)"
    "skip_ws (tl (skip_ws (x @ CHR '':'' # y @ s @ r))) = s @ r"
  using assms by (simp_all add: skip_ws_Cons is_ws_def parse_string_plain skip_ws_append value_ok_skip [OF assms(5)])

lemma member_ok:
  assumes "ws w" and "ws x" and "ws y" and "ws z" and "plain k" and "value_ok v s"
  shows "members_ok [(k, v)] (w @ dquote @ k @ dquote @ x @ '':'' @ y @ s @ z)"
proof -
  have "parse_members (Suc m) (w @ CHR 0x22 # k @ CHR 0x22 # x @ CHR '':'' # y @ s @ z @ CHR ''}'' # r) = Some ([(k, v)], r)"
    if "length s \<le> m" for m r
    using assms(4,6) that number_ends_ws [OF assms(4) number_ends_simps(2), of "CHR ''}''" r]
      member_key [OF assms(1-3,5,6), of "z @ CHR ''}'' # r"]
    by (simp add: value_ok_def skip_ws_append skip_ws_Cons is_ws_def Let_def)
  then have "parse_members n ((w @ dquote @ k @ dquote @ x @ '':'' @ y @ s @ z) @ CHR ''}'' # r) = Some ([(k, v)], r)"
    if "length (w @ dquote @ k @ dquote @ x @ '':'' @ y @ s @ z) < n" for n r
    using that by (cases n) (simp_all add: dquote_def)
  then show ?thesis
    using assms(1) by (simp add: members_ok_def dquote_def skip_ws_append skip_ws_Cons is_ws_def Let_def)
qed

lemma members_ok_Cons:
  assumes "ws w" and "ws x" and "ws y" and "ws z" and "plain k" and "value_ok v s" and "members_ok ms t"
  shows "members_ok ((k, v) # ms) (w @ dquote @ k @ dquote @ x @ '':'' @ y @ s @ z @ '','' @ t)"
proof -
  have "parse_members (Suc m) (w @ CHR 0x22 # k @ CHR 0x22 # x @ CHR '':'' # y @ s @ z @ CHR '','' # t @ CHR ''}'' # r) =
      Some ((k, v) # ms, r)"
    if "length s \<le> m" "length t < m" for m r
    using assms(4,6,7) that number_ends_ws [OF assms(4) number_ends_simps(2), of "CHR '',''" "t @ CHR ''}'' # r"]
      member_key [OF assms(1-3,5,6), of "z @ CHR '','' # t @ CHR ''}'' # r"]
    by (simp add: value_ok_def members_ok_def skip_ws_append skip_ws_Cons is_ws_def Let_def)
  then have "parse_members n ((w @ dquote @ k @ dquote @ x @ '':'' @ y @ s @ z @ '','' @ t) @ CHR ''}'' # r) =
      Some ((k, v) # ms, r)"
    if "length (w @ dquote @ k @ dquote @ x @ '':'' @ y @ s @ z @ '','' @ t) < n" for n r
    using that by (cases n) (simp_all add: dquote_def)
  then show ?thesis
    using assms(1) by (simp add: members_ok_def dquote_def skip_ws_append skip_ws_Cons is_ws_def Let_def)
qed

lemma grammar_parsed:
  "json_value v s \<Longrightarrow> value_ok v s"
  "json_elements vs s \<Longrightarrow> elements_ok vs s"
  "json_members ms s \<Longrightarrow> members_ok ms s"
proof (induction rule: json_value_json_elements_json_members.inducts)
  case null
  show ?case by (rule value_okI) (simp_all add: value_start_def)
next
  case true
  show ?case by (rule value_okI) (simp_all add: value_start_def)
next
  case false
  show ?case by (rule value_okI) (simp_all add: value_start_def)
next
  case (string s)
  then show ?case
    by (simp add: dquote_def, intro value_okI) (simp_all add: value_start_def dquote_def parse_string_plain)
next
  case (empty_array w)
  then show ?case
    by (simp, intro value_okI) (simp_all add: value_start_def dquote_def skip_ws_append skip_ws_Cons is_ws_def Let_def)
next
  case (empty_object w)
  then show ?case
    by (simp, intro value_okI) (simp_all add: value_start_def dquote_def skip_ws_append skip_ws_Cons is_ws_def Let_def)
qed (simp_all only: number_value_ok array_value_ok object_value_ok element_ok elements_ok_Cons member_ok members_ok_Cons)

lemma parse_json_document: "json_document v s \<Longrightarrow> parse_json s = Some v"
proof -
  assume "json_document v s"
  then obtain w t x where s: "ws w" "ws x" "json_value v t" "s = w @ t @ x"
    by (auto simp: json_document_def)
  then have ok: "value_ok v t" using grammar_parsed(1) by blast
  moreover have "number_ends x" using number_ends_ws [OF s(2) number_ends_simps(1)] by simp
  ultimately show ?thesis
    using s(1) by (simp add: parse_json_def s(4) skip_ws_append value_ok_skip [OF ok]) (simp add: value_ok_def)
qed

lemma parse_json_parses: "fe_parse fe = parse_json \<Longrightarrow> parses_json fe"
  by (simp add: parses_json_def parse_json_document)

subsection \<open>Properties\<close>

lemma add_allocs_objects: "\<forall>a\<in>set as. \<exists>ob. a = JObject ob \<Longrightarrow> \<exists>m'. add_allocs j1 j2 as m = Inr m'"
proof (induction as arbitrary: m)
  case (Cons a as)
  then obtain r where r: "fromJSON j1 j2 a = Inr r"
    using fromJSON_Inl [of j1 j2 a] by (cases "fromJSON j1 j2 a") auto
  then show ?case using Cons by (cases r) auto
qed simp

text \<open>What the pass accepts of a site: the constructor of \<open>AllocSite\<close> does not exclude empty names.\<close>

definition accepted_site :: "alloc_site \<Rightarrow> bool" where
  "accepted_site s \<longleftrightarrow> plain_names s \<and> 0 \<le> sint (as_localID s) \<and> as_bbName s \<noteq> [] \<and> as_funcName s \<noteq> []"

lemma entry_of_site:
  "accepted_site s \<Longrightarrow> entry_of (site_json s) fs \<longleftrightarrow>
    fs = \<lparr>fs_localID = as_localID s, fs_pkey = as_pkey s, fs_bbName = as_bbName s, fs_funcName = as_funcName s\<rparr>"
proof -
  assume s: "accepted_site s"
  have "0 \<le> sint (ucast (as_pkey s) :: i64)"
    by (simp add: sint_uint unsigned_ucast_eq bit_take_bit_iff bit_unsigned_iff) (auto dest: bit_imp_le_length)
  moreover have "(ucast (ucast (as_pkey s) :: i64) :: u32) = as_pkey s"
    by (rule bit_word_eqI) (simp add: bit_simps)
  ultimately show ?thesis
    using s by (cases fs) (auto simp: entry_of_def site_json_def accepted_site_def)
qed

lemma profile_fault_map:
  assumes "parses_json fe" and "fe_read fe p = Some (writeJSON faults)" and "\<not> fe_is_directory fe p" and "p \<noteq> []"
    and "faults \<noteq> []" and "\<forall>s\<in>set faults. accepted_site s"
  shows "\<exists>fm. getFaultingAllocMap fe j1 j2 p = Inr fm \<and>
    (\<forall>fn lid. fault_at fm fn lid \<noteq> None \<longleftrightarrow> (\<exists>s\<in>set faults. as_funcName s = fn \<and> as_localID s = lid))"
proof -
  have "json_document (JArray (map site_json faults)) (writeJSON faults)"
    using assms(5,6) by (intro writeJSON_document) (auto simp: accepted_site_def)
  then have parsed: "parseJSONArrayFile fe p = Some (map site_json faults)"
    using assms(1,2) by (simp add: parseJSONArrayFile_def parses_json_def)
  obtain fm where fm: "add_allocs j1 j2 (map site_json faults) [] = Inr fm"
    using add_allocs_objects [of "map site_json faults" j1 j2 "[]"] by (auto simp: site_json_def)
  then have "getFaultingAllocMap fe j1 j2 p = Inr fm"
    using parsed assms(3,4) by (simp add: getFaultingAllocMap_def getFaultPaths_def)
  moreover have "fault_at fm fn lid \<noteq> None \<longleftrightarrow> (\<exists>s\<in>set faults. as_funcName s = fn \<and> as_localID s = lid)" for fn lid
    using add_allocs_result [OF fm fault_map_inv_empty, of fn lid] assms(6)
    by (auto simp: fromJSON_Some entry_of_site)
  ultimately show ?thesis by blast
qed

text \<open>C6: A profile of sites whose function and block names are not empty and can stand in a JSON string as
  they are (ASCII without quotes, backslashes and control characters), and whose identifiers are not
  negative, reaches the pass: read with a parser for JSON, the text the runtime writes for at least one site gives the
  fault map of exactly the functions and identifiers of the sites, whatever the block, the key and the
  uninitialised integers. Other names are written without escaping, and nothing is claimed of them.\<close>

theorem profile_reaches_pass:
  assumes "parses_json fe" and "fe_read fe p = Some (writeJSON faults)" and "\<not> fe_is_directory fe p" and "p \<noteq> []"
    and "faults \<noteq> []" and "\<forall>s\<in>set faults. accepted_site s"
  shows "\<exists>fm. getFaultingAllocMap fe j1 j2 p = Inr fm \<and>
    (\<forall>fn lid. fault_at fm fn lid \<noteq> None \<longleftrightarrow> (\<exists>s\<in>set faults. as_funcName s = fn \<and> as_localID s = lid))"
  using assms by (rule profile_fault_map)

theorem profile_reaches_pass_witness:
  "\<exists>fm. getFaultingAllocMap
      \<lparr>fe_is_directory = (\<lambda>_. False), fe_entries = (\<lambda>_. []), fe_extension = (\<lambda>_. []),
       fe_read = (\<lambda>_. Some (writeJSON [demo_site])), fe_parse = parse_json\<rparr> 0 0 ''p'' = Inr fm \<and>
    fault_at fm ''f'' 0 \<noteq> None \<and> fault_at fm ''f'' 1 = None"
proof -
  let ?fe = "\<lparr>fe_is_directory = (\<lambda>_. False), fe_entries = (\<lambda>_. []), fe_extension = (\<lambda>_. []),
       fe_read = (\<lambda>_. Some (writeJSON [demo_site])), fe_parse = parse_json\<rparr>"
  have "accepted_site demo_site"
    by (simp add: accepted_site_def plain_names_def plain_def demo_site_def)
  then have "\<exists>fm. getFaultingAllocMap ?fe 0 0 ''p'' = Inr fm \<and>
      (\<forall>fn lid. fault_at fm fn lid \<noteq> None \<longleftrightarrow> (\<exists>s\<in>set [demo_site]. as_funcName s = fn \<and> as_localID s = lid))"
    using parse_json_parses [of ?fe] by (intro profile_reaches_pass) simp_all
  then obtain fm where fm: "getFaultingAllocMap ?fe 0 0 ''p'' = Inr fm"
    "fault_at fm fn lid \<noteq> None \<longleftrightarrow> (\<exists>s\<in>set [demo_site]. as_funcName s = fn \<and> as_localID s = lid)" for fn lid
    by blast
  show ?thesis
    using fm(1) fm(2) [of "''f''" 0] fm(2) [of "''f''" 1] by (intro exI [of _ fm]) (simp add: demo_site_def)
qed

end
