(* ===== verification/Pipeline.thy ===== *)
theory Pipeline
  imports Pre_Pass Post_Pass_Spec Json_Parser
begin

section \<open>The passes together\<close>

text \<open>
  The build that uses a profile runs the pre pass and, without other passes between them, the post
  pass: the program it produces is the source program with the blamed allocation calls
  redirected, without a trace of the hooks.
\<close>

lemma hooked_filter:
  "hooked ts is ys \<Longrightarrow> filter (\<lambda>i. \<not> is_hook i) ys = filter (\<lambda>i. \<not> is_hook i) is"
proof (induction "is" arbitrary: ys)
  case (Cons i "is")
  show ?case
  proof (cases "hook_for ts i")
    case None
    then obtain zs where "ys = i # zs" "hooked ts is zs" using Cons.prems by (cases ys) auto
    then show ?thesis using Cons.IH by simp
  next
    case (Some na)
    obtain name as where na: "na = (name, as)" by (cases na)
    have name: "name \<in> {''allocHook'', ''reallocHook'', ''deallocHook''}"
      using Some na by (cases "(ts, i)" rule: hook_for.cases) (auto split: if_splits)
    from Cons.prems Some na obtain h zs where ys: "ys = i # h # zs" "h = CallBase (inst_id h) CallInst (Func name) as"
      "hooked ts is zs" by (cases ys; cases "tl ys") auto
    have "is_hook h" using name by (subst ys(2)) (auto simp: is_hook_def)
    then show ?thesis using Cons.IH [OF ys(3)] ys(1) by simp
  qed
qed simp

lemma blocks_by_label:
  assumes "distinct (map bb_label (fn_blocks f))"
  shows "map bb_insts (fn_blocks f) = map (insts_of f) (map bb_label (fn_blocks f))"
  using insts_of_block [OF _ assms] by simp

lemma func_hooked_filter:
  assumes "func_hooked api ts f g" and "distinct (map bb_label (fn_blocks f))"
  shows "filter (\<lambda>i. \<not> is_hook i) (concat (map bb_insts (fn_blocks g))) =
    filter (\<lambda>i. \<not> is_hook i) (concat (map bb_insts (fn_blocks f)))"
proof -
  have labels: "map bb_label (fn_blocks g) = map bb_label (fn_blocks f)"
    using assms(1) by (simp add: func_hooked_def)
  have "filter (\<lambda>i. \<not> is_hook i) (insts_of g l) = filter (\<lambda>i. \<not> is_hook i) (insts_of f l)"
    if l: "l \<in> set (map bb_label (fn_blocks f))" for l
  proof (cases "l \<in> set (rpo api f)")
    case True
    then have "hooked ts (insts_of f l) (insts_of g l)" using assms(1) l unfolding func_hooked_def by metis
    then show ?thesis by (rule hooked_filter)
  next
    case False
    then have "insts_of g l = insts_of f l" using assms(1) l unfolding func_hooked_def by metis
    then show ?thesis by simp
  qed
  then have "map (\<lambda>l. filter (\<lambda>i. \<not> is_hook i) (insts_of g l)) (map bb_label (fn_blocks f)) =
      map (\<lambda>l. filter (\<lambda>i. \<not> is_hook i) (insts_of f l)) (map bb_label (fn_blocks f))"
    by (intro map_cong refl)
  moreover have "filter (\<lambda>i. \<not> is_hook i) (concat (map bb_insts (fn_blocks h))) =
      concat (map (\<lambda>l. filter (\<lambda>i. \<not> is_hook i) (insts_of h l)) (map bb_label (fn_blocks h)))"
    if "distinct (map bb_label (fn_blocks h))" for h
    unfolding blocks_by_label [OF that] filter_concat by (simp add: o_def)
  ultimately show ?thesis using assms(2) labels by metis
qed

lemma module_hooked_filter:
  assumes "module_hooked api ts m m1" and "well_formed m"
  shows "filter (\<lambda>i. \<not> is_hook i) (all_insts m1) = filter (\<lambda>i. \<not> is_hook i) (all_insts m)"
proof -
  obtain ds where ds: "mod_funcs (declare_hooks m) = mod_funcs m @ ds" "\<forall>d\<in>set ds. is_declaration d"
    using declare_hooks_keeps(2) by blast
  have "filter (\<lambda>i. \<not> is_hook i) (concat (map (\<lambda>f. concat (map bb_insts (fn_blocks f))) gs)) =
      filter (\<lambda>i. \<not> is_hook i) (concat (map (\<lambda>f. concat (map bb_insts (fn_blocks f))) fs))"
    if "list_all2 (\<lambda>f g. if is_declaration f then g = f else func_hooked api ts f g) fs gs"
      "\<forall>f\<in>set fs. distinct (map bb_label (fn_blocks f))" for fs gs
    using that
  proof (induction rule: list_all2_induct)
    case (Cons f fs g gs)
    then show ?case using func_hooked_filter [of api ts f g] by (cases "is_declaration f") simp_all
  qed simp
  moreover have "\<forall>f\<in>set (mod_funcs (declare_hooks m)). distinct (map bb_label (fn_blocks f))"
    using assms(2) ds by (auto simp: well_formed_def is_declaration_def)
  ultimately have "filter (\<lambda>i. \<not> is_hook i) (all_insts m1) = filter (\<lambda>i. \<not> is_hook i) (all_insts (declare_hooks m))"
    using assms(1) by (simp add: module_hooked_def all_insts_def)
  then show ?thesis by (simp add: declare_hooks_keeps(1))
qed

text \<open>A source module has no hooks.\<close>

definition no_hooks :: "ir_module \<Rightarrow> bool" where
  "no_hooks m \<longleftrightarrow>
    (\<forall>i\<in>set (all_insts m). \<not> is_hook i) \<and> (\<forall>f\<in>set (mod_funcs m). fn_name f \<notin> hook_names)"

lemma hook_names_declared: "hook_names \<subseteq> fn_name ` set (mod_funcs (declare_hooks m))"
proof -
  have one: "n \<in> fn_name ` set (mod_funcs (getOrInsertFunction n m))"
    "fn_name ` set (mod_funcs m) \<subseteq> fn_name ` set (mod_funcs (getOrInsertFunction n m))" for n m
    using get_function_None [of m n] by (auto simp: getOrInsertFunction_def)
  show ?thesis
    unfolding declare_hooks_def
    using one(1) [of "''allocHook''" m] one(1) [of "''reallocHook''" "getOrInsertFunction ''allocHook'' m"]
      one(1) [of "''deallocHook''" "getOrInsertFunction ''reallocHook'' (getOrInsertFunction ''allocHook'' m)"]
      one(2) [of "getOrInsertFunction ''allocHook'' m" "''reallocHook''"]
      one(2) [of "getOrInsertFunction ''reallocHook'' (getOrInsertFunction ''allocHook'' m)" "''deallocHook''"]
    by blast
qed

lemma module_hooked_hooks:
  assumes "module_hooked api ts m m1" and "no_hooks m" and "callees_known m" and "well_formed m"
  shows "hooks_declared m1" "callees_known m1"
proof -
  obtain ds where ds: "mod_funcs (declare_hooks m) = mod_funcs m @ ds" "\<forall>d\<in>set ds. is_declaration d"
    using declare_hooks_keeps(2) by blast
  have names: "fn_name ` set (mod_funcs m1) = fn_name ` set (mod_funcs (declare_hooks m))"
    using module_hooked_names(1) [OF assms(1)] by (metis list.set_map)
  show "hooks_declared m1"
    unfolding hooks_declared_def
  proof (intro ballI impI)
    fix g assume "g \<in> set (mod_funcs m1)" and g: "fn_name g \<in> hook_names"
    then obtain f where f: "f \<in> set (mod_funcs (declare_hooks m))"
      "if is_declaration f then g = f else func_hooked api ts f g"
      using list_all2_mem2 [OF assms(1) [unfolded module_hooked_def]] by blast
    then have "fn_name f = fn_name g" by (auto simp: func_hooked_def split: if_splits)
    then have "f \<in> set ds" using f(1) g ds(1) assms(2) by (auto simp: no_hooks_def)
    then show "is_declaration g" using f(2) ds(2) by simp
  qed
  show "callees_known m1"
    unfolding callees_known_def names
  proof (intro ballI allI impI)
    fix i h assume i: "i \<in> set (all_insts m1)" and h: "called_function i = Some h"
    show "h \<in> fn_name ` set (mod_funcs (declare_hooks m))"
    proof (cases "is_hook i")
      case True
      then show ?thesis using h hook_names_declared [of m] by (auto simp: is_hook_names)
    next
      case False
      have "i \<in> set (filter (\<lambda>i. \<not> is_hook i) (all_insts m1))" using i False by simp
      then have "i \<in> set (all_insts m)" unfolding module_hooked_filter [OF assms(1,4)] by simp
      then show ?thesis using assms(3) h ds(1) by (auto simp: callees_known_def)
    qed
  qed
qed

subsection \<open>The build with a profile\<close>

text \<open>The build with a profile gives back the source program but for the redirected calls.\<close>

lemma profile_redirects:
  assumes "run_pre api env opts m ps = Some (Inr (m1, ps1))"
    and "pre_input_ok api (find_targets (read_options env opts) m) m ps" and "no_hooks m" and "callees_known m"
    and "run_post api fe j1 j2 popts m1 post_globals0 = Inr (m2, ps2)"
    and "MPKProfilePath popts \<noteq> []" and "RemoveHooks popts"
    and "getFaultingAllocMap fe j1 j2 (MPKProfilePath popts) = Inr fm"
    and "\<forall>f\<in>set (mod_funcs m1). rpo_ok api f"
  shows "all_insts m2 = map (\<lambda>i. if blamed api fm m1 (inst_id i) then retarget m1 i else i) (all_insts m)"
proof -
  have pre: "module_hooked api (find_targets (read_options env opts) m) m m1" "well_formed m1"
    using run_pre_result [OF refl assms(2)] assms(1) by simp_all
  have wf: "well_formed m" using assms(2) by (simp add: pre_input_ok_def)
  note hooks = module_hooked_hooks [OF pre(1) assms(3,4) wf]
  have "filter (\<lambda>i. \<not> is_hook i) (all_insts m2) =
      map (\<lambda>i. if blamed api fm m1 (inst_id i) then retarget m1 i else i) (filter (\<lambda>i. \<not> is_hook i) (all_insts m1))"
    by (rule post_redirects [OF assms(5,6,8) pre(2) assms(9) hooks])
  moreover have "filter (\<lambda>i. \<not> is_hook i) (all_insts m2) = all_insts m2"
    using post_removes [OF assms(5,7) pre(2) assms(9) hooks] by (intro filter_True) blast
  moreover have "filter (\<lambda>i. \<not> is_hook i) (all_insts m1) = all_insts m"
    unfolding module_hooked_filter [OF pre(1) wf] using assms(3) by (intro filter_True) (simp add: no_hooks_def)
  ultimately show ?thesis by simp
qed

text \<open>The source module of the example, built with the example profile.\<close>

definition demo_hooked :: ir_module where
  "demo_hooked =
    (case run_pre demo_api (\<lambda>_. None) no_options demo_source demo_pre_state of
       Some (Inr (m, _)) \<Rightarrow> m
     | _ \<Rightarrow> demo_source)"

end
