(* ===== verification/End_To_End.thy ===== *)
theory End_To_End
  imports Pipeline
begin

section \<open>From a fault to the patched call\<close>

text \<open>
  The runtime, the profile and the passes together: a fault in a run of the instrumented program,
  the exit of the process, and the build that reads the file.
\<close>

text \<open>The pass reads the files the process left behind.\<close>

definition reads_files :: "file_env \<Rightarrow> fsys \<Rightarrow> bool" where
  "reads_files fe fs \<longleftrightarrow>
    (\<forall>f t. fs_text fs f = Some t \<longrightarrow> fe_read fe f = Some t \<and> \<not> fe_is_directory fe f)"

definition plain_key :: "site_key \<Rightarrow> bool" where
  "plain_key k \<longleftrightarrow> (case k of (fn, bb, lid) \<Rightarrow> plain fn \<and> plain bb \<and> fn \<noteq> [] \<and> bb \<noteq> [])"

lemma accepted_key: "isValid s \<Longrightarrow> plain_key (site_key s) \<Longrightarrow> accepted_site s"
  by (simp add: accepted_site_def plain_names_def plain_key_def site_key_def isValid_def)

text \<open>The fault set of a run, as the exit handler finds it.\<close>

lemma run_fault_set:
  assumes "rt_run pf es (runtime0 d) = Inr rt" and "es \<noteq> []"
  obtains h where "the_handler (getOrInit pf rt) = Inr h" "handler_inv h"
    "site_key ` set (faultingAllocs h) = reported (abs_rt rt)"
proof -
  have inv: "runtime_inv rt" using run_refines [OF runtime_inv0 assms(1)] by simp
  obtain h where h: "AllocSiteHandle (getOrInit pf rt) = Some h" "the_handler (getOrInit pf rt) = Inr h" "handler_inv h"
    using getOrInit_handle [OF inv] by blast
  have "site_key ` set (faultingAllocs h) = reported (abs_rt rt)"
    using abs_rt_handler(2) [OF inv h(2)] by (simp add: abs_handler_def faultingAllocs_def)
  with h show ?thesis using that by blast
qed

lemma exit_profile:
  assumes run: "rt_run pf es (runtime0 d) = Inr rt" and "es \<noteq> []" and "reported (abs_rt rt) \<noteq> {}"
    and "\<forall>k\<in>set (alloc_keys es) \<union> set (realloc_keys es). plain_key k"
    and flush: "flush_allocs pf env rt fs = Inr (rt', fs')" and "results_dir env fs = Some fs1"
    and "\<forall>f. os_open_ok env f" and "i < 128"
    and "fs_mode fs1 (candidate ''TestResults'' ''faulting-allocs'' ''json'' (getpid pf) (os_random env 0 i)) = None"
    and "parses_json fe" and "reads_files fe fs'"
  shows "\<exists>f fm. fs_mode fs f = None \<and> getFaultingAllocMap fe j1 j2 f = Inr fm \<and>
    (\<forall>fn lid. fault_at fm fn lid \<noteq> None \<longleftrightarrow> (\<exists>bb. (fn, bb, lid) \<in> reported (abs_rt rt)))"
proof -
  obtain h where h: "the_handler (getOrInit pf rt) = Inr h" "handler_inv h"
    "site_key ` set (faultingAllocs h) = reported (abs_rt rt)"
    by (rule run_fault_set [OF assms(1,2)])
  then have ne: "faultingAllocs h \<noteq> []" using assms(3) by auto
  obtain f where f: "f \<noteq> []" "fs_mode fs f = None" "fs_text fs' f = Some (writeJSON (faultingAllocs h))"
    using flush_writes_profile [OF flush h(1) ne assms(6-9)] by blast
  have ok: "\<forall>s\<in>set (faultingAllocs h). accepted_site s"
  proof
    fix s assume s: "s \<in> set (faultingAllocs h)"
    then have "site_key s \<in> reported (abs_rt rt)" using h(3) by blast
    then have "plain_key (site_key s)" using run_reports [OF run] assms(4) by blast
    moreover have "isValid s" using h(2) s by (simp add: handler_inv_def sites_inv_def faultingAllocs_def)
    ultimately show "accepted_site s" by (rule accepted_key [rotated])
  qed
  obtain fm where "getFaultingAllocMap fe j1 j2 f = Inr fm"
    "\<forall>fn lid. fault_at fm fn lid \<noteq> None \<longleftrightarrow> (\<exists>s\<in>set (faultingAllocs h). as_funcName s = fn \<and> as_localID s = lid)"
    using profile_fault_map [OF assms(10) _ _ f(1) ne ok, of j1 j2] assms(11) f(3)
    by (auto simp: reads_files_def)
  moreover have "(\<exists>s\<in>set (faultingAllocs h). as_funcName s = fn \<and> as_localID s = lid) \<longleftrightarrow>
      (\<exists>bb. (fn, bb, lid) \<in> reported (abs_rt rt))" for fn lid
    unfolding h(3) [symmetric] by (auto simp: site_key_def image_iff)
  ultimately show ?thesis using f(2) by auto
qed

subsection \<open>Properties\<close>

text \<open>C5: A fault in a live block reaches the build, under these conditions: the allocator conforms, no
  reallocation position ran twice or was an allocation position too, the names of functions and blocks in
  the hooks are not empty and have no quote, backslash, control character or character beyond ASCII, the directory can be made, files can
  be opened and one of the 128 file names is free, and the pass reads the files the process left with a
  parser for JSON. Then after the exit of the process there is a new file that the pass reads as a fault map with entries for exactly the positions reported, among them
  the position that allocated the block and every position it descends from by reallocation; so
  whatever module the pass works on, the allocation calls it numbers with these are blamed.\<close>

theorem fault_reaches_build:
  assumes "conforms es ghost0" and "single_use es"
    and "rt_run pf es (runtime0 d) = Inr rt" and "recordFault pf q pk rt = Inr rt'"
    and "blocks (fold ghost_step es ghost0) p = Some s" and "owns s q"
    and "\<forall>k\<in>set (alloc_keys es) \<union> set (realloc_keys es). plain_key k"
    and "flush_allocs pf env rt' fs = Inr (rt'', fs')" and "results_dir env fs = Some fs1"
    and "\<forall>f. os_open_ok env f" and "i < 128"
    and "fs_mode fs1 (candidate ''TestResults'' ''faulting-allocs'' ''json'' (getpid pf) (os_random env 0 i)) = None"
    and "parses_json fe" and "reads_files fe fs'"
  shows "\<exists>f fm. fs_mode fs f = None \<and> getFaultingAllocMap fe j1 j2 f = Inr fm \<and>
    (\<forall>fn lid. fault_at fm fn lid \<noteq> None \<longleftrightarrow> (\<exists>bb. (fn, bb, lid) \<in> reported (abs_rt rt'))) \<and>
    {site_key s} \<union> ancestors (fold ghost_step es ghost0) p \<subseteq> reported (abs_rt rt') \<and>
    (\<forall>api m g j bb hook a fnbb. g \<in> set (mod_funcs m) \<and> \<not> is_declaration g \<and>
      (j, bb, hook) \<in> set (enumerate 0 (hook_seq api g (rpo api g) g)) \<and> alloc_of m hook = Some a \<and>
      (fn_name g, fnbb, of_nat j) \<in> {site_key s} \<union> ancestors (fold ghost_step es ghost0) p \<longrightarrow>
      blamed api fm m a)"
proof -
  have run: "rt_run pf (es @ [Fault q pk]) (runtime0 d) = Inr rt'"
    using assms(3,4) by (simp add: rt_run_append)
  have "alloc_keys (xs @ [Fault q pk]) = alloc_keys xs" "realloc_keys (xs @ [Fault q pk]) = realloc_keys xs" for xs
    by (induction xs rule: alloc_keys.induct) simp_all
  then have keys: "\<forall>k\<in>set (alloc_keys (es @ [Fault q pk])) \<union> set (realloc_keys (es @ [Fault q pk])). plain_key k"
    using assms(7) by simp
  have reported: "reported (abs_rt rt') = reported (abs_rt rt) \<union> {site_key s} \<union> ancestors (fold ghost_step es ghost0) p"
    by (rule fault_reports [OF assms(1-6)])
  then have "reported (abs_rt rt') \<noteq> {}" by auto
  from exit_profile [OF run _ this keys assms(8-14), of j1 j2]
  obtain f fm where fm: "fs_mode fs f = None" "getFaultingAllocMap fe j1 j2 f = Inr fm"
    "\<forall>fn lid. fault_at fm fn lid \<noteq> None \<longleftrightarrow> (\<exists>bb. (fn, bb, lid) \<in> reported (abs_rt rt'))" by auto
  have "blamed api fm m a"
    if "g \<in> set (mod_funcs m)" "\<not> is_declaration g"
      "(j, bb, hook) \<in> set (enumerate 0 (hook_seq api g (rpo api g) g))" "alloc_of m hook = Some a"
      "(fn_name g, fnbb, of_nat j) \<in> {site_key s} \<union> ancestors (fold ghost_step es ghost0) p"
    for api m g j bb hook a fnbb
  proof -
    have "fault_at fm (fn_name g) (of_nat j) \<noteq> None" using fm(3) that(5) reported by blast
    then show ?thesis using that(1-4) unfolding blamed_def by blast
  qed
  with fm reported show ?thesis by blast
qed

theorem fault_reaches_build_witness:
  "\<exists>rt rt' rt'' fs' f fm. rt_run demo_pf grow_run (runtime0 (\<lambda>_. zero_sa)) = Inr rt \<and>
    recordFault demo_pf 0x2010 1 rt = Inr rt' \<and> flush_allocs demo_pf demo_env rt' demo_fs = Inr (rt'', fs') \<and>
    getFaultingAllocMap
      \<lparr>fe_is_directory = (\<lambda>_. False), fe_entries = (\<lambda>_. []), fe_extension = (\<lambda>_. []),
       fe_read = fs_text fs', fe_parse = parse_json\<rparr> 0 0 f = Inr fm \<and>
    fault_at fm ''grow'' 1 \<noteq> None \<and> fault_at fm ''f'' 0 \<noteq> None"
proof -
  obtain rt rt' where run: "rt_run demo_pf grow_run (runtime0 (\<lambda>_. zero_sa)) = Inr rt"
    "recordFault demo_pf 0x2010 1 rt = Inr rt'"
    by (rule grow_run_result)
  then have run': "rt_run demo_pf (grow_run @ [Fault 0x2010 1]) (runtime0 (\<lambda>_. zero_sa)) = Inr rt'"
    by (simp add: rt_run_append)
  obtain h where h: "the_handler (getOrInit demo_pf rt') = Inr h"
    by (rule run_fault_set [OF run']) simp_all
  obtain rt'' fs' where fl: "flush_allocs demo_pf demo_env rt' demo_fs = Inr (rt'', fs')"
    using h by (cases "faultingAllocs h = []") (auto simp: flush_allocs_def Let_def)
  let ?fe = "\<lparr>fe_is_directory = (\<lambda>_. False), fe_entries = (\<lambda>_. []), fe_extension = (\<lambda>_. []),
       fe_read = fs_text fs', fe_parse = parse_json\<rparr>"
  have dir: "results_dir demo_env demo_fs = Some (demo_fs\<lparr>fs_mode := [''TestResults'' \<mapsto> S_IFDIR OR 0x1FF]\<rparr>)"
    by (simp add: results_dir_def is_directory_def mkdir_def demo_env_def demo_fs_def)
  have keys: "\<forall>k\<in>set (alloc_keys grow_run) \<union> set (realloc_keys grow_run). plain_key k"
    by (simp add: grow_run_def plain_key_def plain_def)
  have block: "blocks (fold ghost_step grow_run ghost0) 0x2000 = Some (the_site 0x2000 32 1 ''entry'' ''grow'' True)"
    by (simp add: grow_run_blocks)
  have own: "owns (the_site 0x2000 32 1 ''entry'' ''grow'' True) 0x2010"
    by (simp add: owns_def)
  have reads: "reads_files ?fe fs'" by (simp add: reads_files_def)
  have parse: "parses_json ?fe" by (rule parse_json_parses) simp
  have free: "fs_mode (demo_fs\<lparr>fs_mode := [''TestResults'' \<mapsto> S_IFDIR OR 0x1FF]\<rparr>)
      (candidate ''TestResults'' ''faulting-allocs'' ''json'' (getpid demo_pf) (os_random demo_env 0 0)) = None"
    by (simp add: candidate_def)
  have lt: "(0 :: nat) < 128" by simp
  have "\<forall>f. os_open_ok demo_env f" by (simp add: demo_env_def)
  from fault_reaches_build [OF grow_run_conforms grow_run_single run block own keys fl dir this lt free parse reads,
      of 0 0]
  obtain f fm where "getFaultingAllocMap ?fe 0 0 f = Inr fm"
    "\<forall>fn lid. fault_at fm fn lid \<noteq> None \<longleftrightarrow> (\<exists>bb. (fn, bb, lid) \<in> reported (abs_rt rt'))"
    "{site_key (the_site 0x2000 32 1 ''entry'' ''grow'' True)} \<union> ancestors (fold ghost_step grow_run ghost0) 0x2000 \<subseteq>
      reported (abs_rt rt')"
    by (elim exE conjE) (rule that)
  moreover from this(3) have "(''grow'', ''entry'', 1) \<in> reported (abs_rt rt')" "(''f'', ''entry'', 0) \<in> reported (abs_rt rt')"
    by (simp_all add: grow_run_ancestors)
  ultimately have "fault_at fm ''grow'' 1 \<noteq> None" "fault_at fm ''f'' 0 \<noteq> None" by blast+
  with run fl \<open>getFaultingAllocMap ?fe 0 0 f = Inr fm\<close> show ?thesis by blast
qed

end
