(* ===== verification/Process_Exit.thy ===== *)
theory Process_Exit
  imports End_To_End
begin

section \<open>The exit of the process\<close>

text \<open>
  A library constructor registers \<open>flush_allocs\<close> with \<open>std::atexit\<close>. At exit the registered
  functions run, the last one first, so functions that other constructors registered before it run
  behind it. Those of the program are sequences of hook calls and faults.
\<close>

datatype exit_fn = FlushAllocs | ProgramFn "rt_event list"

definition register_flush_allocs :: "exit_fn list \<Rightarrow> exit_fn list" where
  "register_flush_allocs fns = FlushAllocs # fns"

fun run_exit ::
    "platform \<Rightarrow> os_env \<Rightarrow> exit_fn list \<Rightarrow> runtime \<Rightarrow> fsys \<Rightarrow> rt_error + runtime \<times> fsys" where
  "run_exit pf env [] rt fs = Inr (rt, fs)"
| "run_exit pf env (FlushAllocs # fns) rt fs =
    and_then (flush_allocs pf env rt fs) (\<lambda>(rt, fs). run_exit pf env fns rt fs)"
| "run_exit pf env (ProgramFn es # fns) rt fs =
    and_then (rt_run pf es rt) (\<lambda>rt. run_exit pf env fns rt fs)"

lemma run_exit_program:
  "run_exit pf env (map ProgramFn ess @ fns) rt fs =
    and_then (rt_run pf (concat ess) rt) (\<lambda>rt. run_exit pf env fns rt fs)"
  by (induction ess arbitrary: rt) (auto simp: and_then_def rt_run_append split: sum.splits)

lemma flush_runtime: "flush_allocs pf env rt fs = Inr (rt', fs') \<Longrightarrow> rt' = getOrInit pf rt"
  by (auto simp: flush_allocs_def and_then_eq_Inr Let_def split: if_splits)

text \<open>The process can make the directory, open files, and finds a name that is free.\<close>

definition can_write :: "platform \<Rightarrow> os_env \<Rightarrow> fsys \<Rightarrow> bool" where
  "can_write pf env fs \<longleftrightarrow>
    (\<forall>f. os_open_ok env f) \<and>
    (case results_dir env fs of
       None \<Rightarrow> False
     | Some fs1 \<Rightarrow>
         list_ex (\<lambda>i. fs_mode fs1 (candidate ''TestResults'' ''faulting-allocs'' ''json'' (getpid pf) (os_random env 0 i)) = None)
           [0..<128])"

lemma flush_profile:
  assumes inv: "runtime_inv rt" and flush: "flush_allocs pf env rt fs = Inr (rt', fs')"
  shows "reported (abs_rt rt) = {} \<Longrightarrow> fs' = fs"
    and "reported (abs_rt rt) \<noteq> {} \<Longrightarrow> can_write pf env fs \<Longrightarrow>
      \<exists>f sites. fs_mode fs f = None \<and> fs_text fs' f = Some (writeJSON sites) \<and> site_key ` set sites = reported (abs_rt rt)"
proof -
  obtain h where h: "the_handler (getOrInit pf rt) = Inr h" using getOrInit_handle [OF inv] by blast
  have keys: "site_key ` set (faultingAllocs h) = reported (abs_rt rt)"
    using abs_rt_handler(2) [OF inv h] by (simp add: abs_handler_def faultingAllocs_def)
  show "fs' = fs" if "reported (abs_rt rt) = {}"
    using that keys h flush by (simp add: flush_allocs_def Let_def)
  assume "reported (abs_rt rt) \<noteq> {}" and can: "can_write pf env fs"
  then have "faultingAllocs h \<noteq> []" using keys by auto
  moreover obtain fs1 i where "results_dir env fs = Some fs1" "i < 128"
    "fs_mode fs1 (candidate ''TestResults'' ''faulting-allocs'' ''json'' (getpid pf) (os_random env 0 i)) = None"
    using can by (auto simp: can_write_def list_ex_iff split: option.splits)
  ultimately obtain f where "fs_mode fs f = None" "fs_text fs' f = Some (writeJSON (faultingAllocs h))"
    using flush_writes_profile [OF flush h] can unfolding can_write_def by blast
  then show "\<exists>f sites. fs_mode fs f = None \<and> fs_text fs' f = Some (writeJSON sites) \<and> site_key ` set sites = reported (abs_rt rt)"
    using keys by blast
qed

text \<open>C34: At the exit of the process the profile is written in the middle of the exit functions: it
  has the positions reported up to then, by the program and by the exit functions registered behind
  the library constructor. It is a new file, when the directory can be made, files can be opened and one of the 128
  names is free; without reports no file is written, and no file that exists is changed. What
  exit functions registered before the constructor still report is in no profile.\<close>

theorem exit_writes_profile:
  assumes "rt_run pf es (runtime0 d) = Inr rt"
    and "run_exit pf env (map ProgramFn behind @ register_flush_allocs (map ProgramFn before)) rt fs = Inr (rt', fs')"
  shows "\<exists>rt1. rt_run pf (concat behind) rt = Inr rt1 \<and>
    abs_rt rt' = fold spec_step (concat before) (abs_rt rt1) \<and>
    (reported (abs_rt rt1) = {} \<longrightarrow> fs' = fs) \<and>
    (reported (abs_rt rt1) \<noteq> {} \<longrightarrow> can_write pf env fs \<longrightarrow>
      (\<exists>f sites. fs_mode fs f = None \<and> fs_text fs' f = Some (writeJSON sites) \<and> site_key ` set sites = reported (abs_rt rt1))) \<and>
    (\<forall>f. fs_mode fs f \<noteq> None \<longrightarrow> fs_mode fs' f = fs_mode fs f \<and> fs_text fs' f = fs_text fs f)"
proof -
  obtain rt1 rt2 where rt1: "rt_run pf (concat behind) rt = Inr rt1" and flush: "flush_allocs pf env rt1 fs = Inr (rt2, fs')"
    and last: "rt_run pf (concat before) rt2 = Inr rt'"
    using assms(2) run_exit_program [of pf env before "[]"]
    by (auto simp: register_flush_allocs_def run_exit_program and_then_eq_Inr)
  have inv: "runtime_inv rt1" using run_refines [OF runtime_inv0] run_refines assms(1) rt1 by blast
  have rt2: "rt2 = getOrInit pf rt1" using flush by (rule flush_runtime)
  obtain h where h: "the_handler (getOrInit pf rt1) = Inr h" using getOrInit_handle [OF inv] by blast
  have inv2: "runtime_inv rt2" "abs_rt rt2 = abs_rt rt1"
    using getOrInit_inv [OF inv, of pf] abs_rt_handler(2) [OF inv h] abs_rt_handler(2) [of rt2 pf h] h rt2 by simp_all
  have "abs_rt rt' = fold spec_step (concat before) (abs_rt rt1)"
    using run_refines [OF inv2(1) last] inv2(2) by simp
  with rt1 flush_profile [OF inv flush] flush_allocs_keeps [OF flush] show ?thesis
    by (intro exI [of _ rt1]) (simp add: keeps_files_def)
qed

text \<open>
  The fault of a function that runs before the profile is written, and one of a function that runs
  behind it.
\<close>

theorem exit_writes_profile_witness:
  "\<exists>rt rt' fs' f sites. rt_run demo_pf grow_run (runtime0 (\<lambda>_. zero_sa)) = Inr rt \<and>
    run_exit demo_pf demo_env
      [ProgramFn [Fault 0x2010 1], FlushAllocs, ProgramFn [Alloc 0x5000 16 2 ''entry'' ''g'', Fault 0x5008 1]] rt demo_fs =
      Inr (rt', fs') \<and>
    fs_text fs' f = Some (writeJSON sites) \<and>
    site_key ` set sites = {(''grow'', ''entry'', 1), (''f'', ''entry'', 0)}"
proof -
  let ?late = "[Alloc 0x5000 16 2 ''entry'' ''g'', Fault 0x5008 1]"
  have args: "\<forall>e\<in>set (grow_run @ [Fault 0x2010 1] @ ?late). args_ok (AllocSiteTotal demo_pf) e"
    using grow_run_args by (simp add: demo_pf_def isValid_def the_site_def id_ok_def)
  obtain rt1 h where rt1: "rt_run demo_pf (grow_run @ [Fault 0x2010 1]) demo_rt = Inr rt1"
    "the_handler (getOrInit demo_pf rt1) = Inr h"
    and keys: "map site_key (faultingAllocs h) = [(''grow'', ''entry'', 1), (''f'', ''entry'', 0)]"
    by (rule demo_exit)
  obtain rt where run: "rt_run demo_pf grow_run (runtime0 (\<lambda>_. zero_sa)) = Inr rt"
    "rt_run demo_pf [Fault 0x2010 1] rt = Inr rt1"
    using rt1(1) unfolding rt_run_append and_then_eq_Inr demo_rt_def by blast
  obtain rt2 where "rt_run demo_pf (grow_run @ [Fault 0x2010 1] @ ?late) (runtime0 (\<lambda>_. zero_sa)) = Inr rt2"
    using run_total [OF runtime_inv0 ids_inv0 args] by blast
  then have "rt_run demo_pf ?late rt1 = Inr rt2" by (simp only: rt_run_append run and_then_simps)
  then have last: "rt_run demo_pf ?late (getOrInit demo_pf rt1) = Inr rt2" by (simp add: allocHook_def)
  obtain fs' where flush: "flush_allocs demo_pf demo_env rt1 demo_fs = Inr (getOrInit demo_pf rt1, fs')"
    using rt1(2) by (cases "faultingAllocs h = []") (auto simp: flush_allocs_def Let_def)
  have exit: "run_exit demo_pf demo_env (map ProgramFn [[Fault 0x2010 1]] @ register_flush_allocs (map ProgramFn [?late])) rt demo_fs =
      Inr (rt2, fs')"
    using run(2) last flush by (simp add: register_flush_allocs_def del: rt_run.simps(2))
  have "runtime_inv rt1" using run_refines [OF runtime_inv0 rt1(1) [unfolded demo_rt_def]] by simp
  then have "reported (abs_rt rt1) = site_key ` set (faultingAllocs h)"
    using abs_rt_handler(2) [OF _ rt1(2)] by (simp add: abs_handler_def faultingAllocs_def)
  also have "\<dots> = {(''grow'', ''entry'', 1), (''f'', ''entry'', 0)}" using arg_cong [OF keys, of set] by simp
  finally have reported: "reported (abs_rt rt1) = {(''grow'', ''entry'', 1), (''f'', ''entry'', 0)}" .
  have dir: "results_dir demo_env demo_fs = Some (demo_fs\<lparr>fs_mode := [''TestResults'' \<mapsto> S_IFDIR OR 0x1FF]\<rparr>)"
    by (simp add: results_dir_def is_directory_def mkdir_def demo_env_def demo_fs_def)
  have "fs_mode (demo_fs\<lparr>fs_mode := [''TestResults'' \<mapsto> S_IFDIR OR 0x1FF]\<rparr>)
      (candidate ''TestResults'' ''faulting-allocs'' ''json'' (getpid demo_pf) (os_random demo_env 0 0)) = None"
    by (simp add: candidate_def)
  moreover have "0 \<in> set [0..<128 :: nat]" by (simp only: set_upt) simp
  moreover have "\<forall>f. os_open_ok demo_env f" by (simp add: demo_env_def)
  ultimately have "can_write demo_pf demo_env demo_fs"
    unfolding can_write_def dir option.case list_ex_iff by (intro conjI bexI [of _ 0])
  then obtain f sites where f: "fs_text fs' f = Some (writeJSON sites)" "site_key ` set sites = reported (abs_rt rt1)"
    using exit_writes_profile [OF run(1) exit] run(2) reported by auto
  have "run_exit demo_pf demo_env [ProgramFn [Fault 0x2010 1], FlushAllocs, ProgramFn ?late] rt demo_fs = Inr (rt2, fs')"
    using exit by (simp only: register_flush_allocs_def list.map append.simps)
  then show ?thesis using run(1) f unfolding reported by blast
qed

end
