(* ===== verification/Interleaving.thy ===== *)
theory Interleaving
  imports Provenance
begin

section \<open>Threads between the allocator and the hooks\<close>

text \<open>
  The pre pass puts a hook behind the call it belongs to, and the hooks of \<open>alloc_site_handler.cpp\<close>
  take and release the mutex of the address map once for every operation. So other threads can run
  after the allocator returned and before the hook starts, and between the operations of a
  \<open>reallocHook\<close>. Here a hook is the list of its critical sections; a thread first calls the
  allocator, which changes the heap, and then runs the sections of its hook, one at a time, with
  the calls and sections of other threads between them. The signal handlers are lists of sections
  too. That a section is one step is shown in \<open>Mutexes\<close>. The counters of \<open>MPK_STATS\<close>, which no mutex
  guards, are left out.
\<close>

subsection \<open>Critical sections\<close>

datatype critical =
    SInsert rust_ptr alloc_site
  | SRemove rust_ptr
  | SLookup rust_ptr alloc_site \<comment> \<open>the old address and the site if the lookup succeeds\<close>
  | SChain alloc_site alloc_site
  | SFind rust_ptr u32 \<comment> \<open>the lookup of \<open>addFaultAlloc\<close>\<close>
  | SMark alloc_site u32 \<comment> \<open>the rest of it, under the mutexes of the fault set and the chains\<close>
  | SLook rust_ptr \<comment> \<open>a lookup for a message\<close>
  | SStore thread_id PendingPKeyInfo
  | STake thread_id

definition mark_fault :: "alloc_site \<Rightarrow> u32 \<Rightarrow> handler \<Rightarrow> handler" where
  "mark_fault alloc pk h =
    (let alloc = addPkey pk alloc;
         fs = us_insert site_eq alloc (fault_set h)
     in h\<lparr>fault_set :=
          (case um_find site_eq alloc (FM h) of
             None \<Rightarrow> fs
           | Some chain \<Rightarrow> fold (\<lambda>assoc. us_insert site_eq (addPkey pk assoc)) chain fs)\<rparr>)"

text \<open>The sections that follow a lookup, with the site it found.\<close>

fun after_lookup :: "critical \<Rightarrow> alloc_site \<Rightarrow> critical list" where
  "after_lookup (SLookup oldPtr newAS) oldAS =
    (if \<not> isValid oldAS then [SInsert (as_ptr newAS) (newAS\<lparr>as_isRealloc := False\<rparr>)]
     else [SChain oldAS newAS, SRemove oldPtr, SInsert (as_ptr newAS) newAS])"
| "after_lookup (SFind q pk) alloc = (if \<not> isValid alloc then [] else [SMark alloc pk])"
| "after_lookup _ _ = []"

text \<open>What a section does to the handler, and the sections the thread goes on with.\<close>

fun run_section :: "critical \<Rightarrow> handler \<Rightarrow> handler \<times> critical list" where
  "run_section (SInsert p s) h = (insertAllocSite p s h, [])"
| "run_section (SRemove p) h = (removeAllocSite p h, [])"
| "run_section (SChain oldAS newAS) h = (updateReallocChain oldAS newAS h, [])"
| "run_section (SMark s pk) h = (mark_fault s pk h, [])"
| "run_section (SStore t info) h = (storePendingPKeyInfo t info h, [])"
| "run_section (STake t) h = (snd (getAndRemove t h), [])"
| "run_section (SLookup p s) h = (h, after_lookup (SLookup p s) (getAllocSite p h))"
| "run_section (SFind q pk) h = (h, after_lookup (SFind q pk) (getAllocSite q h))"
| "run_section (SLook q) h = (h, after_lookup (SLook q) (getAllocSite q h))"

fun hook_sections :: "rt_event \<Rightarrow> critical list" where
  "hook_sections (Alloc p sz lid bb fn) = [SInsert p (the_site p sz lid bb fn False)]"
| "hook_sections (Realloc np nsz op osz lid bb fn) = [SLookup op (the_site np nsz lid bb fn True)]"
| "hook_sections (Dealloc p sz lid) = [SRemove p]"
| "hook_sections (Fault q pk) = [SFind q pk]"

text \<open>
  The signal handlers: a protection key fault is recorded and looked up twice more, for the two
  messages, and in thread mode the rights are stored; the trap takes them back.
\<close>

datatype signal =
    Segv rust_ptr u32 "(thread_id \<times> PendingPKeyInfo) option"
  | Trap thread_id

fun signal_sections :: "signal \<Rightarrow> critical list" where
  "signal_sections (Segv q pk key) =
    [SFind q pk, SLook q, SLook q] @ (case key of None \<Rightarrow> [] | Some (t, info) \<Rightarrow> [SStore t info])"
| "signal_sections (Trap t) = [STake t]"

fun of_handler :: "critical \<Rightarrow> bool" where
  "of_handler (SFind q pk) = True"
| "of_handler (SMark s pk) = True"
| "of_handler (SLook q) = True"
| "of_handler (SStore t info) = True"
| "of_handler (STake t) = True"
| "of_handler _ = False"

text \<open>A hook that no other thread interrupts.\<close>

fun section_weight :: "critical \<Rightarrow> nat" where
  "section_weight (SLookup p s) = 4"
| "section_weight (SFind q pk) = 2"
| "section_weight _ = 1"

function run_alone :: "critical list \<Rightarrow> handler \<Rightarrow> handler" where
  "run_alone [] h = h"
| "run_alone (x # xs) h = run_alone (snd (run_section x h) @ xs) (fst (run_section x h))"
  by pat_completeness auto
termination
proof (relation "measure (\<lambda>(xs, h). sum_list (map section_weight xs))")
  fix x xs h
  have "sum_list (map section_weight (snd (run_section x h))) < section_weight x" by (cases x) auto
  then show "((snd (run_section x h) @ xs, fst (run_section x h)), x # xs, h)
      \<in> measure (\<lambda>(xs, h). sum_list (map section_weight xs))" by simp
qed simp

subsection \<open>Threads\<close>

record conc =
  co_handler :: handler
  co_ghost :: ghost
  co_pend :: "thread_id \<Rightarrow> critical list"

text \<open>A signal is blocked while a handler of the thread runs.\<close>

datatype action =
    Heap thread_id rt_event \<comment> \<open>a call of the allocator returns\<close>
  | Signal thread_id signal \<comment> \<open>a thread, outside a hook or between two sections of it, enters a signal handler\<close>
  | Section thread_id \<comment> \<open>the next critical section of the thread\<close>

inductive conc_step :: "action \<Rightarrow> conc \<Rightarrow> conc \<Rightarrow> bool" where
  heap: "\<forall>q pk. e \<noteq> Fault q pk \<Longrightarrow> co_pend c t = [] \<Longrightarrow> allocator_ok e (co_ghost c) \<Longrightarrow>
    conc_step (Heap t e) c
      (c\<lparr>co_ghost := ghost_step e (co_ghost c), co_pend := (co_pend c)(t := hook_sections e)\<rparr>)"
| critical: "co_pend c t = x # xs \<Longrightarrow> run_section x (co_handler c) = (h, ys) \<Longrightarrow>
    conc_step (Section t) c (c\<lparr>co_handler := h, co_pend := (co_pend c)(t := ys @ xs)\<rparr>)"
| signal: "\<not> list_ex of_handler (co_pend c t) \<Longrightarrow>
    conc_step (Signal t sg) c (c\<lparr>co_pend := (co_pend c)(t := signal_sections sg @ co_pend c t)\<rparr>)"

inductive_cases heap_stepE: "conc_step (Heap t e) c c'"
inductive_cases critical_stepE: "conc_step (Section t) c c'"
inductive_cases signal_stepE: "conc_step (Signal t sg) c c'"

inductive conc_run :: "action list \<Rightarrow> conc \<Rightarrow> conc \<Rightarrow> bool" where
  stop: "conc_run [] c c"
| go: "conc_step a c c' \<Longrightarrow> conc_run as c' c'' \<Longrightarrow> conc_run (a # as) c c''"

definition conc0 :: conc where
  "conc0 = \<lparr>co_handler = AllocSiteHandler, co_ghost = ghost0, co_pend = (\<lambda>_. [])\<rparr>"

text \<open>The addresses a hook that is under way will still use, and those a heap call is about.\<close>

fun touches :: "critical \<Rightarrow> rust_ptr set" where
  "touches (SInsert p s) = {p}"
| "touches (SRemove p) = {p}"
| "touches (SLookup p s) = {p, as_ptr s}"
| "touches _ = {}"

abbreviation touched :: "critical list \<Rightarrow> rust_ptr set" where
  "touched xs \<equiv> \<Union> (touches ` set xs)"

fun event_addrs :: "rt_event \<Rightarrow> rust_ptr set" where
  "event_addrs (Alloc p sz lid bb fn) = {p}"
| "event_addrs (Realloc np nsz op osz lid bb fn) = {np, op}"
| "event_addrs (Dealloc p sz lid) = {p}"
| "event_addrs (Fault q pk) = {}"

text \<open>A heap call that uses no address another thread's hook is about to use.\<close>

fun quiet :: "action \<Rightarrow> conc \<Rightarrow> bool" where
  "quiet (Heap t e) c \<longleftrightarrow> (\<forall>t'. event_addrs e \<inter> touched (co_pend c t') = {})"
| "quiet (Section t) c \<longleftrightarrow> True"
| "quiet (Signal t sg) c \<longleftrightarrow> True"

inductive conc_reach :: "conc \<Rightarrow> bool" where
  start: "conc_reach conc0"
| step: "conc_reach c \<Longrightarrow> quiet a c \<Longrightarrow> conc_step a c c' \<Longrightarrow> conc_reach c'"

subsection \<open>The invariant\<close>

text \<open>What a hook under way relies on: the map at its addresses, and what the heap holds there.\<close>

fun hook_ok ::
    "(rust_ptr \<Rightarrow> alloc_site option) \<Rightarrow> (rust_ptr \<Rightarrow> alloc_site option) \<Rightarrow> critical list \<Rightarrow> bool" where
  "hook_ok L B [] \<longleftrightarrow> True"
| "hook_ok L B [SInsert p s] \<longleftrightarrow> as_ptr s = p \<and> isValid s \<and> L p = None \<and> B p = Some s"
| "hook_ok L B [SRemove p] \<longleftrightarrow> B p = None"
| "hook_ok L B [SLookup op new] \<longleftrightarrow>
    L op \<noteq> None \<and> isValid new \<and> as_isRealloc new \<and> B (as_ptr new) = Some new \<and>
    (op \<noteq> as_ptr new \<longrightarrow> B op = None \<and> L (as_ptr new) = None)"
| "hook_ok L B [SChain old new, SRemove op, SInsert p s] \<longleftrightarrow>
    isValid old \<and> isValid new \<and> as_isRealloc new \<and> s = new \<and> p = as_ptr new \<and> B p = Some s \<and>
    (op \<noteq> p \<longrightarrow> B op = None \<and> L p = None)"
| "hook_ok L B [SRemove op, SInsert p s] \<longleftrightarrow>
    as_ptr s = p \<and> isValid s \<and> B p = Some s \<and> (op \<noteq> p \<longrightarrow> B op = None \<and> L p = None)"
| "hook_ok L B xs \<longleftrightarrow> False"

text \<open>
  Sections that have nothing to do with the map, as those of a signal handler are. They run in front
  of the rest of a hook that the handler interrupted between two sections.
\<close>

fun aside :: "critical \<Rightarrow> bool" where
  "aside (SInsert p s) = False"
| "aside (SRemove p) = False"
| "aside (SLookup p s) = False"
| "aside (SChain s s') = False"
| "aside (SMark s pk) = isValid s"
| "aside _ = True"

definition thread_ok ::
    "(rust_ptr \<Rightarrow> alloc_site option) \<Rightarrow> (rust_ptr \<Rightarrow> alloc_site option) \<Rightarrow> critical list \<Rightarrow> bool" where
  "thread_ok L B xs \<longleftrightarrow> hook_ok L B (dropWhile aside xs)"

abbreviation co_map :: "conc \<Rightarrow> rust_ptr \<Rightarrow> alloc_site option" where
  "co_map c \<equiv> map_of (allocation_map (co_handler c))"

abbreviation co_blocks :: "conc \<Rightarrow> rust_ptr \<Rightarrow> alloc_site option" where
  "co_blocks c \<equiv> blocks (co_ghost c)"

definition conc_inv :: "conc \<Rightarrow> bool" where
  "conc_inv c \<longleftrightarrow>
    handler_inv (co_handler c) \<and> heap_inv (co_blocks c) \<and>
    (\<forall>t t'. t \<noteq> t' \<longrightarrow> touched (co_pend c t) \<inter> touched (co_pend c t') = {}) \<and>
    (\<forall>p. (\<forall>t. p \<notin> touched (co_pend c t)) \<longrightarrow> co_map c p = co_blocks c p) \<and>
    (\<forall>t. thread_ok (co_map c) (co_blocks c) (co_pend c t))"

lemma hook_ok_frame:
  "(\<And>p. p \<in> touched xs \<Longrightarrow> L' p = L p \<and> B' p = B p) \<Longrightarrow> hook_ok L B xs \<Longrightarrow> hook_ok L' B' xs"
  by (cases "(L, B, xs)" rule: hook_ok.cases) auto

lemma thread_ok_frame:
  "(\<And>p. p \<in> touched xs \<Longrightarrow> L' p = L p \<and> B' p = B p) \<Longrightarrow> thread_ok L B xs \<Longrightarrow> thread_ok L' B' xs"
  unfolding thread_ok_def using hook_ok_frame [of "dropWhile aside xs" L' L B' B] set_dropWhileD [of _ aside xs] by blast

lemma conc_inv0: "conc_inv conc0"
  by (simp add: conc_inv_def conc0_def ghost0_def heap_inv_empty AllocSiteHandler_def handler_inv_def
      map_inv_def sites_inv_def us_invar_def chains_inv_def thread_ok_def)

subsection \<open>Quiet steps keep it\<close>

lemma touched_hook: "touched (hook_sections e) = event_addrs e"
  by (cases e) auto

lemma blocks_frame: "p \<notin> event_addrs e \<Longrightarrow> blocks (ghost_step e g) p = blocks g p"
  by (cases e) auto

lemma ghost_heap_inv: "allocator_ok e g \<Longrightarrow> heap_inv (blocks g) \<Longrightarrow> heap_inv (blocks (ghost_step e g))"
  using ghost_sim_step [of e g "spec0\<lparr>live := blocks g\<rparr>"] by simp

text \<open>A thread whose call just returned finds at its addresses what its hook needs.\<close>

lemma hook_ready:
  assumes ok: "allocator_ok e g" and hi: "heap_inv (blocks g)"
    and L: "\<And>p. p \<in> event_addrs e \<Longrightarrow> L p = blocks g p"
  shows "thread_ok L (blocks (ghost_step e g)) (hook_sections e)"
proof (cases e)
  case (Alloc p sz lid bb fn)
  then show ?thesis
    using ok L [of p] free_range_fresh [OF hi, of "the_site p sz lid bb fn False"]
    by (simp add: thread_ok_def free_range_def)
next
  case (Realloc np nsz op osz lid bb fn)
  then show ?thesis
    using ok L [of np] L [of op]
      free_range_fresh [OF heap_inv_remove [OF hi], of op "the_site np nsz lid bb fn True"]
    by (auto simp: thread_ok_def free_range_def split: if_splits)
qed (simp_all add: thread_ok_def)

lemma heap_step_inv:
  assumes inv: "conc_inv c" and quiet: "quiet (Heap t e) c" and step: "conc_step (Heap t e) c c'"
  shows "conc_inv c'"
proof -
  from step have idle: "co_pend c t = []" and ok: "allocator_ok e (co_ghost c)"
    and c': "c' = c\<lparr>co_ghost := ghost_step e (co_ghost c), co_pend := (co_pend c)(t := hook_sections e)\<rparr>"
    by (auto elim: heap_stepE)
  have apart: "p \<notin> touched (co_pend c t')" if "p \<in> event_addrs e" for p t'
    using quiet that unfolding quiet.simps by blast
  have hi: "heap_inv (co_blocks c)" and exact: "\<And>p. (\<forall>t. p \<notin> touched (co_pend c t)) \<Longrightarrow> co_map c p = co_blocks c p"
    using inv unfolding conc_inv_def by blast+
  have "thread_ok (co_map c) (co_blocks c') (co_pend c' t')" for t'
  proof (cases "t' = t")
    case True
    then show ?thesis using hook_ready [OF ok hi] exact apart c' by simp
  next
    case False
    have "thread_ok (co_map c) (co_blocks c) (co_pend c t')" using inv unfolding conc_inv_def by blast
    then have "thread_ok (co_map c) (co_blocks c') (co_pend c t')"
    proof (rule thread_ok_frame [rotated])
      fix p
      assume "p \<in> touched (co_pend c t')"
      then have "p \<notin> event_addrs e" using apart [of p t'] by blast
      then show "co_map c p = co_map c p \<and> co_blocks c' p = co_blocks c p"
        using c' blocks_frame by simp
    qed
    then show ?thesis using False c' by simp
  qed
  moreover have "co_map c' p = co_blocks c' p" if "\<forall>t. p \<notin> touched (co_pend c' t)" for p
  proof -
    have "p \<notin> event_addrs e" using that [THEN spec, of t] c' touched_hook by simp
    moreover have "p \<notin> touched (co_pend c t')" for t'
      using that [THEN spec, of t'] c' idle by (cases "t' = t") auto
    ultimately show ?thesis using exact [of p] c' blocks_frame by simp
  qed
  moreover have "touched (co_pend c' t1) \<inter> touched (co_pend c' t2) = {}" if "t1 \<noteq> t2" for t1 t2
  proof -
    have "touched (co_pend c t1) \<inter> touched (co_pend c t2) = {}" using inv that unfolding conc_inv_def by blast
    then show ?thesis using that apart c' touched_hook [of e] by auto
  qed
  ultimately show ?thesis
    using inv c' ghost_heap_inv [OF ok hi] unfolding conc_inv_def by simp
qed

text \<open>The map after an operation of the handler.\<close>

lemma handler_maps:
  "handler_inv h \<Longrightarrow> map_of (allocation_map (insertAllocSite p s h)) =
    (if map_of (allocation_map h) p = None then (map_of (allocation_map h))(p \<mapsto> s) else map_of (allocation_map h))"
  "map_of (allocation_map (removeAllocSite p h)) = (map_of (allocation_map h))(p := None)"
  "map_of (allocation_map (updateReallocChain old new h)) = map_of (allocation_map h)"
  by (auto simp: handler_inv_def map_inv_def insertAllocSite_def removeAllocSite_def
      updateReallocChain_def map_of_om_emplace map_of_om_erase split: option.splits)

lemma tracked_site_valid:
  assumes "handler_inv h" and "map_of (allocation_map h) p \<noteq> None"
  shows "isValid (getAllocSite p h)"
proof -
  obtain s where s: "map_of (allocation_map h) p = Some s" using assms(2) by blast
  have m: "map_inv (allocation_map h)" using assms(1) by (simp add: handler_inv_def)
  have "getAllocSite p h = s"
    using lookup_site [OF m, of p] s by (simp add: spec_site_or_error_def spec_site_exact)
  then show ?thesis using map_inv_map_of [OF m s] by simp
qed

text \<open>The second half of \<open>addFaultAlloc\<close>: its result, and what it keeps.\<close>

lemma mark_chain_fold:
  "mark_chain pk chain st fs = Inr (st', fs') \<Longrightarrow> fs' = fold (\<lambda>assoc. us_insert site_eq (addPkey pk assoc)) chain fs"
  by (induction chain arbitrary: st fs) (auto simp: mark_chain_Cons simp del: mark_chain.simps(2))

lemma addFaultAlloc_mark:
  assumes "addFaultAlloc q pk st h = Inr (st', h')"
  shows "h' = (if isValid (getAllocSite q h) then mark_fault (getAllocSite q h) pk h else h)"
proof -
  have same: "um_find site_eq (addPkey pk s) (FM h) = um_find site_eq s (FM h)" for s
    by (rule site.find_cong_key) (simp add: site_eq_key)
  show ?thesis
    using assms by (cases rule: addFaultAlloc_cases) (auto simp: mark_fault_def Let_def same dest: mark_chain_fold)
qed

lemma aside_frame:
  "allocation_map (mark_fault s pk h) = allocation_map h"
  "allocation_map (storePendingPKeyInfo t i h) = allocation_map h"
  "allocation_map (snd (getAndRemove t h)) = allocation_map h"
  by (simp_all add: mark_fault_def Let_def storePendingPKeyInfo_def getAndRemove_def split: option.split)

lemma mark_fault_inv: "handler_inv h \<Longrightarrow> isValid s \<Longrightarrow> handler_inv (mark_fault s pk h)"
proof -
  assume h: "handler_inv h" and s: "isValid s"
  have "sites_inv (fold (\<lambda>assoc. us_insert site_eq (addPkey pk assoc)) chain fs)"
    if "sites_inv fs" "\<forall>a\<in>set chain. isValid a" for chain fs
    using that by (induction chain arbitrary: fs) (simp_all add: sites_inv_insert_addPkey)
  moreover have "\<forall>a\<in>set chain. isValid a" if "um_find site_eq (addPkey pk s) (FM h) = Some chain" for chain
    using chains_inv_find [OF _ that] h by (simp add: handler_inv_def sites_inv_def)
  ultimately show ?thesis
    using h s by (simp add: mark_fault_def Let_def handler_inv_def sites_inv_insert_addPkey split: option.split)
qed

text \<open>
  A section of a hook leaves the map alone at the addresses of other hooks, keeps what the rest of
  the hook relies on, and where it finishes with an address the map agrees with the heap. A section
  of a signal handler leaves the map alone.
\<close>

lemma aside_effect:
  assumes h: "handler_inv h" and ok: "aside x" and run: "run_section x h = (h', ys)"
  shows "handler_inv h' \<and> list_all aside ys \<and> allocation_map h' = allocation_map h"
  using assms handler_inv_pending [OF h] mark_fault_inv [OF h]
  by (cases x) (auto simp: aside_frame)

lemma aside_first: "list_all aside ys \<Longrightarrow> dropWhile aside (ys @ xs) = dropWhile aside xs"
  by (induction ys) simp_all

lemma hook_ok_first: "hook_ok L B xs \<Longrightarrow> dropWhile aside xs = xs"
  by (cases "(L, B, xs)" rule: hook_ok.cases) auto

lemma aside_touches: "list_all aside xs \<Longrightarrow> touched xs = {}"
proof (induction xs)
  case (Cons x xs)
  then show ?case by (cases x) simp_all
qed simp

lemma hook_effect:
  assumes h: "handler_inv h" and ok: "hook_ok (map_of (allocation_map h)) B (x # xs)"
    and run: "run_section x h = (h', ys)"
  shows "handler_inv h' \<and> hook_ok (map_of (allocation_map h')) B (ys @ xs) \<and>
    touched (ys @ xs) \<subseteq> touched (x # xs) \<and>
    (\<forall>p. p \<notin> touched (x # xs) \<longrightarrow> map_of (allocation_map h') p = map_of (allocation_map h) p) \<and>
    (\<forall>p. p \<in> touched (x # xs) \<longrightarrow> p \<notin> touched (ys @ xs) \<longrightarrow> map_of (allocation_map h') p = B p)"
  using ok
proof (cases "(map_of (allocation_map h), B, x # xs)" rule: hook_ok.cases)
  case (2 L B' p s)
  then show ?thesis using h run ok handler_inv_insert [OF h] by (auto simp: handler_maps(1) [OF h])
next
  case (3 L B' p)
  then show ?thesis using h run ok handler_inv_remove [OF h] by (auto simp: handler_maps)
next
  case (4 L B' op new)
  then show ?thesis using h run ok tracked_site_valid [OF h, of op] by auto
next
  case (5 L B' old new op p s)
  then show ?thesis using h run ok handler_inv_chain [OF h, of old new] by (auto simp: handler_maps)
next
  case (6 L B' op p s)
  then show ?thesis using h run ok handler_inv_remove [OF h] by (auto simp: handler_maps)
qed simp_all

lemma section_effect:
  assumes h: "handler_inv h" and ok: "thread_ok (map_of (allocation_map h)) B (x # xs)"
    and run: "run_section x h = (h', ys)"
  shows "handler_inv h' \<and> thread_ok (map_of (allocation_map h')) B (ys @ xs) \<and>
    touched (ys @ xs) \<subseteq> touched (x # xs) \<and>
    (\<forall>p. p \<notin> touched (x # xs) \<longrightarrow> map_of (allocation_map h') p = map_of (allocation_map h) p) \<and>
    (\<forall>p. p \<in> touched (x # xs) \<longrightarrow> p \<notin> touched (ys @ xs) \<longrightarrow> map_of (allocation_map h') p = B p)"
proof (cases "aside x")
  case True
  note eff = aside_effect [OF h this run]
  have "touched (x # xs) = touched xs" "touched (ys @ xs) = touched xs"
    using True eff aside_touches [of "[x]"] aside_touches [of ys] by auto
  moreover have "thread_ok (map_of (allocation_map h')) B (ys @ xs)"
    using ok eff True by (simp add: thread_ok_def aside_first)
  ultimately show ?thesis using eff by simp
next
  case False
  then have "hook_ok (map_of (allocation_map h)) B (x # xs)" using ok by (simp add: thread_ok_def)
  note eff = hook_effect [OF h this run]
  then have "dropWhile aside (ys @ xs) = ys @ xs" by (intro hook_ok_first) (rule conjunct1 [OF conjunct2])
  with eff have "thread_ok (map_of (allocation_map h')) B (ys @ xs)" by (simp only: thread_ok_def)
  with eff show ?thesis by (intro conjI) blast+
qed

lemma section_step_inv:
  assumes inv: "conc_inv c" and step: "conc_step (Section t) c c'"
  shows "conc_inv c'"
proof -
  from step obtain x xs h' ys where pend: "co_pend c t = x # xs"
    and run: "run_section x (co_handler c) = (h', ys)"
    and c': "c' = c\<lparr>co_handler := h', co_pend := (co_pend c)(t := ys @ xs)\<rparr>"
    by (auto elim: critical_stepE)
  from inv have h: "handler_inv (co_handler c)" and hi: "heap_inv (co_blocks c)"
    and disj: "\<And>t t'. t \<noteq> t' \<Longrightarrow> touched (co_pend c t) \<inter> touched (co_pend c t') = {}"
    and exact: "\<And>p. \<forall>t. p \<notin> touched (co_pend c t) \<Longrightarrow> co_map c p = co_blocks c p"
    and ok: "\<And>t. thread_ok (co_map c) (co_blocks c) (co_pend c t)"
    unfolding conc_inv_def by blast+
  note eff = section_effect [OF h ok [of t, unfolded pend] run]
  have sub: "touched (co_pend c' t') \<subseteq> touched (co_pend c t')" for t'
    using eff pend c' by simp
  have frame: "co_map c' p = co_map c p" if "p \<notin> touched (co_pend c t)" for p
    using eff that pend c' by simp
  have "thread_ok (co_map c') (co_blocks c') (co_pend c' t')" for t'
  proof (cases "t' = t")
    case True
    then show ?thesis using eff c' by simp
  next
    case False
    have "thread_ok (co_map c') (co_blocks c) (co_pend c t')"
    proof (rule thread_ok_frame [rotated, OF ok])
      fix p
      assume "p \<in> touched (co_pend c t')"
      then have "p \<notin> touched (co_pend c t)" using disj [OF False] by blast
      then show "co_map c' p = co_map c p \<and> co_blocks c p = co_blocks c p" using frame by simp
    qed
    then show ?thesis using False c' by simp
  qed
  moreover have "co_map c' p = co_blocks c' p" if untouched: "\<forall>t. p \<notin> touched (co_pend c' t)" for p
  proof (cases "p \<in> touched (co_pend c t)")
    case True
    moreover have "p \<notin> touched (ys @ xs)" using untouched [THEN spec, of t] c' by simp
    ultimately show ?thesis using eff pend c' by simp
  next
    case False
    have "p \<notin> touched (co_pend c t')" for t'
      using untouched [THEN spec, of t'] False c' by (cases "t' = t") auto
    then show ?thesis using exact [of p] frame [OF False] c' by simp
  qed
  moreover have "touched (co_pend c' t1) \<inter> touched (co_pend c' t2) = {}" if "t1 \<noteq> t2" for t1 t2
    using disj [OF that] sub [of t1] sub [of t2] by blast
  ultimately show ?thesis using eff hi c' unfolding conc_inv_def by simp
qed

lemma signal_step_inv:
  assumes "conc_inv c" and "conc_step (Signal t sg) c c'"
  shows "conc_inv c'"
proof -
  from assms(2) have c': "c' = c\<lparr>co_pend := (co_pend c)(t := signal_sections sg @ co_pend c t)\<rparr>"
    by (auto elim: signal_stepE)
  have aside: "list_all aside (signal_sections sg)" by (cases sg) (auto split: option.split)
  have same: "touched (co_pend c' t') = touched (co_pend c t')" for t'
    using aside_touches [OF aside] c' by auto
  have "thread_ok (co_map c') (co_blocks c') (co_pend c' t')" for t'
    using assms(1) c' by (cases "t' = t") (simp_all add: conc_inv_def thread_ok_def aside_first [OF aside])
  then show ?thesis using assms(1) c' unfolding conc_inv_def same by simp
qed

lemma conc_step_inv: "conc_inv c \<Longrightarrow> quiet a c \<Longrightarrow> conc_step a c c' \<Longrightarrow> conc_inv c'"
  by (cases a) (auto intro: heap_step_inv section_step_inv signal_step_inv simp del: quiet.simps(1))

lemma conc_reach_inv: "conc_reach c \<Longrightarrow> conc_inv c"
  by (induction rule: conc_reach.induct) (auto intro: conc_inv0 conc_step_inv)

subsection \<open>Schedules\<close>

text \<open>The only state a step can lead to, and when it is enabled.\<close>

fun conc_next :: "action \<Rightarrow> conc \<Rightarrow> conc" where
  "conc_next (Heap t e) c =
    c\<lparr>co_ghost := ghost_step e (co_ghost c), co_pend := (co_pend c)(t := hook_sections e)\<rparr>"
| "conc_next (Section t) c =
    (case co_pend c t of
       [] \<Rightarrow> c
     | x # xs \<Rightarrow>
         c\<lparr>co_handler := fst (run_section x (co_handler c)),
           co_pend := (co_pend c)(t := snd (run_section x (co_handler c)) @ xs)\<rparr>)"
| "conc_next (Signal t sg) c = c\<lparr>co_pend := (co_pend c)(t := signal_sections sg @ co_pend c t)\<rparr>"

fun enabled :: "action \<Rightarrow> conc \<Rightarrow> bool" where
  "enabled (Heap t e) c \<longleftrightarrow> (\<forall>q pk. e \<noteq> Fault q pk) \<and> co_pend c t = [] \<and> allocator_ok e (co_ghost c)"
| "enabled (Section t) c \<longleftrightarrow> co_pend c t \<noteq> []"
| "enabled (Signal t sg) c \<longleftrightarrow> \<not> list_ex of_handler (co_pend c t)"

lemma conc_step_iff: "conc_step a c c' \<longleftrightarrow> enabled a c \<and> c' = conc_next a c"
  by (cases a)
    (auto elim!: heap_stepE critical_stepE signal_stepE intro: conc_step.intros
      simp: neq_Nil_conv prod_eq_iff isl_def intro!: conc_step.critical split: sum.splits)

lemma conc_run_ConsI: "enabled a c \<Longrightarrow> conc_run as (conc_next a c) c' \<Longrightarrow> conc_run (a # as) c c'"
  by (rule conc_run.go) (simp_all add: conc_step_iff)

lemma conc_reach_next: "conc_reach c \<Longrightarrow> quiet a c \<Longrightarrow> enabled a c \<Longrightarrow> conc_reach (conc_next a c)"
  by (rule conc_reach.step) (simp_all add: conc_step_iff)

text \<open>A lookup returns no site of an address that is not filed.\<close>

lemma lookup_misses:
  assumes m: "map_inv (allocation_map h)" and none: "map_of (allocation_map h) p = None" and "p \<noteq> 0"
  shows "as_ptr (getAllocSite q h) \<noteq> p"
proof (cases "spec_site (map_of (allocation_map h)) q")
  case None
  then show ?thesis
    using assms(3) by (simp add: lookup_site [OF m] spec_site_or_error_def AllocSite_error_def)
next
  case (Some s)
  then obtain p' where "map_of (allocation_map h) p' = Some s"
    by (auto simp: spec_site_def Let_def split: option.splits if_splits)
  then have "map_of (allocation_map h) (as_ptr s) = Some s" using map_inv_map_of [OF m] by metis
  then show ?thesis using Some none by (auto simp: lookup_site [OF m] spec_site_or_error_def)
qed

subsection \<open>What the hooks guarantee, and what they do not\<close>

text \<open>An address in a live block, with no hook under way about an address between.\<close>

lemma lookup_between:
  assumes inv: "conc_inv c" and s: "blocks (co_ghost c) p = Some s" and q: "owns s q"
    and quiet: "\<And>p'. p \<le> p' \<Longrightarrow> p' \<le> q \<Longrightarrow> \<forall>t. p' \<notin> touched (co_pend c t)"
  shows "getAllocSite q (co_handler c) = s"
proof -
  have exact: "co_map c p' = co_blocks c p'" if "p \<le> p'" "p' \<le> q" for p'
    using inv quiet [OF that] unfolding conc_inv_def by blast
  have wp: "well_placed (co_blocks c)" and dj: "disjoint_live (co_blocks c)"
    using inv by (simp_all add: conc_inv_def heap_inv_def)
  have p: "as_ptr s = p" "p \<le> q" using well_placedD(1) [OF wp s] q by (auto simp: owns_def word_le_def)
  have none: "co_blocks c p' = None" if "p < p'" "p' \<le> q" for p'
    using dj s q p(1) that by (cases "co_blocks c p'") (fastforce simp: disjoint_live_def owns_def word_le_def word_less_def)+
  have "spec_site (co_map c) q = Some s"
  proof (cases "q = p")
    case True
    then show ?thesis using exact [of p] s by (simp add: spec_site_def)
  next
    case False
    then have "p < q" using p(2) by simp
    moreover have "p' \<le> p" if "co_map c p' = Some s'" "p' < q" for p' s'
      using that exact [of p'] none [of p'] by fastforce
    moreover have "co_map c q = None" using exact [of q] none [of q] p(2) \<open>p < q\<close> by simp
    moreover have "co_map c p = Some s" using exact [of p] s p(2) by simp
    ultimately have "spec_site (co_map c) q = (if containsPtr s q then Some s else None)"
      by (intro spec_site_below)
    then show ?thesis using well_placedD(3) [OF wp s, of q] q by simp
  qed
  moreover have "map_inv (allocation_map (co_handler c))" using inv by (simp add: conc_inv_def handler_inv_def)
  ultimately show ?thesis by (simp add: lookup_site spec_site_or_error_def)
qed

text \<open>However threads interleave their allocator calls, the critical sections of their hooks and their
  faults, as long as the allocator hands out no address that a hook still under way is about: the map
  agrees with the heap at every address of no pending hook; and a lookup inside a live block finds its
  site if no pending hook is about an address from the start of the block to the address looked up.\<close>

lemma concurrent_map_exact:
  assumes "conc_reach c" and "\<forall>t. p \<notin> touched (co_pend c t)"
  shows "map_of (allocation_map (co_handler c)) p = blocks (co_ghost c) p \<and>
    (\<forall>s q. blocks (co_ghost c) p = Some s \<longrightarrow> owns s q \<longrightarrow>
      (\<forall>p' t. p \<le> p' \<longrightarrow> p' \<le> q \<longrightarrow> p' \<notin> touched (co_pend c t)) \<longrightarrow> getAllocSite q (co_handler c) = s)"
proof -
  have inv: "conc_inv c" using assms(1) by (rule conc_reach_inv)
  have "co_map c p = co_blocks c p" using inv assms(2) unfolding conc_inv_def by blast
  moreover have "getAllocSite q (co_handler c) = s"
    if "co_blocks c p = Some s" "owns s q" "\<forall>p' t. p \<le> p' \<longrightarrow> p' \<le> q \<longrightarrow> p' \<notin> touched (co_pend c t)" for s q
    using that(3) by (intro lookup_between [OF inv that(1,2)] allI) (simp only: not_False_eq_True simp_thms)
  ultimately show ?thesis by (intro conjI allI impI)
qed

text \<open>
  Two threads: the second allocates while the first is inside its reallocation hook, and faults in
  its block before that hook has filed the new site.
\<close>

definition demo_schedule :: "action list" where
  "demo_schedule =
    [Heap 1 (Alloc 0x1000 16 0 ''entry'' ''f''), Section 1,
     Heap 1 (Realloc 0x2000 32 0x1000 16 1 ''entry'' ''grow''), Section 1,
     Heap 2 (Alloc 0x3000 16 2 ''entry'' ''g''), Section 1, Section 2, Section 1,
     Signal 2 (Segv 0x3008 1 None)]"

lemma demo_schedule_state:
  "conc_reach (fold conc_next demo_schedule conc0)"
  "co_pend (fold conc_next demo_schedule conc0) =
    (\<lambda>_. [])(1 := [SInsert 0x2000 (the_site 0x2000 32 1 ''entry'' ''grow'' True)], 2 := [SFind 0x3008 1, SLook 0x3008, SLook 0x3008])"
  "co_blocks (fold conc_next demo_schedule conc0) 0x3000 = Some (the_site 0x3000 16 2 ''entry'' ''g'' False)"
proof -
  show "conc_reach (fold conc_next demo_schedule conc0)"
    unfolding demo_schedule_def fold_simps o_apply id_apply
    apply (rule conc_reach_next)+
    apply (rule conc_reach.start)
    apply (simp_all add: conc0_def ghost0_def free_range_def the_site_def isValid_def
        AllocSiteHandler_def insertAllocSite_def getAllocSite_def om_lower_bound_def)
    apply auto
    done
  show "co_pend (fold conc_next demo_schedule conc0) =
    (\<lambda>_. [])(1 := [SInsert 0x2000 (the_site 0x2000 32 1 ''entry'' ''grow'' True)], 2 := [SFind 0x3008 1, SLook 0x3008, SLook 0x3008])"
    by (simp add: demo_schedule_def conc0_def fun_eq_iff AllocSiteHandler_def insertAllocSite_def getAllocSite_def
        om_lower_bound_def the_site_def isValid_def)
  show "co_blocks (fold conc_next demo_schedule conc0) 0x3000 = Some (the_site 0x3000 16 2 ''entry'' ''g'' False)"
    by (simp add: demo_schedule_def conc0_def)
qed

lemma one_block_state:
  obtains c where "conc_reach c" and "co_pend c = (\<lambda>_. [])"
    and "co_blocks c = [0x1000 \<mapsto> the_site 0x1000 16 0 ''entry'' ''f'' False]"
proof
  let ?c = "fold conc_next [Heap 1 (Alloc 0x1000 16 0 ''entry'' ''f''), Section 1] conc0"
  show "conc_reach ?c"
    unfolding fold_simps o_apply id_apply
    apply (rule conc_reach_next)+
    apply (rule conc_reach.start)
    apply (simp_all add: conc0_def ghost0_def free_range_def the_site_def isValid_def)
    done
  show "co_pend ?c = (\<lambda>_. [])" by (simp add: conc0_def fun_eq_iff)
  show "co_blocks ?c = [0x1000 \<mapsto> the_site 0x1000 16 0 ''entry'' ''f'' False]"
    by (simp add: conc0_def ghost0_def)
qed

text \<open>C23: Otherwise a block can be lost. The hook of a free runs behind the call; if another thread is
  given the freed block and files its site before that hook starts, the site is not stored, since
  the stale one is still there, and the late hook then removes the entry: the block is live and no
  hook is under way, but the map does not hold it and no lookup ever returns a site of its
  address.\<close>

theorem hook_race_loses_block:
  assumes "conc_reach c" and "t1 \<noteq> t2" and "co_pend c t1 = []" and "co_pend c t2 = []"
    and "\<forall>t. p \<notin> touched (co_pend c t)" and "blocks (co_ghost c) p \<noteq> None"
    and "free_range ((blocks (co_ghost c))(p := None)) (the_site p sz lid bb fn False)"
  shows "\<exists>c'. conc_run [Heap t1 (Dealloc p sz' lid'), Heap t2 (Alloc p sz lid bb fn), Section t2, Section t1] c c' \<and>
    co_pend c' = co_pend c \<and> blocks (co_ghost c') p = Some (the_site p sz lid bb fn False) \<and>
    map_of (allocation_map (co_handler c')) p = None \<and>
    (\<forall>q. as_ptr (getAllocSite q (co_handler c')) \<noteq> p)"
proof -
  have inv: "conc_inv c" using assms(1) by (rule conc_reach_inv)
  let ?s = "the_site p sz lid bb fn False"
  let ?as = "[Heap t1 (Dealloc p sz' lid'), Heap t2 (Alloc p sz lid bb fn), Section t2, Section t1]"
  let ?c = "fold conc_next ?as c"
  have h: "handler_inv (co_handler c)" using inv by (simp add: conc_inv_def)
  have stale: "co_map c p \<noteq> None" using inv assms(5,6) unfolding conc_inv_def by metis
  have end_h: "co_handler ?c = removeAllocSite p (insertAllocSite p ?s (co_handler c))"
    using assms(2-4) by simp
  have valid: "isValid ?s" using assms(7) by (simp add: free_range_def)
  have h': "handler_inv (co_handler ?c)"
    unfolding end_h using h valid by (intro handler_inv_remove handler_inv_insert) simp_all
  have gone: "co_map ?c p = None" unfolding end_h by (simp add: handler_maps)
  have "conc_run ?as c ?c"
    unfolding fold_simps using assms(2-4,6,7)
    by (intro conc_run_ConsI) (simp_all add: conc_run.stop)
  moreover have "co_pend ?c = co_pend c" using assms(2-4) by (auto simp: fun_eq_iff)
  moreover have "blocks (co_ghost ?c) p = Some ?s" using assms(2-4) by simp
  moreover have "as_ptr (getAllocSite q (co_handler ?c)) \<noteq> p" for q
  proof -
    have "map_inv (allocation_map (co_handler ?c))" using h' by (simp add: handler_inv_def)
    with gone valid show ?thesis by (intro lookup_misses) (simp_all add: isValid_def)
  qed
  ultimately show ?thesis using gone by blast
qed

theorem hook_race_loses_block_witness:
  "\<exists>c' :: conc. blocks (co_ghost c') 0x1000 = Some (the_site 0x1000 16 2 ''entry'' ''g'' False) \<and>
    co_pend c' = (\<lambda>_. []) \<and> (\<forall>q. as_ptr (getAllocSite q (co_handler c')) \<noteq> 0x1000)"
proof -
  obtain c where reach: "conc_reach c" and idle: "co_pend c = (\<lambda>_. [])"
    and heap: "co_blocks c = [0x1000 \<mapsto> the_site 0x1000 16 0 ''entry'' ''f'' False]"
    by (rule one_block_state)
  have p: "co_pend c 1 = []" "co_pend c 2 = []" "\<forall>t. 0x1000 \<notin> touched (co_pend c t)"
    by (simp_all add: idle)
  have live: "co_blocks c 0x1000 \<noteq> None" by (simp add: heap)
  have fr: "free_range ((co_blocks c)(0x1000 := None)) (the_site 0x1000 16 2 ''entry'' ''g'' False)"
    by (simp add: heap free_range_def the_site_def isValid_def)
  have "(1 :: thread_id) \<noteq> 2" by simp
  from hook_race_loses_block [OF reach this p live fr, of 16 0] show ?thesis
    unfolding idle by blast
qed

text \<open>
  Even without such a race a fault can be blamed on a block that is gone: the entry of a freed block
  whose hook has not run yet shadows a block of another thread that reaches over its address.
\<close>

definition stale_schedule :: "action list" where
  "stale_schedule =
    [Heap 1 (Alloc 0x1008 16 0 ''entry'' ''f''), Section 1, Heap 1 (Dealloc 0x1008 16 0),
     Heap 2 (Alloc 0x1000 32 0 ''entry'' ''g''), Section 2,
     Signal 2 (Segv 0x1010 1 None), Section 2, Section 2]"

lemma stale_entry_misblames:
  "map site_key (faultingAllocs (co_handler (fold conc_next stale_schedule conc0))) = [(''f'', ''entry'', 0)]"
  "conc_run stale_schedule conc0 (fold conc_next stale_schedule conc0)"
  "blocks (co_ghost (fold conc_next stale_schedule conc0)) = [0x1000 \<mapsto> the_site 0x1000 32 0 ''entry'' ''g'' False]"
  "owns (the_site 0x1000 32 0 ''entry'' ''g'' False) 0x1010"
proof -
  show "map site_key (faultingAllocs (co_handler (fold conc_next stale_schedule conc0))) = [(''f'', ''entry'', 0)]"
    by code_simp
  show "conc_run stale_schedule conc0 (fold conc_next stale_schedule conc0)"
    unfolding stale_schedule_def fold_simps
    by (intro conc_run_ConsI conc_run.stop)
      (simp_all add: conc0_def ghost0_def free_range_def the_site_def isValid_def)
  show "blocks (co_ghost (fold conc_next stale_schedule conc0)) = [0x1000 \<mapsto> the_site 0x1000 32 0 ''entry'' ''g'' False]"
    by (simp add: stale_schedule_def conc0_def ghost0_def split: sum.split)
  show "owns (the_site 0x1000 32 0 ''entry'' ''g'' False) 0x1010" by (simp add: owns_def)
qed

text \<open>The critical sections, run in a row without interruption, are the hooks and the recording of a
  fault: one that returns leaves the handler as its sections do, so running alone is a special case of
  the interleavings above.\<close>

lemma hook_is_sections:
  assumes "rt_step pf e rt = Inr rt'" and "the_handler (getOrInit pf rt) = Inr h"
  shows "AllocSiteHandle rt' = Some (run_alone (hook_sections e) h)"
proof (cases e)
  case (Alloc p sz lid bb fn)
  then show ?thesis
    using assms by (auto simp: allocHook_def and_then_eq_Inr make_site_Inr Let_def)
next
  case (Dealloc p sz lid)
  then show ?thesis using assms by (auto simp: deallocHook_def Let_def)
next
  case (Realloc np nsz op osz lid bb fn)
  then show ?thesis
    using assms
    by (auto simp: reallocHook_def and_then_eq_Inr make_site_Inr Let_def the_site_def split: if_splits)
next
  case (Fault q pk)
  then show ?thesis
    using assms by (auto simp: recordFault_def and_then_eq_Inr Let_def dest!: addFaultAlloc_mark split: if_splits)
qed

end
