(* ===== verification/Interleaved_Faults.thy ===== *)
theory Interleaved_Faults
  imports Interleaving
begin

section \<open>Faults between other threads\<close>

text \<open>
  A signal handler looks the faulting address up, and marks the site it found in a second section.
  Whatever other threads do before, between and behind these, the site gets into the fault set, with
  the chain it has when it is found, and stays there: sections only add to fault set and chains.
\<close>

abbreviation fault_keys :: "handler \<Rightarrow> site_key set" where
  "fault_keys h \<equiv> site_key ` set (fault_set h)"

lemma find_addPkey: "um_find site_eq (addPkey pk s) m = um_find site_eq s m"
  by (rule site.find_cong_key) (simp add: site_eq_key)

lemma fold_keys:
  "site_key ` set (fold (\<lambda>a. us_insert site_eq (addPkey pk a)) chain fs) = site_key ` set fs \<union> site_key ` set chain"
  by (induction chain arbitrary: fs) (simp_all add: keys_us_insert)

lemma mark_fault_keys:
  "fault_keys (mark_fault s pk h) =
    insert (site_key s) (fault_keys h) \<union> (case um_find site_eq s (FM h) of None \<Rightarrow> {} | Some chain \<Rightarrow> site_key ` set chain)"
  by (simp add: mark_fault_def Let_def find_addPkey fold_keys keys_us_insert split: option.split)

text \<open>No section takes a site out of the fault set, or changes a chain.\<close>

lemma section_keys: "fault_keys h \<subseteq> fault_keys (fst (run_section x h))"
proof (cases x)
  case (SMark s pk)
  then show ?thesis unfolding SMark run_section.simps fst_conv mark_fault_keys by blast
qed (simp_all add: insertAllocSite_def removeAllocSite_def updateReallocChain_def storePendingPKeyInfo_def
    getAndRemove_def split: option.split)

lemma section_chains:
  assumes "um_find site_eq s (FM h) = Some chain"
  shows "um_find site_eq s (FM (fst (run_section x h))) = Some chain"
  using assms
proof (cases x)
  case (SChain s1 s2)
  then show ?thesis using assms by (simp add: updateReallocChain_def site.find_emplace site.find_cong_key [of s2 s] split: option.split)
qed (simp_all add: insertAllocSite_def removeAllocSite_def storePendingPKeyInfo_def mark_fault_def Let_def
    getAndRemove_def split: option.split)

lemma section_adds:
  assumes "run_section x h = (h', ys)"
  shows "fault_keys h \<subseteq> fault_keys h'"
    and "um_find site_eq s (FM h) = Some chain \<Longrightarrow> um_find site_eq s (FM h') = Some chain"
  using section_keys [of h x] section_chains [of s h chain x] assms by simp_all

lemma step_adds:
  assumes "conc_step a c c'"
  shows "fault_keys (co_handler c) \<subseteq> fault_keys (co_handler c')"
    and "um_find site_eq s (FM (co_handler c)) = Some chain \<Longrightarrow> um_find site_eq s (FM (co_handler c')) = Some chain"
  using assms by (cases rule: conc_step.cases; auto dest: section_adds)+

text \<open>A thread that is about to mark a site.\<close>

definition marked :: "alloc_site \<Rightarrow> alloc_site list \<Rightarrow> handler \<Rightarrow> bool" where
  "marked s chain h \<longleftrightarrow> insert (site_key s) (site_key ` set chain) \<subseteq> fault_keys h"

definition about_to_mark :: "thread_id \<Rightarrow> alloc_site \<Rightarrow> u32 \<Rightarrow> alloc_site list \<Rightarrow> critical list \<Rightarrow> conc \<Rightarrow> bool" where
  "about_to_mark t s pk chain xs c \<longleftrightarrow>
    co_pend c t = SMark s pk # xs \<and> (chain \<noteq> [] \<longrightarrow> um_find site_eq s (FM (co_handler c)) = Some chain)"

lemma marked_stays: "conc_step a c c' \<Longrightarrow> marked s chain (co_handler c) \<Longrightarrow> marked s chain (co_handler c')"
  using step_adds(1) unfolding marked_def by blast

lemma mark_step:
  assumes "conc_step a c c'" and about: "about_to_mark t s pk chain xs c"
  shows "if a = Section t then marked s chain (co_handler c') else about_to_mark t s pk chain xs c'"
  using assms(1)
proof cases
  case (critical t' x ys h zs)
  show ?thesis
  proof (cases "t' = t")
    case True
    then show ?thesis
      using critical about by (auto simp: about_to_mark_def marked_def mark_fault_keys)
  next
    case False
    then show ?thesis
      using critical about section_adds(2) [OF critical(4), of s chain] by (auto simp: about_to_mark_def)
  qed
qed (use about in \<open>auto simp: about_to_mark_def\<close>)

lemma mark_run:
  assumes "conc_run as c c'"
  shows "marked s chain (co_handler c) \<Longrightarrow> marked s chain (co_handler c')"
    and "about_to_mark t s pk chain xs c \<Longrightarrow> Section t \<in> set as \<Longrightarrow> marked s chain (co_handler c')"
  using assms
proof (induction rule: conc_run.induct)
  case (go a c c1 as c2)
  { case 1
    then show ?case using go marked_stays by blast
  next
    case 2
    then show ?case using go.IH mark_step [OF go.hyps(1) 2(1)] by (auto split: if_splits)
  }
qed simp_all

text \<open>C20: A fault gets into the report between other threads, in any state that their sections lead to
  while the allocator hands out no address a pending hook is about. A thread that is about to look up
  an address in a live block, while no pending hook is about an address from the start of the block to
  the address, and that gets as far as its next two sections, leaves in the fault set the site
  of the block and the positions of its chain; other threads may allocate, free, fault and file
  between and behind its two sections, without taking anything back.\<close>

theorem concurrent_fault_recorded:
  assumes "conc_reach c" and "co_pend c t = SFind q pk # xs"
    and "blocks (co_ghost c) p = Some s" and "owns s q"
    and "\<And>p' t'. p \<le> p' \<Longrightarrow> p' \<le> q \<Longrightarrow> p' \<notin> touched (co_pend c t')"
    and "conc_run (Section t # as) c c'" and "Section t \<in> set as"
  shows "site_key s \<in> site_key ` set (fault_set (co_handler c')) \<and>
    (\<forall>chain. um_find site_eq s (FM (co_handler c)) = Some chain \<longrightarrow>
      site_key ` set chain \<subseteq> site_key ` set (fault_set (co_handler c')))"
proof -
  have inv: "conc_inv c" using assms(1) by (rule conc_reach_inv)
  have found: "getAllocSite q (co_handler c) = s"
    by (rule lookup_between [OF inv assms(3,4)]) (intro allI assms(5))
  have "well_placed (co_blocks c)" using inv by (simp add: conc_inv_def heap_inv_def)
  from this assms(3) have "isValid s" by (rule well_placedD(2))
  moreover from assms(6) obtain c1 where c1: "conc_step (Section t) c c1" "conc_run as c1 c'"
    by (auto elim: conc_run.cases)
  ultimately have "about_to_mark t s pk chain xs c1"
    if "chain \<noteq> [] \<longrightarrow> um_find site_eq s (FM (co_handler c)) = Some chain" for chain
    using that assms(2) found by (auto simp: about_to_mark_def elim!: critical_stepE)
  from mark_run(2) [OF c1(2) this assms(7)] have
    "marked s chain (co_handler c')" if "chain \<noteq> [] \<longrightarrow> um_find site_eq s (FM (co_handler c)) = Some chain" for chain
    using that by blast
  from this [of "[]"] this show ?thesis unfolding marked_def by auto
qed

theorem concurrent_fault_recorded_witness:
  "(''g'', ''entry'', 2) \<in> site_key ` set (fault_set (co_handler
    (fold conc_next (demo_schedule @ [Section 2, Section 1, Section 2]) conc0)))"
proof -
  define c where "c = fold conc_next demo_schedule conc0"
  note state = demo_schedule_state [folded c_def]
  let ?s = "the_site 0x3000 16 2 ''entry'' ''g'' False"
  have away: "p' \<notin> touched (co_pend c t')" if "0x3000 \<le> p'" "p' \<le> 0x3008" for p' t'
  proof -
    have "(0x2000 :: rust_ptr) < p'" using that(1) by (rule order_less_le_trans [rotated]) simp
    then have "p' \<noteq> 0x2000" by simp
    then show ?thesis unfolding state(2) by (simp add: fun_upd_def)
  qed
  have pend: "co_pend c 2 = SFind 0x3008 1 # [SLook 0x3008, SLook 0x3008]" by (simp add: state(2))
  have own: "owns ?s 0x3008" by (simp add: owns_def)
  have run: "conc_run [Section 2, Section 1, Section 2] c (fold conc_next [Section 2, Section 1, Section 2] c)"
    unfolding fold_simps
    by (intro conc_run_ConsI conc_run.stop) (simp_all add: state(2))
  have mem: "Section 2 \<in> set [Section 1, Section 2]" by simp
  have "site_key ?s \<in> site_key ` set (fault_set (co_handler (fold conc_next [Section 2, Section 1, Section 2] c)))"
    by (rule concurrent_fault_recorded [OF state(1) pend state(3) own away run mem, THEN conjunct1])
  then show ?thesis by (simp only: fold_append o_apply c_def the_site_simps)
qed

end
