(* ===== verification/Mutexes.thy ===== *)
theory Mutexes
  imports Interleaved_Faults
begin

section \<open>The mutexes of the handler\<close>

text \<open>
  \<open>AllocSiteHandler\<close> has a mutex for each of its four fields, which the operations hold with
  \<open>lock_guard\<close>. Here a critical section is the list of its statements between which other threads
  run: locking, the single accesses to the field, unlocking. What is shown: the sections are as good
  as atomic, threads never block each other for good and every hook and handler returns; and a
  thread that faults inside a section blocks itself.
\<close>

subsection \<open>Statements\<close>

datatype mutex = alloc_map_mx | fault_set_mx | pkey_tid_map_mx | realloc_map_mx

datatype stmt =
    Lock mutex
  | Unlock mutex
  | Emplace rust_ptr alloc_site
  | Erase rust_ptr
  | IsEmpty critical \<comment> \<open>the statements of \<open>getAllocSite\<close>, for a section that looks up\<close>
  | LowerBound critical
  | ExactMatch critical nat
  | Previous critical nat
  | Contains critical nat
  | InsertFault alloc_site
  | FindChain alloc_site u32
  | FindOld alloc_site alloc_site
  | EmplaceChain alloc_site "alloc_site list"
  | EmplaceKey thread_id PendingPKeyInfo
  | FindKey thread_id
  | EraseKey thread_id

fun lookup_addr :: "critical \<Rightarrow> rust_ptr" where
  "lookup_addr (SLookup p s) = p"
| "lookup_addr (SFind q pk) = q"
| "lookup_addr (SLook q) = q"
| "lookup_addr _ = 0"

text \<open>The body of a section, with its guards.\<close>

fun statements :: "critical \<Rightarrow> stmt list" where
  "statements (SInsert p s) = [Lock alloc_map_mx, Emplace p s, Unlock alloc_map_mx]"
| "statements (SRemove p) = [Lock alloc_map_mx, Erase p, Unlock alloc_map_mx]"
| "statements (SChain oldAS newAS) = [Lock realloc_map_mx, FindOld oldAS newAS, Unlock realloc_map_mx]"
| "statements (SMark s pk) =
    [Lock fault_set_mx, InsertFault (addPkey pk s), Lock realloc_map_mx, FindChain (addPkey pk s) pk,
     Unlock realloc_map_mx, Unlock fault_set_mx]"
| "statements (SStore t info) = [Lock pkey_tid_map_mx, EmplaceKey t info, Unlock pkey_tid_map_mx]"
| "statements (STake t) = [Lock pkey_tid_map_mx, FindKey t, Unlock pkey_tid_map_mx]"
| "statements x = [Lock alloc_map_mx, IsEmpty x, Unlock alloc_map_mx]"

text \<open>
  What a statement does to the handler, the statements it goes on with, and the sections that
  follow behind the section.
\<close>

fun exec_stmt :: "stmt \<Rightarrow> handler \<Rightarrow> handler \<times> stmt list \<times> critical list" where
  "exec_stmt (Lock m) h = (h, [], [])"
| "exec_stmt (Unlock m) h = (h, [], [])"
| "exec_stmt (Emplace p s) h = (h\<lparr>allocation_map := om_emplace p s (allocation_map h)\<rparr>, [], [])"
| "exec_stmt (Erase p) h = (h\<lparr>allocation_map := om_erase p (allocation_map h)\<rparr>, [], [])"
| "exec_stmt (IsEmpty x) h =
    (if allocation_map h = [] then (h, [], after_lookup x AllocSite_error) else (h, [LowerBound x], []))"
| "exec_stmt (LowerBound x) h = (h, [ExactMatch x (om_lower_bound (lookup_addr x) (allocation_map h))], [])"
| "exec_stmt (ExactMatch x it) h =
    (if it \<noteq> length (allocation_map h) \<and> fst (allocation_map h ! it) = lookup_addr x
     then (h, [], after_lookup x (snd (allocation_map h ! it))) else (h, [Previous x it], []))"
| "exec_stmt (Previous x it) h = (h, [Contains x (if it \<noteq> 0 then it - 1 else it)], [])"
| "exec_stmt (Contains x it) h =
    (if containsPtr (snd (allocation_map h ! it)) (lookup_addr x)
     then (h, [], after_lookup x (snd (allocation_map h ! it))) else (h, [], after_lookup x AllocSite_error))"
| "exec_stmt (InsertFault s) h = (h\<lparr>fault_set := us_insert site_eq s (fault_set h)\<rparr>, [], [])"
| "exec_stmt (FindChain s pk) h =
    (case um_find site_eq s (FM h) of
       None \<Rightarrow> (h, [], [])
     | Some chain \<Rightarrow> (h, map (\<lambda>assoc. InsertFault (addPkey pk assoc)) chain, []))"
| "exec_stmt (FindOld oldAS newAS) h =
    (case um_find site_eq oldAS (FM h) of
       None \<Rightarrow> (h, [EmplaceChain newAS (us_insert site_eq oldAS [])], [])
     | Some chain \<Rightarrow> (h, [EmplaceChain newAS (us_insert site_eq oldAS chain)], []))"
| "exec_stmt (EmplaceChain newAS chain) h = (h\<lparr>FM := um_emplace site_eq newAS chain (FM h)\<rparr>, [], [])"
| "exec_stmt (EmplaceKey t info) h = (h\<lparr>pkey_by_tid_map := um_emplace (=) t info (pkey_by_tid_map h)\<rparr>, [], [])"
| "exec_stmt (FindKey t) h =
    (case um_find (=) t (pkey_by_tid_map h) of None \<Rightarrow> (h, [], []) | Some info \<Rightarrow> (h, [EraseKey t], []))"
| "exec_stmt (EraseKey t) h = (h\<lparr>pkey_by_tid_map := um_erase (=) t (pkey_by_tid_map h)\<rparr>, [], [])"

subsection \<open>Threads\<close>

record locked =
  lk_handler :: handler
  lk_ghost :: ghost
  lk_owner :: "mutex \<Rightarrow> thread_id option"
  lk_code :: "thread_id \<Rightarrow> stmt list"
  lk_now :: "thread_id \<Rightarrow> critical list" \<comment> \<open>the section the code is of\<close>
  lk_pend :: "thread_id \<Rightarrow> critical list"

abbreviation at_rest :: "locked \<Rightarrow> thread_id \<Rightarrow> bool" where
  "at_rest l t \<equiv> lk_code l t = [] \<and> lk_pend l t = []"

fun guard :: "stmt \<Rightarrow> bool" where
  "guard (Lock m) = True"
| "guard (Unlock m) = True"
| "guard x = False"

text \<open>A thread starts a section or executes its next statement.\<close>

inductive works :: "thread_id \<Rightarrow> locked \<Rightarrow> locked \<Rightarrow> bool" where
  enter: "lk_code l t = [] \<Longrightarrow> lk_pend l t = x # xs \<Longrightarrow>
    works t l (l\<lparr>lk_code := (lk_code l)(t := statements x), lk_now := (lk_now l)(t := [x]),
      lk_pend := (lk_pend l)(t := xs)\<rparr>)"
| lock: "lk_code l t = Lock m # c \<Longrightarrow> lk_owner l m = None \<Longrightarrow>
    works t l (l\<lparr>lk_code := (lk_code l)(t := c), lk_owner := (lk_owner l)(m := Some t)\<rparr>)"
| unlock: "lk_code l t = Unlock m # c \<Longrightarrow>
    works t l (l\<lparr>lk_code := (lk_code l)(t := c), lk_owner := (lk_owner l)(m := None)\<rparr>)"
| access: "lk_code l t = x # c \<Longrightarrow> \<not> guard x \<Longrightarrow> exec_stmt x (lk_handler l) = (h, ys, zs) \<Longrightarrow>
    works t l (l\<lparr>lk_handler := h, lk_code := (lk_code l)(t := ys @ c), lk_pend := (lk_pend l)(t := zs @ lk_pend l t)\<rparr>)"

inductive_cases worksE: "works t l l'"

text \<open>When a thread can go on, and the only state its next step can lead to.\<close>

definition can_work :: "thread_id \<Rightarrow> locked \<Rightarrow> bool" where
  "can_work t l \<longleftrightarrow>
    (case lk_code l t of [] \<Rightarrow> lk_pend l t \<noteq> [] | Lock m # c \<Rightarrow> lk_owner l m = None | x # c \<Rightarrow> True)"

definition work_next :: "thread_id \<Rightarrow> locked \<Rightarrow> locked" where
  "work_next t l =
    (case lk_code l t of
       [] \<Rightarrow>
         (case lk_pend l t of
            [] \<Rightarrow> l
          | x # xs \<Rightarrow> l\<lparr>lk_code := (lk_code l)(t := statements x), lk_now := (lk_now l)(t := [x]), lk_pend := (lk_pend l)(t := xs)\<rparr>)
     | Lock m # c \<Rightarrow> l\<lparr>lk_code := (lk_code l)(t := c), lk_owner := (lk_owner l)(m := Some t)\<rparr>
     | Unlock m # c \<Rightarrow> l\<lparr>lk_code := (lk_code l)(t := c), lk_owner := (lk_owner l)(m := None)\<rparr>
     | x # c \<Rightarrow>
         (case exec_stmt x (lk_handler l) of
            (h, ys, zs) \<Rightarrow> l\<lparr>lk_handler := h, lk_code := (lk_code l)(t := ys @ c), lk_pend := (lk_pend l)(t := zs @ lk_pend l t)\<rparr>))"

lemma can_work_access: "lk_code l t = x # c \<Longrightarrow> \<not> guard x \<Longrightarrow> can_work t l"
  by (cases x) (simp_all add: can_work_def)

lemma work_next_access:
  "lk_code l t = x # c \<Longrightarrow> \<not> guard x \<Longrightarrow> exec_stmt x (lk_handler l) = (h, ys, zs) \<Longrightarrow>
    work_next t l = l\<lparr>lk_handler := h, lk_code := (lk_code l)(t := ys @ c), lk_pend := (lk_pend l)(t := zs @ lk_pend l t)\<rparr>"
  by (cases x) (simp_all add: work_next_def del: exec_stmt.simps)

lemma guard_cases: obtains k where "x = Lock k" | k where "x = Unlock k" | "\<not> guard x"
  by (cases x) simp_all

lemma works_iff: "works t l l' \<longleftrightarrow> can_work t l \<and> l' = work_next t l"
proof
  assume "works t l l'"
  then show "can_work t l \<and> l' = work_next t l"
  proof cases
    case (access x c h ys zs)
    from can_work_access [OF access(2,3)] work_next_access [OF access(2-4)] access(1) show ?thesis by simp
  qed (simp_all add: can_work_def work_next_def)
next
  assume can: "can_work t l \<and> l' = work_next t l"
  show "works t l l'"
  proof (cases "lk_code l t")
    case Nil
    then show ?thesis
      using can works.enter [OF Nil] by (auto simp: can_work_def work_next_def split: list.splits)
  next
    case (Cons x c)
    show ?thesis
    proof (cases x rule: guard_cases)
      case 3
      then show ?thesis using works.access [OF Cons] work_next_access [OF Cons] can by (metis prod_cases3)
    qed (use can Cons works.lock works.unlock in \<open>auto simp: can_work_def work_next_def\<close>)
  qed
qed

text \<open>A call of the allocator returns to a thread, or it gets a signal outside its sections.\<close>

definition call_returns :: "thread_id \<Rightarrow> rt_event \<Rightarrow> locked \<Rightarrow> locked" where
  "call_returns t e l =
    l\<lparr>lk_ghost := ghost_step e (lk_ghost l), lk_pend := (lk_pend l)(t := hook_sections e)\<rparr>"

definition gets_signal :: "thread_id \<Rightarrow> signal \<Rightarrow> locked \<Rightarrow> locked" where
  "gets_signal t sg l = l\<lparr>lk_pend := (lk_pend l)(t := signal_sections sg @ lk_pend l t)\<rparr>"

definition busy :: "locked \<Rightarrow> thread_id \<Rightarrow> critical list" where
  "busy l t = (if lk_code l t = [] then [] else lk_now l t) @ lk_pend l t"

definition locked0 :: locked where
  "locked0 = \<lparr>lk_handler = AllocSiteHandler, lk_ghost = ghost0, lk_owner = (\<lambda>_. None), lk_code = (\<lambda>_. []),
    lk_now = (\<lambda>_. []), lk_pend = (\<lambda>_. [])\<rparr>"

text \<open>
  The states of every run, whatever live or freed address the allocator hands out again, and, with
  \<open>apart\<close>, those of the runs in which it hands out no address that a hook under way is about. A signal
  finds its thread outside a hook or between two sections of it, as signals are blocked in their
  handlers; a fault inside a section is treated below.
\<close>

inductive lock_reach :: "bool \<Rightarrow> locked \<Rightarrow> bool" for apart where
  start: "lock_reach apart locked0"
| heap: "lock_reach apart l \<Longrightarrow> \<forall>q pk. e \<noteq> Fault q pk \<Longrightarrow> at_rest l t \<Longrightarrow> allocator_ok e (lk_ghost l) \<Longrightarrow>
    apart \<longrightarrow> (\<forall>t'. event_addrs e \<inter> touched (busy l t') = {}) \<Longrightarrow> lock_reach apart (call_returns t e l)"
| signal: "lock_reach apart l \<Longrightarrow> lk_code l t = [] \<Longrightarrow> \<not> list_ex of_handler (lk_pend l t) \<Longrightarrow>
    lock_reach apart (gets_signal t sg l)"
| work: "lock_reach apart l \<Longrightarrow> works t l l' \<Longrightarrow> lock_reach apart l'"

subsection \<open>Locking discipline\<close>

text \<open>The mutexes that guard what a statement, and those it goes on with, use.\<close>

fun needs :: "stmt \<Rightarrow> mutex set" where
  "needs (Lock m) = {}"
| "needs (Unlock m) = {}"
| "needs (InsertFault s) = {fault_set_mx}"
| "needs (FindChain s pk) = {fault_set_mx, realloc_map_mx}"
| "needs (FindOld s s') = {realloc_map_mx}"
| "needs (EmplaceChain s c) = {realloc_map_mx}"
| "needs (EmplaceKey t i) = {pkey_tid_map_mx}"
| "needs (FindKey t) = {pkey_tid_map_mx}"
| "needs (EraseKey t) = {pkey_tid_map_mx}"
| "needs _ = {alloc_map_mx}"

fun lock_rank :: "mutex \<Rightarrow> nat" where
  "lock_rank alloc_map_mx = 0"
| "lock_rank fault_set_mx = 1"
| "lock_rank pkey_tid_map_mx = 2"
| "lock_rank realloc_map_mx = 3"

fun is_unlock :: "stmt \<Rightarrow> bool" where
  "is_unlock (Unlock m) = True"
| "is_unlock x = False"

text \<open>
  With the mutexes \<open>H\<close> held: fields are used under their mutex, a mutex is taken only above those
  held, and behind the first unlocking there is nothing but unlocking.
\<close>

fun disciplined :: "mutex set \<Rightarrow> stmt list \<Rightarrow> bool" where
  "disciplined H [] = (H = {})"
| "disciplined H (x # c) =
    (case x of
       Lock m \<Rightarrow> (\<forall>k\<in>H. lock_rank k < lock_rank m) \<and> disciplined (insert m H) c
     | Unlock m \<Rightarrow> m \<in> H \<and> list_all is_unlock c \<and> disciplined (H - {m}) c
     | _ \<Rightarrow> needs x \<subseteq> H \<and> disciplined H c)"

lemma disciplined_access: "\<not> guard x \<Longrightarrow> disciplined H (x # c) \<longleftrightarrow> needs x \<subseteq> H \<and> disciplined H c"
  by (cases x) simp_all

lemma disciplined_append:
  "(\<And>y. y \<in> set ys \<Longrightarrow> \<not> guard y \<and> needs y \<subseteq> H) \<Longrightarrow> disciplined H (ys @ c) \<longleftrightarrow> disciplined H c"
  by (induction ys) (simp_all add: disciplined_access del: disciplined.simps(2))

lemma statements_disciplined: "disciplined {} (statements x)"
  by (cases x) (auto simp: insert_Diff_if)

lemma exec_goes_on:
  "exec_stmt x h = (h', ys, zs) \<Longrightarrow> y \<in> set ys \<Longrightarrow> \<not> guard y \<and> needs y \<subseteq> needs x"
  by (cases x) (auto split: option.splits if_splits)

lemma disciplined_exec:
  assumes "disciplined H (x # c)" and "\<not> guard x" and "exec_stmt x h = (h', ys, zs)"
  shows "disciplined H (ys @ c)"
proof -
  have x: "needs x \<subseteq> H" "disciplined H c" using assms(1) disciplined_access [OF assms(2)] by blast+
  have "\<not> guard y \<and> needs y \<subseteq> H" if "y \<in> set ys" for y
    using exec_goes_on [OF assms(3) that] x(1) by blast
  then have "disciplined H (ys @ c) \<longleftrightarrow> disciplined H c" by (rule disciplined_append)
  then show ?thesis using x(2) by blast
qed

subsection \<open>Fields and mutexes\<close>

text \<open>The handler with the fields of the mutexes \<open>H\<close> from \<open>h\<close> and the others from \<open>a\<close>.\<close>

definition merge :: "mutex set \<Rightarrow> handler \<Rightarrow> handler \<Rightarrow> handler" where
  "merge H h a =
    \<lparr>allocation_map = allocation_map (if alloc_map_mx \<in> H then h else a),
     fault_set = fault_set (if fault_set_mx \<in> H then h else a),
     pkey_by_tid_map = pkey_by_tid_map (if pkey_tid_map_mx \<in> H then h else a),
     FM = FM (if realloc_map_mx \<in> H then h else a)\<rparr>"

definition same_fields :: "mutex set \<Rightarrow> handler \<Rightarrow> handler \<Rightarrow> bool" where
  "same_fields H h a \<longleftrightarrow>
    (alloc_map_mx \<in> H \<longrightarrow> allocation_map h = allocation_map a) \<and>
    (fault_set_mx \<in> H \<longrightarrow> fault_set h = fault_set a) \<and>
    (pkey_tid_map_mx \<in> H \<longrightarrow> pkey_by_tid_map h = pkey_by_tid_map a) \<and>
    (realloc_map_mx \<in> H \<longrightarrow> FM h = FM a)"

lemma merge_none [simp]: "merge {} h a = a"
  by (simp add: merge_def)

lemma merge_fields [simp]:
  "allocation_map (merge H h a) = allocation_map (if alloc_map_mx \<in> H then h else a)"
  "fault_set (merge H h a) = fault_set (if fault_set_mx \<in> H then h else a)"
  "pkey_by_tid_map (merge H h a) = pkey_by_tid_map (if pkey_tid_map_mx \<in> H then h else a)"
  "FM (merge H h a) = FM (if realloc_map_mx \<in> H then h else a)"
  by (simp_all add: merge_def)

lemma merge_insert: "same_fields {m} h a \<Longrightarrow> merge (insert m H) h a = merge H h a"
  by (cases m) (auto simp: merge_def same_fields_def)

lemma same_fields_mono: "same_fields H h a \<Longrightarrow> K \<subseteq> H \<Longrightarrow> same_fields K h a"
  by (auto simp: same_fields_def)

lemma same_fields_refl [simp]: "same_fields H h h"
  by (simp add: same_fields_def)

lemma same_fields_trans: "same_fields H h a \<Longrightarrow> same_fields H a b \<Longrightarrow> same_fields H h b"
  by (auto simp: same_fields_def)

lemma same_fields_sym: "same_fields H h a \<Longrightarrow> same_fields H a h"
  by (auto simp: same_fields_def)

lemma same_merge: "K \<subseteq> H \<Longrightarrow> same_fields K h (merge H h a)" "K \<inter> H = {} \<Longrightarrow> same_fields K (merge H h a) a"
  by (auto simp: same_fields_def)

lemma same_fields_Un: "same_fields H h a \<Longrightarrow> same_fields K h a \<Longrightarrow> same_fields (H \<union> K) h a"
  by (auto simp: same_fields_def)

lemma merge_cong: "same_fields H h h' \<Longrightarrow> merge H h a = merge H h' a"
  by (auto simp: merge_def same_fields_def)

text \<open>A statement uses and changes the fields of its mutexes only.\<close>

lemma exec_merge:
  assumes "exec_stmt x h = (h', ys, zs)" and "needs x \<subseteq> H"
  shows "exec_stmt x (merge H h a) = (merge H h' a, ys, zs)"
  using assms by (cases x) (auto simp: merge_def split: option.splits if_splits)

lemma exec_same:
  assumes "exec_stmt x h = (h', ys, zs)" and "K \<inter> needs x = {}"
  shows "same_fields K h' h"
  using assms by (cases x) (auto simp: same_fields_def split: option.splits if_splits)

subsection \<open>A section that runs alone\<close>

fun finds :: "stmt \<Rightarrow> nat" where
  "finds (FindChain s pk) = 1"
| "finds x = 0"

fun stmt_weight :: "stmt \<Rightarrow> nat" where
  "stmt_weight (IsEmpty x) = 5"
| "stmt_weight (LowerBound x) = 4"
| "stmt_weight (ExactMatch x it) = 3"
| "stmt_weight (Previous x it) = 2"
| "stmt_weight (FindOld s s') = 2"
| "stmt_weight (FindKey t) = 2"
| "stmt_weight x = 1"

definition code_finds :: "stmt list \<Rightarrow> nat" where
  "code_finds c = sum_list (map finds c)"

definition code_weight :: "stmt list \<Rightarrow> nat" where
  "code_weight c = sum_list (map stmt_weight c)"

lemma code_measures [simp]:
  "code_finds [] = 0" "code_finds (x # c) = finds x + code_finds c" "code_finds (c @ d) = code_finds c + code_finds d"
  "code_weight [] = 0" "code_weight (x # c) = stmt_weight x + code_weight c"
  "code_weight (c @ d) = code_weight c + code_weight d"
  by (simp_all add: code_finds_def code_weight_def)

lemma exec_decreases:
  assumes "exec_stmt x h = (h', ys, zs)"
  shows "code_finds ys < finds x \<or> code_finds ys = finds x \<and> code_weight ys < stmt_weight x"
proof (cases "\<exists>s pk. x = FindChain s pk")
  case True
  have "code_finds (map (\<lambda>a. InsertFault (addPkey pk a)) chain) = 0" for pk chain by (induction chain) simp_all
  then show ?thesis using True assms by (auto split: option.splits)
next
  case False
  then show ?thesis using assms by (cases x) (auto split: option.splits if_splits)
qed

function alone :: "stmt list \<Rightarrow> handler \<Rightarrow> critical list \<Rightarrow> handler \<times> critical list" where
  "alone [] h ps = (h, ps)"
| "alone (x # c) h ps =
    alone (fst (snd (exec_stmt x h)) @ c) (fst (exec_stmt x h)) (snd (snd (exec_stmt x h)) @ ps)"
  by pat_completeness auto
termination
proof (relation "measures [\<lambda>(c, h, ps). code_finds c, \<lambda>(c, h, ps). code_weight c]")
  fix x c h ps
  obtain h' ys zs where "exec_stmt x h = (h', ys, zs)" by (cases "exec_stmt x h")
  then show "((fst (snd (exec_stmt x h)) @ c, fst (exec_stmt x h), snd (snd (exec_stmt x h)) @ ps), x # c, h, ps)
      \<in> measures [\<lambda>(c, h, ps). code_finds c, \<lambda>(c, h, ps). code_weight c]"
    using exec_decreases [of x h h' ys zs] by auto
qed simp

lemma alone_unlocks: "list_all is_unlock c \<Longrightarrow> alone c h ps = (h, ps)"
proof (induction c)
  case (Cons x c)
  then show ?case by (cases x) simp_all
qed simp

lemma alone_insert_faults:
  "alone (map (\<lambda>a. InsertFault (addPkey pk a)) chain @ c) h ps =
    alone c (h\<lparr>fault_set := fold (\<lambda>a. us_insert site_eq (addPkey pk a)) chain (fault_set h)\<rparr>) ps"
  by (induction chain arbitrary: h) simp_all

text \<open>A section that is not interrupted does what \<open>run_section\<close> says.\<close>

lemma alone_section: "alone (statements x) h ps = (fst (run_section x h), snd (run_section x h) @ ps)"
proof -
  have look: "alone [Lock alloc_map_mx, IsEmpty x, Unlock alloc_map_mx] h ps =
      (h, after_lookup x (getAllocSite (lookup_addr x) h) @ ps)" for x
    by (simp add: getAllocSite_def Let_def)
  show ?thesis
  proof (cases x)
    case (SMark s pk)
    then show ?thesis
      by (simp add: mark_fault_def Let_def alone_insert_faults split: option.split)
  qed (use look in \<open>simp_all add: insertAllocSite_def removeAllocSite_def updateReallocChain_def
      storePendingPKeyInfo_def getAndRemove_def split: option.split\<close>)
qed

subsection \<open>Sections are atomic\<close>

text \<open>
  The state in which a section is one step, at the moment the section first unlocks. A thread in front
  of it would, alone, finish its section as \<open>run_section\<close> says, whatever the others do to the fields
  whose mutexes it does not hold yet; behind it the thread only unlocks.
\<close>

definition held :: "locked \<Rightarrow> thread_id \<Rightarrow> mutex set" where
  "held l t = {m. lk_owner l m = Some t}"

abbreviation unlocked :: "locked \<Rightarrow> mutex set" where
  "unlocked l \<equiv> {m. lk_owner l m = None}"

definition lock_inv :: "locked \<Rightarrow> bool" where
  "lock_inv l \<longleftrightarrow> (\<forall>t. disciplined (held l t) (lk_code l t))"

definition before_unlock :: "locked \<Rightarrow> handler \<Rightarrow> critical list \<Rightarrow> thread_id \<Rightarrow> bool" where
  "before_unlock l a ps t \<longleftrightarrow>
    (\<exists>x xs. ps = x # xs \<and> lk_now l t = [x] \<and> lk_code l t \<noteq> [] \<and> set xs \<subseteq> set (lk_pend l t) \<and>
      (\<forall>a'. same_fields (held l t) a' a \<longrightarrow>
        alone (lk_code l t) (merge (held l t) (lk_handler l) a') (lk_pend l t) =
          (fst (run_section x a'), snd (run_section x a') @ xs)))"

definition behind_unlock :: "locked \<Rightarrow> handler \<Rightarrow> critical list \<Rightarrow> thread_id \<Rightarrow> bool" where
  "behind_unlock l a ps t \<longleftrightarrow>
    list_all is_unlock (lk_code l t) \<and> ps = lk_pend l t \<and> same_fields (held l t) (lk_handler l) a"

definition atomic_view :: "locked \<Rightarrow> conc \<Rightarrow> bool" where
  "atomic_view l c \<longleftrightarrow>
    lock_inv l \<and> co_ghost c = lk_ghost l \<and> same_fields (unlocked l) (lk_handler l) (co_handler c) \<and>
    (\<forall>t. before_unlock l (co_handler c) (co_pend c t) t \<or> behind_unlock l (co_handler c) (co_pend c t) t)"

lemma disciplined_nonempty: "disciplined H c \<Longrightarrow> H \<noteq> {} \<Longrightarrow> c \<noteq> []"
  by auto

lemma needs_some: "\<not> guard x \<Longrightarrow> needs x \<noteq> {}"
  by (cases x) simp_all

lemma held_apart: "t \<noteq> t' \<Longrightarrow> held l t \<inter> held l t' = {}" "held l t \<inter> unlocked l = {}"
  by (auto simp: held_def)

lemma view_disciplined: "atomic_view l c \<Longrightarrow> disciplined (held l t) (lk_code l t)"
  by (simp add: atomic_view_def lock_inv_def)

text \<open>What one thread does leaves the others where they were.\<close>

lemma view_frame:
  assumes "before_unlock l a ps t \<or> behind_unlock l a ps t"
    and "lk_code l' t = lk_code l t" "lk_now l' t = lk_now l t" "lk_pend l' t = lk_pend l t" "held l' t = held l t"
    and h: "same_fields (held l t) (lk_handler l') (lk_handler l)" and a: "same_fields (held l t) a' a"
  shows "before_unlock l' a' ps t \<or> behind_unlock l' a' ps t"
  using assms(1)
proof
  assume "before_unlock l a ps t"
  moreover have "same_fields (held l t) b a'  \<Longrightarrow> same_fields (held l t) b a" for b
    using a by (rule same_fields_trans [rotated])
  ultimately have "before_unlock l' a' ps t"
    unfolding before_unlock_def assms(2-5) merge_cong [OF h] by blast
  then show ?thesis ..
next
  assume "behind_unlock l a ps t"
  then have "same_fields (held l t) (lk_handler l') a'"
    using h same_fields_sym [OF a] unfolding behind_unlock_def by (blast intro: same_fields_trans)
  then show ?thesis using \<open>behind_unlock l a ps t\<close> by (simp add: behind_unlock_def assms(2-5))
qed

text \<open>One thread steps: what is left to show is about this thread.\<close>

lemma view_step:
  assumes view: "atomic_view l c"
    and others: "\<And>t'. t' \<noteq> t \<Longrightarrow> lk_code l' t' = lk_code l t' \<and> lk_now l' t' = lk_now l t' \<and>
      lk_pend l' t' = lk_pend l t' \<and> held l' t' = held l t' \<and> co_pend c' t' = co_pend c t' \<and>
      same_fields (held l t') (lk_handler l') (lk_handler l) \<and> same_fields (held l t') (co_handler c') (co_handler c)"
    and "co_ghost c' = co_ghost c" "lk_ghost l' = lk_ghost l"
    and "disciplined (held l' t) (lk_code l' t)"
    and "same_fields (unlocked l') (lk_handler l') (co_handler c')"
    and "before_unlock l' (co_handler c') (co_pend c' t) t \<or> behind_unlock l' (co_handler c') (co_pend c' t) t"
  shows "atomic_view l' c'"
proof -
  have "disciplined (held l' t') (lk_code l' t')" for t'
    using view others [of t'] assms(5) by (cases "t' = t") (simp_all add: atomic_view_def lock_inv_def)
  moreover have "before_unlock l' (co_handler c') (co_pend c' t') t' \<or> behind_unlock l' (co_handler c') (co_pend c' t') t'" for t'
  proof (cases "t' = t")
    case False
    note o = others [OF False]
    have "before_unlock l (co_handler c) (co_pend c t') t' \<or> behind_unlock l (co_handler c) (co_pend c t') t'"
      using view by (simp add: atomic_view_def)
    from view_frame [OF this, of l' "co_handler c'"] o show ?thesis by simp
  qed (use assms(7) in simp)
  ultimately show ?thesis
    using view assms(3,4,6) by (simp add: atomic_view_def lock_inv_def)
qed

lemma enter_view:
  assumes view: "atomic_view l c" and code: "lk_code l t = []" and pend: "lk_pend l t = x # xs"
  shows "atomic_view (l\<lparr>lk_code := (lk_code l)(t := statements x), lk_now := (lk_now l)(t := [x]),
    lk_pend := (lk_pend l)(t := xs)\<rparr>) c" (is "atomic_view ?l c")
proof (rule view_step [OF view, of t])
  have "disciplined (held l t) (lk_code l t)" using view by (rule view_disciplined)
  then have none: "held ?l t = {}" using code by (simp add: held_def)
  then show "disciplined (held ?l t) (lk_code ?l t)" by (simp add: statements_disciplined)
  have "before_unlock l (co_handler c) (co_pend c t) t \<or> behind_unlock l (co_handler c) (co_pend c t) t"
    using view by (simp add: atomic_view_def)
  then have "co_pend c t = x # xs" using code pend by (auto simp: before_unlock_def behind_unlock_def)
  moreover have "statements x \<noteq> []" by (cases x) simp_all
  ultimately have "before_unlock ?l (co_handler c) (co_pend c t) t"
    by (simp add: before_unlock_def none alone_section)
  then show "before_unlock ?l (co_handler c) (co_pend c t) t \<or> behind_unlock ?l (co_handler c) (co_pend c t) t" ..
qed (use view in \<open>simp_all add: held_def atomic_view_def\<close>)

lemma lock_view:
  assumes view: "atomic_view l c" and code: "lk_code l t = Lock m # d" and free: "lk_owner l m = None"
  shows "atomic_view (l\<lparr>lk_code := (lk_code l)(t := d), lk_owner := (lk_owner l)(m := Some t)\<rparr>) c"
    (is "atomic_view ?l c")
proof (rule view_step [OF view, of t])
  have held: "held ?l t = insert m (held l t)" by (auto simp: held_def)
  have "disciplined (held l t) (Lock m # d)" using view_disciplined [OF view, of t] code by simp
  then show d: "disciplined (held ?l t) (lk_code ?l t)" by (simp add: held)
  show same: "same_fields (unlocked ?l) (lk_handler ?l) (co_handler c)"
    using view by (auto simp: atomic_view_def elim!: same_fields_mono)
  have "\<not> behind_unlock l (co_handler c) (co_pend c t) t" using code by (simp add: behind_unlock_def)
  then obtain x xs where x: "co_pend c t = x # xs" "lk_now l t = [x]" "set xs \<subseteq> set (lk_pend l t)"
    and run: "\<And>a. same_fields (held l t) a (co_handler c) \<Longrightarrow>
      alone (Lock m # d) (merge (held l t) (lk_handler l) a) (lk_pend l t) = (fst (run_section x a), snd (run_section x a) @ xs)"
    using view code unfolding atomic_view_def before_unlock_def by metis
  have "alone d (merge (insert m (held l t)) (lk_handler l) a) (lk_pend l t) = (fst (run_section x a), snd (run_section x a) @ xs)"
    if a: "same_fields (insert m (held l t)) a (co_handler c)" for a
  proof -
    have "same_fields {m} (lk_handler l) (co_handler c)"
      using view free by (auto simp: atomic_view_def elim!: same_fields_mono)
    moreover have "same_fields {m} (co_handler c) a" using a by (auto intro: same_fields_sym elim!: same_fields_mono)
    ultimately have "merge (insert m (held l t)) (lk_handler l) a = merge (held l t) (lk_handler l) a"
      by (intro merge_insert) (rule same_fields_trans)
    moreover have "same_fields (held l t) a (co_handler c)" using a by (auto elim!: same_fields_mono)
    ultimately show ?thesis using run [of a] by simp
  qed
  then have "before_unlock ?l (co_handler c) (co_pend c t) t"
    using x d held disciplined_nonempty [OF d] unfolding before_unlock_def by simp
  then show "before_unlock ?l (co_handler c) (co_pend c t) t \<or> behind_unlock ?l (co_handler c) (co_pend c t) t" ..
qed (use free in \<open>auto simp: held_def\<close>)

abbreviation unlock_step :: "thread_id \<Rightarrow> mutex \<Rightarrow> stmt list \<Rightarrow> locked \<Rightarrow> locked" where
  "unlock_step t m d l \<equiv> l\<lparr>lk_code := (lk_code l)(t := d), lk_owner := (lk_owner l)(m := None)\<rparr>"

lemma unlock_frame:
  assumes "m \<in> held l t"
  shows "held (unlock_step t m d l) t = held l t - {m}" "unlocked (unlock_step t m d l) = insert m (unlocked l)"
    "t' \<noteq> t \<Longrightarrow> held (unlock_step t m d l) t' = held l t'"
  using assms by (auto simp: held_def)

text \<open>The first unlocking of a section is the step of the section.\<close>

lemma first_unlock_view:
  assumes view: "atomic_view l c" and code: "lk_code l t = Unlock m # d"
    and before: "before_unlock l (co_handler c) (co_pend c t) t"
  shows "\<exists>c'. conc_step (Section t) c c' \<and> atomic_view (unlock_step t m d l) c'" (is "\<exists>c'. _ \<and> atomic_view ?l c'")
proof -
  let ?a = "merge (held l t) (lk_handler l) (co_handler c)"
  have "disciplined (held l t) (Unlock m # d)" using view_disciplined [OF view, of t] code by simp
  then have m: "m \<in> held l t" and d: "list_all is_unlock d" "disciplined (held l t - {m}) d" by simp_all
  obtain x xs where x: "co_pend c t = x # xs"
    and run: "alone (Unlock m # d) ?a (lk_pend l t) = (fst (run_section x (co_handler c)), snd (run_section x (co_handler c)) @ xs)"
    using before unfolding before_unlock_def code by (metis same_fields_refl)
  obtain ys where ys: "run_section x (co_handler c) = (?a, ys)" "lk_pend l t = ys @ xs"
    using run alone_unlocks [OF d(1)] by (cases "run_section x (co_handler c)") simp
  let ?c = "c\<lparr>co_handler := ?a, co_pend := (co_pend c)(t := ys @ xs)\<rparr>"
  have "conc_step (Section t) c ?c" using x ys(1) by (rule conc_step.critical)
  moreover have "atomic_view ?l ?c"
  proof (rule view_step [OF view, of t])
    have "same_fields (unlocked l) (lk_handler l) (co_handler c)" using view by (simp add: atomic_view_def)
    moreover have "unlocked l \<inter> held l t = {}" using held_apart(2) [of l t] by blast
    ultimately have "same_fields (unlocked l) (lk_handler l) ?a"
      by (rule same_fields_trans [OF _ same_fields_sym [OF same_merge(2)]])
    moreover have "same_fields {m} (lk_handler l) ?a" using m by (intro same_merge) simp
    ultimately show "same_fields (unlocked ?l) (lk_handler ?l) (co_handler ?c)"
      unfolding unlock_frame(2) [OF m] using same_fields_Un [of "{m}" "lk_handler l" ?a "unlocked l"] by simp
    show "disciplined (held ?l t) (lk_code ?l t)" using d(2) unlock_frame(1) [OF m, of d] by simp
    have "behind_unlock ?l (co_handler ?c) (co_pend ?c t) t"
      using d(1) ys(2) same_merge(1) [of "held l t - {m}" "held l t"] unlock_frame(1) [OF m, of d]
      by (simp add: behind_unlock_def)
    then show "before_unlock ?l (co_handler ?c) (co_pend ?c t) t \<or> behind_unlock ?l (co_handler ?c) (co_pend ?c t) t" ..
  qed (use unlock_frame(3) [OF m] held_apart(1) in \<open>simp_all add: same_merge(2)\<close>)
  ultimately show ?thesis by blast
qed

lemma next_unlock_view:
  assumes view: "atomic_view l c" and code: "lk_code l t = Unlock m # d"
    and behind: "behind_unlock l (co_handler c) (co_pend c t) t"
  shows "atomic_view (unlock_step t m d l) c" (is "atomic_view ?l c")
proof (rule view_step [OF view, of t])
  have "disciplined (held l t) (Unlock m # d)" using view_disciplined [OF view, of t] code by simp
  then have m: "m \<in> held l t" and d: "list_all is_unlock d" "disciplined (held l t - {m}) d" by simp_all
  have same: "same_fields (held l t) (lk_handler l) (co_handler c)" using behind by (simp add: behind_unlock_def)
  show "same_fields (unlocked ?l) (lk_handler ?l) (co_handler c)"
    unfolding unlock_frame(2) [OF m]
    using view same_fields_mono [OF same, of "{m}"] m same_fields_Un [of "{m}" "lk_handler l" "co_handler c" "unlocked l"]
    by (simp add: atomic_view_def)
  show "disciplined (held ?l t) (lk_code ?l t)" using d(2) unlock_frame(1) [OF m, of d] by simp
  have "behind_unlock ?l (co_handler c) (co_pend c t) t"
    using d(1) behind same unlock_frame(1) [OF m, of d] by (auto simp: behind_unlock_def elim!: same_fields_mono)
  then show "before_unlock ?l (co_handler c) (co_pend c t) t \<or> behind_unlock ?l (co_handler c) (co_pend c t) t" ..
  show "lk_code ?l t' = lk_code l t' \<and> lk_now ?l t' = lk_now l t' \<and> lk_pend ?l t' = lk_pend l t' \<and>
      held ?l t' = held l t' \<and> co_pend c t' = co_pend c t' \<and>
      same_fields (held l t') (lk_handler ?l) (lk_handler l) \<and> same_fields (held l t') (co_handler c) (co_handler c)"
    if "t' \<noteq> t" for t'
    using unlock_frame(3) [OF m that] that by simp
qed simp_all

lemma access_view:
  assumes view: "atomic_view l c" and code: "lk_code l t = y # d" and y: "\<not> guard y"
    and run: "exec_stmt y (lk_handler l) = (h, ys, zs)"
  shows "atomic_view (l\<lparr>lk_handler := h, lk_code := (lk_code l)(t := ys @ d), lk_pend := (lk_pend l)(t := zs @ lk_pend l t)\<rparr>) c"
    (is "atomic_view ?l c")
proof (rule view_step [OF view, of t])
  have held: "held ?l t' = held l t'" for t' by (simp add: held_def)
  have disc: "disciplined (held l t) (y # d)" using view_disciplined [OF view, of t] code by simp
  then have needs: "needs y \<subseteq> held l t" using disciplined_access [OF y] by blast
  show d: "disciplined (held ?l t) (lk_code ?l t)" using disciplined_exec [OF disc y run] by (simp add: held)
  have same: "same_fields K h (lk_handler l)" if "K \<inter> held l t = {}" for K
    using exec_same [OF run] needs that by blast
  have "unlocked l \<inter> held l t = {}" using held_apart(2) [of l t] by blast
  from same [OF this] show "same_fields (unlocked ?l) (lk_handler ?l) (co_handler c)"
    using view by (auto simp: atomic_view_def intro: same_fields_trans)
  have "\<not> behind_unlock l (co_handler c) (co_pend c t) t" using code y by (cases y) (auto simp: behind_unlock_def)
  then obtain x xs where x: "co_pend c t = x # xs" "lk_now l t = [x]" "set xs \<subseteq> set (lk_pend l t)"
    and alone: "\<And>a. same_fields (held l t) a (co_handler c) \<Longrightarrow>
      alone (y # d) (merge (held l t) (lk_handler l) a) (lk_pend l t) = (fst (run_section x a), snd (run_section x a) @ xs)"
    using view code unfolding atomic_view_def before_unlock_def by metis
  have "held l t \<noteq> {}" using needs needs_some [OF y] by blast
  then have "ys @ d \<noteq> []" using d held by auto
  moreover have "alone (ys @ d) (merge (held l t) h a) (zs @ lk_pend l t) = (fst (run_section x a), snd (run_section x a) @ xs)"
    if "same_fields (held l t) a (co_handler c)" for a
    using alone [OF that] exec_merge [OF run needs, of a] by simp
  ultimately have "before_unlock ?l (co_handler c) (co_pend c t) t"
    using x held unfolding before_unlock_def by simp blast
  then show "before_unlock ?l (co_handler c) (co_pend c t) t \<or> behind_unlock ?l (co_handler c) (co_pend c t) t" ..
  show "lk_code ?l t' = lk_code l t' \<and> lk_now ?l t' = lk_now l t' \<and> lk_pend ?l t' = lk_pend l t' \<and>
      held ?l t' = held l t' \<and> co_pend c t' = co_pend c t' \<and>
      same_fields (held l t') (lk_handler ?l) (lk_handler l) \<and> same_fields (held l t') (co_handler c) (co_handler c)"
    if "t' \<noteq> t" for t'
    using that same held_apart(1) [OF that] held by simp
qed simp_all

lemma works_view:
  assumes "works t l l'" and view: "atomic_view l c"
  shows "atomic_view l' c \<or> (\<exists>c'. conc_step (Section t) c c' \<and> atomic_view l' c')"
  using assms(1)
proof cases
  case (unlock m d)
  have "before_unlock l (co_handler c) (co_pend c t) t \<or> behind_unlock l (co_handler c) (co_pend c t) t"
    using view by (simp add: atomic_view_def)
  then show ?thesis
    using first_unlock_view [OF view unlock(2)] next_unlock_view [OF view unlock(2)] unlock(1) by blast
qed (use view in \<open>simp_all add: enter_view lock_view access_view\<close>)

lemma rest_view: "atomic_view l c \<Longrightarrow> lk_code l t = [] \<Longrightarrow> co_pend c t = lk_pend l t"
  by (auto simp: atomic_view_def before_unlock_def behind_unlock_def dest: spec [of _ t])

lemma busy_view: "atomic_view l c \<Longrightarrow> touched (co_pend c t) \<subseteq> touched (busy l t)"
proof -
  assume "atomic_view l c"
  then have "before_unlock l (co_handler c) (co_pend c t) t \<or> behind_unlock l (co_handler c) (co_pend c t) t"
    by (simp add: atomic_view_def)
  then have "set (co_pend c t) \<subseteq> set (busy l t)"
    by (auto simp: before_unlock_def behind_unlock_def busy_def)
  then show ?thesis by blast
qed

lemma ghost_view: "atomic_view l c \<Longrightarrow> atomic_view (l\<lparr>lk_ghost := g\<rparr>) (c\<lparr>co_ghost := g\<rparr>)"
  by (simp add: atomic_view_def lock_inv_def held_def before_unlock_def behind_unlock_def)

lemma pend_view:
  assumes view: "atomic_view l c" and rest: "lk_code l t = []"
  shows "atomic_view (l\<lparr>lk_pend := (lk_pend l)(t := xs)\<rparr>) (c\<lparr>co_pend := (co_pend c)(t := xs)\<rparr>)" (is "atomic_view ?l ?c")
proof (rule view_step [OF view, of t])
  have held: "held ?l t' = held l t'" for t' by (simp add: held_def)
  show disc: "disciplined (held ?l t) (lk_code ?l t)" using view_disciplined [OF view] by (simp add: held)
  then have "behind_unlock ?l (co_handler ?c) (co_pend ?c t) t"
    using rest by (simp add: behind_unlock_def same_fields_def)
  then show "before_unlock ?l (co_handler ?c) (co_pend ?c t) t \<or> behind_unlock ?l (co_handler ?c) (co_pend ?c t) t" ..
  show "same_fields (unlocked ?l) (lk_handler ?l) (co_handler ?c)" using view by (simp add: atomic_view_def)
qed (simp_all add: held_def)

text \<open>Every state is seen as one of a run of the sections, and one of a quiet run if the addresses are apart.\<close>

definition conc_seen :: "bool \<Rightarrow> conc \<Rightarrow> bool" where
  "conc_seen apart c \<longleftrightarrow> (\<exists>as. conc_run as conc0 c) \<and> (apart \<longrightarrow> conc_reach c)"

lemma conc_run_snoc: "conc_run as c c' \<Longrightarrow> conc_step a c' c'' \<Longrightarrow> conc_run (as @ [a]) c c''"
  by (induction rule: conc_run.induct) (auto intro: conc_run.intros)

lemma conc_seen_step:
  "conc_seen apart c \<Longrightarrow> conc_step a c c' \<Longrightarrow> apart \<longrightarrow> quiet a c \<Longrightarrow> conc_seen apart c'"
  unfolding conc_seen_def using conc_run_snoc conc_reach.step by blast

lemma lock_reach_view: "lock_reach apart l \<Longrightarrow> \<exists>c. conc_seen apart c \<and> atomic_view l c"
proof (induction rule: lock_reach.induct)
  case start
  have "atomic_view locked0 conc0"
    by (simp add: atomic_view_def lock_inv_def held_def behind_unlock_def locked0_def conc0_def)
  moreover have "conc_seen apart conc0" unfolding conc_seen_def using conc_run.stop conc_reach.start by blast
  ultimately show ?case by blast
next
  case (heap l e t)
  then obtain c where c: "conc_seen apart c" "atomic_view l c" by blast
  let ?c = "c\<lparr>co_ghost := ghost_step e (co_ghost c), co_pend := (co_pend c)(t := hook_sections e)\<rparr>"
  have ghost: "co_ghost c = lk_ghost l" using c(2) by (simp add: atomic_view_def)
  have "co_pend c t = []" using rest_view [OF c(2), of t] heap.hyps(3) by simp
  from heap.hyps(2) this have step: "conc_step (Heap t e) c ?c"
    by (rule conc_step.heap) (simp only: ghost heap.hyps(4))
  have "quiet (Heap t e) c" if apart
    unfolding quiet.simps
  proof
    fix t'
    show "event_addrs e \<inter> touched (co_pend c t') = {}" using heap.hyps(5) that busy_view [OF c(2), of t'] by blast
  qed
  then have "conc_seen apart ?c" using conc_seen_step [OF c(1) step] by blast
  moreover have "atomic_view (call_returns t e l) ?c"
    using pend_view [OF ghost_view [OF c(2)], of "ghost_step e (co_ghost c)" t "hook_sections e"] heap.hyps(3) ghost
    by (simp add: call_returns_def)
  ultimately show ?case by blast
next
  case (signal l t sg)
  then obtain c where c: "conc_seen apart c" "atomic_view l c" by blast
  have "conc_seen apart (c\<lparr>co_pend := (co_pend c)(t := signal_sections sg @ co_pend c t)\<rparr>)"
    using signal.hyps(3) rest_view [OF c(2) signal.hyps(2)]
    by (intro conc_seen_step [OF c(1) conc_step.signal]) simp_all
  moreover have "atomic_view (gets_signal t sg l) (c\<lparr>co_pend := (co_pend c)(t := signal_sections sg @ co_pend c t)\<rparr>)"
    using pend_view [OF c(2) signal.hyps(2)] rest_view [OF c(2) signal.hyps(2)] by (simp add: gets_signal_def)
  ultimately show ?case by blast
next
  case (work l t l')
  then obtain c where c: "conc_seen apart c" "atomic_view l c" by blast
  have "apart \<longrightarrow> quiet (Section t) c" by simp
  with works_view [OF work.hyps(2) c(2)] c show ?case by (blast intro: conc_seen_step)
qed

subsection \<open>Every hook returns\<close>

lemma lock_reach_disciplined: "lock_reach apart l \<Longrightarrow> disciplined (held l t) (lk_code l t)"
  using lock_reach_view view_disciplined by blast

text \<open>A thread that waits for a mutex waits for one that can go on, or waits for a higher one.\<close>

lemma waiting_works:
  assumes disc: "\<And>t. disciplined (held l t) (lk_code l t)" and "lk_code l t = Lock m # d"
  shows "\<exists>t'. can_work t' l"
  using assms(2)
proof (induction "3 - lock_rank m" arbitrary: t m d rule: less_induct)
  case less
  show ?case
  proof (cases "lk_owner l m")
    case None
    then have "can_work t l" using less.prems by (simp add: can_work_def)
    then show ?thesis ..
  next
    case (Some t')
    have m: "m \<in> held l t'" using Some by (simp add: held_def)
    then obtain y c where code: "lk_code l t' = y # c"
      using disciplined_nonempty [OF disc [of t']] by (cases "lk_code l t'") auto
    show ?thesis
    proof (cases y rule: guard_cases)
      case (1 k)
      then have "lock_rank m < lock_rank k" using disc [of t'] code m by simp
      moreover have "lock_rank k \<le> 3" by (cases k) simp_all
      ultimately show ?thesis using less.hyps [of k t' c] code 1 by simp
    next
      case (2 k)
      then have "can_work t' l" using code by (simp add: can_work_def)
      then show ?thesis ..
    qed (use can_work_access [OF code] in blast)
  qed
qed

lemma busy_works:
  assumes disc: "\<And>t. disciplined (held l t) (lk_code l t)" and "\<not> at_rest l t"
  shows "\<exists>t'. can_work t' l"
proof (cases "lk_code l t")
  case Nil
  then have "can_work t l" using assms(2) by (simp add: can_work_def)
  then show ?thesis ..
next
  case (Cons y c)
  show ?thesis
  proof (cases y rule: guard_cases)
    case 1
    then show ?thesis using waiting_works [OF disc] Cons by blast
  next
    case 2
    then have "can_work t l" using Cons by (simp add: can_work_def)
    then show ?thesis ..
  qed (use can_work_access [OF Cons] in blast)
qed

text \<open>What a thread has still to do: the sections, those its lookups may add, and the statements.\<close>

fun stmt_later :: "stmt \<Rightarrow> nat" where
  "stmt_later (IsEmpty x) = section_weight x - 1"
| "stmt_later (LowerBound x) = section_weight x - 1"
| "stmt_later (ExactMatch x it) = section_weight x - 1"
| "stmt_later (Previous x it) = section_weight x - 1"
| "stmt_later (Contains x it) = section_weight x - 1"
| "stmt_later x = 0"

definition later :: "locked \<Rightarrow> thread_id \<Rightarrow> nat" where
  "later l t = sum_list (map section_weight (lk_pend l t)) + sum_list (map stmt_later (lk_code l t))"

lemma after_lookup_weight: "sum_list (map section_weight (after_lookup x s)) \<le> section_weight x - 1"
  by (cases x) simp_all

lemma exec_later:
  assumes "exec_stmt x h = (h', ys, zs)"
  shows "sum_list (map section_weight zs) + sum_list (map stmt_later ys) \<le> stmt_later x"
proof -
  have "sum_list (map stmt_later (map (\<lambda>a. InsertFault (addPkey pk a)) chain)) = 0" for pk chain
    by (induction chain) simp_all
  then show ?thesis
    using assms after_lookup_weight by (cases x) (auto split: option.splits if_splits)
qed

lemma statements_later: "sum_list (map stmt_later (statements x)) < section_weight x"
  by (cases x) simp_all

lemma works_later:
  assumes "works t l l'"
  shows "later l' t < later l t \<or> later l' t = later l t \<and>
    (code_finds (lk_code l' t) < code_finds (lk_code l t) \<or>
     code_finds (lk_code l' t) = code_finds (lk_code l t) \<and> code_weight (lk_code l' t) < code_weight (lk_code l t))"
  using assms
proof cases
  case (enter x xs)
  then show ?thesis using statements_later [of x] by (simp add: later_def)
next
  case (access x c h ys zs)
  then show ?thesis using exec_later [OF access(4)] exec_decreases [OF access(4)] by (auto simp: later_def)
qed (simp_all add: later_def)

lemma works_others:
  "works t l l' \<Longrightarrow> t' \<noteq> t \<Longrightarrow> lk_code l' t' = lk_code l t' \<and> lk_now l' t' = lk_now l t' \<and> lk_pend l' t' = lk_pend l t'"
  by (auto elim: worksE)

lemma works_own: "works t l l' \<Longrightarrow> \<not> at_rest l t"
  by (auto elim: worksE)

lemma busy_finite: "lock_reach apart l \<Longrightarrow> finite {t. \<not> at_rest l t}"
proof (induction rule: lock_reach.induct)
  case (work l t l')
  have "{t'. \<not> at_rest l' t'} \<subseteq> insert t {t'. \<not> at_rest l t'}" using works_others [OF work.hyps(2)] by auto
  then show ?case using work.IH finite_subset by blast
next
  case (heap l e t)
  have "{t'. \<not> at_rest (call_returns t e l) t'} \<subseteq> insert t {t'. \<not> at_rest l t'}" by (auto simp: call_returns_def)
  then show ?case using heap.IH finite_subset by blast
next
  case (signal l t sg)
  have "{t'. \<not> at_rest (gets_signal t sg l) t'} \<subseteq> insert t {t'. \<not> at_rest l t'}" by (auto simp: gets_signal_def)
  then show ?case using signal.IH finite_subset by blast
qed (simp add: locked0_def)

text \<open>The sums over the threads that have something to do, compared one after the other.\<close>

lemma sum_at:
  fixes f g :: "'a \<Rightarrow> nat"
  assumes "finite S" and "t \<in> S" and "\<And>t'. t' \<noteq> t \<Longrightarrow> f t' = g t'"
  shows "sum f S < sum g S \<longleftrightarrow> f t < g t" "sum f S = sum g S \<longleftrightarrow> f t = g t"
proof -
  have "sum f (S - {t}) = sum g (S - {t})" using assms(3) by (intro sum.cong) auto
  then show "sum f S < sum g S \<longleftrightarrow> f t < g t" "sum f S = sum g S \<longleftrightarrow> f t = g t"
    using assms(1,2) by (simp_all add: sum.remove [of S t])
qed

definition progress :: "thread_id set \<Rightarrow> (locked \<times> locked) set" where
  "progress S = measures [\<lambda>l. sum (later l) S, \<lambda>l. \<Sum>t\<in>S. code_finds (lk_code l t), \<lambda>l. \<Sum>t\<in>S. code_weight (lk_code l t)]"

lemma works_progress:
  assumes "works t l l'" and "finite S" and "t \<in> S"
  shows "(l', l) \<in> progress S"
proof -
  have "t' \<noteq> t \<Longrightarrow> later l' t' = later l t' \<and> lk_code l' t' = lk_code l t'" for t'
    using works_others [OF assms(1)] by (simp add: later_def)
  then show ?thesis
    using works_later [OF assms(1)] sum_at [OF assms(2,3), of "later l'" "later l"]
      sum_at [OF assms(2,3), of "\<lambda>t. code_finds (lk_code l' t)" "\<lambda>t. code_finds (lk_code l t)"]
      sum_at [OF assms(2,3), of "\<lambda>t. code_weight (lk_code l' t)" "\<lambda>t. code_weight (lk_code l t)"]
    by (simp add: progress_def)
qed

lemma no_endless_run:
  assumes "finite {t. \<not> at_rest (f 0) t}"
  shows "\<exists>i. \<not> (\<exists>t. works t (f i) (f (Suc i)))"
proof (rule ccontr)
  let ?S = "{t. \<not> at_rest (f 0) t}"
  assume "\<not> ?thesis"
  then have run: "\<exists>t. works t (f i) (f (Suc i))" for i by blast
  have sub: "{t. \<not> at_rest (f i) t} \<subseteq> ?S" for i
  proof (induction i)
    case (Suc i)
    obtain t where "works t (f i) (f (Suc i))" using run by blast
    then have "{t. \<not> at_rest (f (Suc i)) t} \<subseteq> {t. \<not> at_rest (f i) t}"
      using works_own works_others by (auto split: if_splits) metis+
    then show ?case using Suc by blast
  qed simp
  have "(f (Suc i), f i) \<in> progress ?S" for i
    using run [of i] works_progress [OF _ assms] works_own sub [of i] by blast
  moreover have "wf (progress ?S)" by (simp add: progress_def)
  ultimately show False unfolding wf_iff_no_infinite_down_chain by blast
qed

subsection \<open>A fault inside a section\<close>

text \<open>The handler of a thread that is interrupted by a fault inside a section runs on top of it.\<close>

definition faults_inside :: "thread_id \<Rightarrow> rust_ptr \<Rightarrow> u32 \<Rightarrow> locked \<Rightarrow> locked" where
  "faults_inside t q pk l = l\<lparr>lk_code := (lk_code l)(t := statements (SFind q pk) @ lk_code l t)\<rparr>"

abbreviation works_on :: "locked \<Rightarrow> locked \<Rightarrow> bool" where
  "works_on \<equiv> rtranclp (\<lambda>l l'. \<exists>t. works t l l')"

lemma works_held:
  assumes "works t l l'" and disc: "disciplined (held l t) (lk_code l t)"
  shows "disciplined (held l' t) (lk_code l' t) \<and> (\<forall>t'. t' \<noteq> t \<longrightarrow> held l' t' = held l t')"
  using assms(1)
proof cases
  case (enter x xs)
  then have "held l t = {}" using disc by simp
  then show ?thesis using enter statements_disciplined by (simp add: held_def)
next
  case (lock m c)
  then have "held l' t = insert m (held l t)" by (auto simp: held_def)
  then show ?thesis using lock disc by (auto simp: held_def)
next
  case (unlock m c)
  then have "m \<in> held l t" using disc by simp
  then show ?thesis using unlock disc unlock_frame by simp
next
  case (access x c h ys zs)
  have "disciplined (held l t) (x # c)" using disc access(2) by simp
  from disciplined_exec [OF this access(3,4)] access(1) show ?thesis by (simp add: held_def)
qed

lemma stuck_inside:
  assumes "works_on l l'" and "lk_code l t = Lock m # d" and "lk_owner l m = Some t"
    and "\<And>t'. t' \<noteq> t \<Longrightarrow> disciplined (held l t') (lk_code l t')"
  shows "lk_code l' t = lk_code l t \<and> lk_owner l' m = Some t \<and> (\<forall>t'. t' \<noteq> t \<longrightarrow> disciplined (held l' t') (lk_code l' t'))"
  using assms(1)
proof (induction rule: rtranclp_induct)
  case (step l1 l2)
  obtain u where u: "works u l1 l2" using step.hyps(2) by blast
  have "u \<noteq> t" using u step.IH assms(2) by (auto simp: works_iff can_work_def)
  then have "disciplined (held l1 u) (lk_code l1 u)" using step.IH by blast
  note frame = works_held [OF u this]
  have "m \<in> held l1 t" using step.IH by (simp add: held_def)
  then have "m \<in> held l2 t" using frame \<open>u \<noteq> t\<close> by metis
  moreover have "disciplined (held l2 t') (lk_code l2 t')" if "t' \<noteq> t" for t'
  proof (cases "t' = u")
    case False
    then have "held l2 t' = held l1 t'" "lk_code l2 t' = lk_code l1 t'" using frame works_others [OF u] by simp_all
    then show ?thesis using step.IH that by simp
  qed (use frame in simp)
  ultimately show ?case using step.IH works_others [OF u] \<open>u \<noteq> t\<close> by (simp add: held_def)
qed (use assms in simp)

text \<open>
  The mutexes are not recursive: such a thread waits in the handler for the mutex it holds, for ever,
  and no other thread gets that mutex again.
\<close>

lemma fault_inside_stuck:
  assumes "lock_reach apart l" and "lk_owner l alloc_map_mx = Some t" and "works_on (faults_inside t q pk l) l'"
  shows "lk_code l' t = statements (SFind q pk) @ lk_code l t \<and> lk_owner l' alloc_map_mx = Some t \<and>
    \<not> can_work t l'"
proof -
  have "disciplined (held (faults_inside t q pk l) t') (lk_code (faults_inside t q pk l) t')" if "t' \<noteq> t" for t'
    using lock_reach_disciplined [OF assms(1), of t'] that by (simp add: faults_inside_def held_def)
  with assms(2) stuck_inside [OF assms(3), of t alloc_map_mx "[IsEmpty (SFind q pk), Unlock alloc_map_mx] @ lk_code l t"]
  show ?thesis by (simp add: faults_inside_def can_work_def)
qed

subsection \<open>What the mutexes guarantee\<close>

text \<open>C21: The mutexes make the sections atomic. Over a conforming allocator, and with signals only at
  threads outside hooks or between two sections of a hook, however the statements of the threads interleave, the state is one
  that a run of the sections, each in one go, leads to: the heap is the same, the fields whose mutexes
  are free are the same, and so is what every thread outside a section has still to do. The
  allocator may hand out addresses that hooks under way are about; if it does not, the run of the
  sections is one in which it does not either, so what is shown of these holds of the statements.\<close>

theorem mutexes_make_atomic:
  assumes "lock_reach apart l"
  shows "\<exists>c. (\<exists>as. conc_run as conc0 c) \<and> (apart \<longrightarrow> conc_reach c) \<and> co_ghost c = lk_ghost l \<and>
    same_fields {m. lk_owner l m = None} (lk_handler l) (co_handler c) \<and>
    (\<forall>t. lk_code l t = [] \<longrightarrow> co_pend c t = lk_pend l t)"
proof -
  obtain c where "conc_seen apart c" "atomic_view l c" using lock_reach_view [OF assms] by blast
  then show ?thesis using rest_view unfolding atomic_view_def conc_seen_def by blast
qed

text \<open>
  Two threads: the first is inside the section that files its block when a call of the second
  returns, which will file its own.
\<close>

definition demo_locked :: locked where
  "demo_locked =
    call_returns 2 (Alloc 0x3000 16 2 ''entry'' ''g'')
      (work_next 1 (work_next 1 (call_returns 1 (Alloc 0x1000 16 0 ''entry'' ''f'') locked0)))"

lemma lock_reach_next: "lock_reach apart l \<Longrightarrow> can_work t l \<Longrightarrow> lock_reach apart (work_next t l)"
  by (rule lock_reach.work) (simp_all add: works_iff)

lemma demo_locked_reach: "lock_reach apart demo_locked"
  unfolding demo_locked_def
  apply (intro lock_reach_next lock_reach.heap lock_reach.start)
  apply (simp_all add: locked0_def call_returns_def can_work_def work_next_def ghost0_def free_range_def the_site_def
      isValid_def busy_def)
  done

theorem mutexes_make_atomic_witness:
  "\<exists>c. conc_reach c \<and> blocks (co_ghost c) 0x3000 = Some (the_site 0x3000 16 2 ''entry'' ''g'' False) \<and>
    fault_set (co_handler c) = [] \<and> co_pend c 2 = [SInsert 0x3000 (the_site 0x3000 16 2 ''entry'' ''g'' False)]"
proof -
  have l: "blocks (lk_ghost demo_locked) 0x3000 = Some (the_site 0x3000 16 2 ''entry'' ''g'' False)"
    "fault_set (lk_handler demo_locked) = []" "lk_owner demo_locked fault_set_mx = None" "lk_code demo_locked 2 = []"
    "lk_pend demo_locked 2 = [SInsert 0x3000 (the_site 0x3000 16 2 ''entry'' ''g'' False)]"
    by (simp_all add: demo_locked_def locked0_def call_returns_def work_next_def ghost0_def AllocSiteHandler_def)
  obtain c where c: "conc_reach c" "co_ghost c = lk_ghost demo_locked"
    "same_fields {m. lk_owner demo_locked m = None} (lk_handler demo_locked) (co_handler c)"
    "\<forall>t. lk_code demo_locked t = [] \<longrightarrow> co_pend c t = lk_pend demo_locked t"
    using mutexes_make_atomic [OF demo_locked_reach [of True]] by blast
  from c(3) have "fault_set (co_handler c) = []" using l(2,3) by (simp add: same_fields_def)
  moreover have "co_pend c 2 = lk_pend demo_locked 2" using c(4) l(4) by blast
  ultimately show ?thesis using c(1,2) l by (intro exI [of _ c]) simp
qed

text \<open>C22: As long as no thread faults inside a section, no hook and no handler blocks for good. Over a
  conforming allocator, whatever addresses it hands out and wherever outside its sections a
  hook is interrupted by a signal: however the threads are scheduled, they cannot go on for ever without a new call or
  signal, and they only come to a halt when every section of every thread is finished and every
  mutex is free. (A thread that faults inside a section of the address map does block for good:
  \<open>fault_inside_stuck\<close>.)\<close>

theorem every_hook_returns:
  assumes "lock_reach apart l"
  shows "(\<forall>f. f 0 = l \<longrightarrow> (\<exists>i. \<not> (\<exists>t. works t (f i) (f (Suc i))))) \<and>
    (\<forall>l'. rtranclp (\<lambda>l l'. \<exists>t. works t l l') l l' \<longrightarrow> (\<nexists>t l''. works t l' l'') \<longrightarrow>
      (\<forall>t. lk_code l' t = [] \<and> lk_pend l' t = []) \<and> lk_owner l' = (\<lambda>_. None))"
proof (intro conjI allI impI)
  fix f :: "nat \<Rightarrow> locked"
  assume "f 0 = l"
  then show "\<exists>i. \<not> (\<exists>t. works t (f i) (f (Suc i)))" using no_endless_run [of f] busy_finite [OF assms] by simp
next
  fix l'
  assume run: "works_on l l'" and halt: "\<nexists>t l''. works t l' l''"
  from run have "lock_reach apart l'" by (induction rule: rtranclp_induct) (auto intro: assms lock_reach.work)
  note disc = lock_reach_disciplined [OF this]
  have rest: "at_rest l' t" for t using busy_works [OF disc] halt works_iff by blast
  then show "lk_code l' t = []" "lk_pend l' t = []" for t by simp_all
  have "held l' t = {}" for t using disc [of t] rest [of t] by simp
  then have "lk_owner l' m \<noteq> Some t" for m t by (auto simp: held_def)
  then show "lk_owner l' = (\<lambda>_. None)" by (intro ext) (metis not_Some_eq)
qed

theorem every_hook_returns_witness:
  "lk_owner (fold work_next [1, 1, 2, 2, 2, 2] demo_locked) = (\<lambda>_. None) \<and>
    (\<nexists>f. f 0 = demo_locked \<and> (\<forall>i. \<exists>t. works t (f i) (f (Suc i))))"
proof -
  have go: "works_on l (work_next t l)" if "can_work t l" for t l using that by (auto simp: works_iff)
  let ?l = "fold work_next [1, 1, 2, 2, 2, 2] demo_locked"
  have can: "can_work 1 demo_locked" "can_work 1 (work_next 1 demo_locked)"
    "can_work 2 (fold work_next [1, 1] demo_locked)" "can_work 2 (fold work_next [1, 1, 2] demo_locked)"
    "can_work 2 (fold work_next [1, 1, 2, 2] demo_locked)" "can_work 2 (fold work_next [1, 1, 2, 2, 2] demo_locked)"
    by (simp_all add: demo_locked_def can_work_def work_next_def call_returns_def locked0_def)
  have "works_on demo_locked ?l"
    using can [THEN go] by (simp only: fold_simps o_apply id_apply)
  moreover have "\<nexists>t l''. works t ?l l''"
    by (simp add: works_iff can_work_def demo_locked_def work_next_def call_returns_def locked0_def)
  ultimately show ?thesis using every_hook_returns [OF demo_locked_reach] by blast
qed

text \<open>C19: So the map is right between the threads: however the statements of hooks and handlers
  interleave, as long as the allocator hands out no address that a hook still under way is about,
  whenever the mutex of the map is free, the map agrees with the heap at every address of no hook under way,
  where a live block is filed under its site and a freed one is not filed at all; and a lookup inside a
  live block finds its site if no hook under way is about an address from the start of the block to the
  address looked up. When every hook has returned, this holds for all addresses.\<close>

theorem threads_map_exact:
  assumes "lock_reach True l" and "lk_owner l alloc_map_mx = None" and "\<And>t. p \<notin> touched (busy l t)"
  shows "map_of (allocation_map (lk_handler l)) p = blocks (lk_ghost l) p \<and>
    (\<forall>s q. blocks (lk_ghost l) p = Some s \<longrightarrow> owns s q \<longrightarrow>
      (\<forall>p' t. p \<le> p' \<longrightarrow> p' \<le> q \<longrightarrow> p' \<notin> touched (busy l t)) \<longrightarrow> getAllocSite q (lk_handler l) = s)"
proof -
  obtain c where c: "conc_reach c" and view: "atomic_view l c"
    using lock_reach_view [OF assms(1)] unfolding conc_seen_def by blast
  have maps: "allocation_map (lk_handler l) = allocation_map (co_handler c)" and ghost: "co_ghost c = lk_ghost l"
    using view assms(2) by (simp_all add: atomic_view_def same_fields_def)
  have "\<forall>t. p \<notin> touched (co_pend c t)" using assms(3) busy_view [OF view] by blast
  note exact = concurrent_map_exact [OF c this]
  have lookup: "getAllocSite q (lk_handler l) = getAllocSite q (co_handler c)" for q
    by (simp add: getAllocSite_def maps)
  have away: "p' \<notin> touched (co_pend c t)" if "p' \<notin> touched (busy l t)" for p' t
    using that busy_view [OF view, of t] by blast
  show ?thesis
  proof (intro conjI allI impI)
    show "map_of (allocation_map (lk_handler l)) p = blocks (lk_ghost l) p"
      using exact [THEN conjunct1] by (simp only: maps ghost)
    fix s q
    assume s: "blocks (lk_ghost l) p = Some s" "owns s q"
      and quiet: "\<forall>p' t. p \<le> p' \<longrightarrow> p' \<le> q \<longrightarrow> p' \<notin> touched (busy l t)"
    have between: "\<forall>p' t. p \<le> p' \<longrightarrow> p' \<le> q \<longrightarrow> p' \<notin> touched (co_pend c t)"
      by (intro allI impI away) (rule quiet [rule_format])
    show "getAllocSite q (lk_handler l) = s"
      unfolding lookup
      by (rule exact [THEN conjunct2, rule_format, OF _ s(2) between [rule_format]]) (simp_all only: ghost s(1))
  qed
qed

theorem threads_map_exact_witness:
  "getAllocSite 0x1008 (lk_handler (fold work_next [1, 1] demo_locked)) = the_site 0x1000 16 0 ''entry'' ''f'' False"
proof -
  let ?l = "fold work_next [1, 1] demo_locked"
  have reach: "lock_reach True ?l"
    unfolding fold_simps
    by (intro lock_reach_next demo_locked_reach)
      (simp_all add: demo_locked_def can_work_def work_next_def call_returns_def locked0_def)
  have free: "lk_owner ?l alloc_map_mx = None"
    and block: "blocks (lk_ghost ?l) 0x1000 = Some (the_site 0x1000 16 0 ''entry'' ''f'' False)"
    and busy: "busy ?l = (\<lambda>_. [])(2 := [SInsert 0x3000 (the_site 0x3000 16 2 ''entry'' ''g'' False)])"
    by (simp_all add: demo_locked_def work_next_def call_returns_def locked0_def ghost0_def busy_def fun_eq_iff)
  have away: "p' \<noteq> 0x3000 \<Longrightarrow> p' \<notin> touched (busy ?l t)" for p' t unfolding busy by (simp add: fun_upd_def)
  then have "0x1000 \<notin> touched (busy ?l t)" for t by simp
  note exact = threads_map_exact [OF reach free this, THEN conjunct2]
  have "p' \<notin> touched (busy ?l t)" if "p' \<le> 0x1008" for p' t
  proof -
    have "p' < 0x3000" using that by (rule order_le_less_trans) simp
    then show ?thesis by (intro away) simp
  qed
  then have between: "\<forall>p' t. 0x1000 \<le> p' \<longrightarrow> p' \<le> 0x1008 \<longrightarrow> p' \<notin> touched (busy ?l t)" by (intro allI impI)
  have own: "owns (the_site 0x1000 16 0 ''entry'' ''f'' False) 0x1008" by (simp add: owns_def)
  show ?thesis by (rule exact [THEN spec, THEN spec, THEN mp, THEN mp, THEN mp, OF block own between])
qed

end
