(* ===== verification/Pre_Pass_Invokes.thy ===== *)
theory Pre_Pass_Invokes
  imports Pre_Pass
begin

section \<open>The pre pass on every kind of call\<close>

text \<open>
  \<open>Pre_Pass\<close> describes the pass exactly where the target calls are plain calls. Here targets may
  also be called by \<open>invoke\<close>, whose hook goes to the normal destination or, over a split edge, to a
  new block, and by \<open>callbr\<close>, which the pass leaves alone. What is shown of the walk: it returns, it
  loses and changes no instruction apart from the labels \<open>SplitEdge\<close> redirects, and it adds
  exactly one hook for every target call or invoke of a visited block.
\<close>

subsection \<open>Instructions up to redirected labels\<close>

fun strip_kind :: "call_kind \<Rightarrow> call_kind" where
  "strip_kind (InvokeInst a b) = InvokeInst 0 0"
| "strip_kind k = k"

fun strip :: "instr \<Rightarrow> instr" where
  "strip (CallBase n k c as) = CallBase n (strip_kind k) c as"
| "strip (OtherInst n xs) = OtherInst n xs"

text \<open>The hook a target call of a block gives rise to; none for a \<open>callbr\<close>.\<close>

fun new_hook :: "pre_targets \<Rightarrow> instr \<Rightarrow> (callee \<times> operand list) multiset" where
  "new_hook ts (CallBase n k c as) =
    (case hook_for ts (CallBase n k c as) of
       None \<Rightarrow> {#}
     | Some (name, xs) \<Rightarrow> if k = CallBrInst then {#} else {#(Func name, xs)#})"
| "new_hook ts (OtherInst n xs) = {#}"

text \<open>The calls among instructions that the pass created.\<close>

fun new_call :: "inst_id \<Rightarrow> instr \<Rightarrow> (callee \<times> operand list) multiset" where
  "new_call N (CallBase n k c as) = (if N \<le> n then {#(c, as)#} else {#})"
| "new_call N (OtherInst n xs) = {#}"

definition new_hooks :: "pre_targets \<Rightarrow> instr list \<Rightarrow> (callee \<times> operand list) multiset" where
  "new_hooks ts is = sum_list (map (new_hook ts) is)"

definition new_calls :: "inst_id \<Rightarrow> instr list \<Rightarrow> (callee \<times> operand list) multiset" where
  "new_calls N is = sum_list (map (new_call N) is)"

lemma hook_for_kind: "hook_for ts (CallBase n k c as) = hook_for ts (CallBase n k' c as)"
  by (cases c) simp_all

lemma called_function_kind: "called_function (CallBase n k c as) = called_function (CallBase n k' c as)"
  by (cases c) simp_all

lemma strip_kind_eq: "strip_kind k = CallBrInst \<longleftrightarrow> k = CallBrInst" "strip_kind k = CallInst \<longleftrightarrow> k = CallInst"
  by (cases k; simp)+

lemma strip_id [simp]: "inst_id (strip i) = inst_id i" "new_call N (strip i) = new_call N i"
  by (cases i; simp)+

lemma strip_target [simp]: "is_target ts (strip i) = is_target ts i"
proof (cases i)
  case (CallBase n k c as)
  then show ?thesis by (cases c) (simp_all add: is_target_def)
qed simp

lemma strip_args [simp]: "enough_args ts (strip i) = enough_args ts i"
  by (cases i) (simp_all add: enough_args_def)

lemma strip_new_hook [simp]: "new_hook ts (strip i) = new_hook ts i"
proof (cases i)
  case (CallBase n k c as)
  then show ?thesis using hook_for_kind [of ts n "strip_kind k" c as k] by (simp add: strip_kind_eq del: hook_for.simps split: option.split)
qed simp

lemma new_hook_other: "\<not> is_target ts i \<Longrightarrow> new_hook ts i = {#}"
proof -
  assume "\<not> is_target ts i"
  then have "hook_for ts i = None" using hook_for_target by blast
  then show ?thesis by (cases i) (simp_all del: hook_for.simps)
qed

lemma strip_target_call:
  "strip i = strip j \<Longrightarrow> is_target ts i \<Longrightarrow> call_kind i = CallInst \<longleftrightarrow> call_kind j = CallInst"
  by (cases i; cases j) (auto simp: is_target_def, (metis strip_kind_eq(2))+)

lemma new_hooks_simps [simp]:
  "new_hooks ts [] = {#}" "new_hooks ts (i # is) = new_hook ts i + new_hooks ts is"
  "new_hooks ts (xs @ ys) = new_hooks ts xs + new_hooks ts ys"
  by (simp_all add: new_hooks_def)

lemma new_calls_simps [simp]:
  "new_calls N [] = {#}" "new_calls N (i # is) = new_call N i + new_calls N is"
  "new_calls N (xs @ ys) = new_calls N xs + new_calls N ys"
  by (simp_all add: new_calls_def)

lemma strip_hooks: "map strip is = map strip js \<Longrightarrow> new_hooks ts is = new_hooks ts js"
proof -
  have "new_hooks ts is = sum_list (map (new_hook ts) (map strip is))" for "is"
    by (simp add: new_hooks_def o_def)
  then show "map strip is = map strip js \<Longrightarrow> new_hooks ts is = new_hooks ts js" by metis
qed

lemma strip_calls: "map strip is = map strip js \<Longrightarrow> new_calls N is = new_calls N js"
proof -
  have "new_calls N is = sum_list (map (new_call N) (map strip is))" for "is"
    by (simp add: new_calls_def o_def)
  then show "map strip is = map strip js \<Longrightarrow> new_calls N is = new_calls N js" by metis
qed

subsection \<open>The function while it is walked\<close>

definition labels :: "func \<Rightarrow> label set" where
  "labels f = bb_label ` set (fn_blocks f)"

lemma finite_labels [simp]: "finite (labels f)"
  by (simp add: labels_def)

text \<open>Labels are unique, blocks are not empty, invokes lead to blocks.\<close>

definition ir_ok :: "func \<Rightarrow> bool" where
  "ir_ok f \<longleftrightarrow>
    distinct (map bb_label (fn_blocks f)) \<and>
    (\<forall>l\<in>labels f. insts_of f l \<noteq> [] \<and>
      (\<forall>n a b c as. CallBase n (InvokeInst a b) c as \<in> set (insts_of f l) \<longrightarrow> a \<in> labels f))"

text \<open>What the pass needs of a block: enough arguments, and no target call at its end.\<close>

definition block_ok :: "pre_targets \<Rightarrow> instr list \<Rightarrow> bool" where
  "block_ok ts is \<longleftrightarrow>
    (\<forall>i\<in>set is. enough_args ts i) \<and> \<not> (is_target ts (last is) \<and> call_kind (last is) = CallInst)"

text \<open>
  A block of the original function has grown: its own instructions are still there, in order, and
  the instructions that came since are no targets. \<open>N\<close> bounds the old identifiers, \<open>n\<close> all of them.
\<close>

definition grown :: "pre_targets \<Rightarrow> inst_id \<Rightarrow> inst_id \<Rightarrow> instr list \<Rightarrow> instr list \<Rightarrow> bool" where
  "grown ts N n is js \<longleftrightarrow>
    map strip (filter (\<lambda>x. inst_id x < N) js) = map strip is \<and>
    distinct (map inst_id js) \<and> block_ok ts js \<and>
    (\<forall>x\<in>set js. inst_id x < n \<and> (N \<le> inst_id x \<longrightarrow> \<not> is_target ts x))"

definition walk_inv :: "pre_targets \<Rightarrow> inst_id \<Rightarrow> inst_id \<Rightarrow> func \<Rightarrow> func \<Rightarrow> bool" where
  "walk_inv ts N n f g \<longleftrightarrow>
    N \<le> n \<and> ir_ok g \<and> fn_name g = fn_name f \<and> labels f \<subseteq> labels g \<and>
    (\<forall>k\<in>labels f. grown ts N n (insts_of f k) (insts_of g k)) \<and>
    (\<forall>k\<in>labels g - labels f. \<forall>x\<in>set (insts_of g k). N \<le> inst_id x)"

definition func_calls :: "inst_id \<Rightarrow> func \<Rightarrow> (callee \<times> operand list) multiset" where
  "func_calls N g = (\<Sum>k\<in>labels g. new_calls N (insts_of g k))"

text \<open>
  What LLVM's edge splitting and insertion points are trusted with: on the edge of an invoke to a
  normal destination with other predecessors, which is critical, the split adds one block of
  new instructions that are no calls, the invokes over the edge lead to the new block, and only labels
  of the block the edge leaves change; a block that is not empty has an insertion point.
\<close>

definition split_ok :: "llvm_api \<Rightarrow> inst_id \<Rightarrow> bool" where
  "split_ok api N \<longleftrightarrow>
    (\<forall>l nd g g' new. ir_ok g \<longrightarrow> l \<in> labels g \<longrightarrow> nd \<in> labels g \<longrightarrow> \<not> single_pred api g nd \<longrightarrow>
      (\<exists>n b c as. CallBase n (InvokeInst nd b) c as \<in> set (insts_of g l)) \<longrightarrow> split_edge api l nd g = (g', new) \<longrightarrow>
      ir_ok g' \<and> fn_name g' = fn_name g \<and> new \<notin> labels g \<and> labels g' = insert new (labels g) \<and>
      (\<forall>k\<in>labels g. map strip (insts_of g' k) = map strip (insts_of g k)) \<and>
      (\<forall>x\<in>set (insts_of g' new). N \<le> inst_id x \<and> (\<exists>n xs. x = OtherInst n xs)) \<and>
      (\<forall>k\<in>labels g - {l}. insts_of g' k = insts_of g k) \<and>
      (\<forall>n a b c as. CallBase n (InvokeInst a b) c as \<in> set (insts_of g l) \<longrightarrow>
        CallBase n (InvokeInst (if a = nd then new else a) b) c as \<in> set (insts_of g' l)))"

definition insertion_ok :: "llvm_api \<Rightarrow> bool" where
  "insertion_ok api \<longleftrightarrow> (\<forall>b. bb_insts b \<noteq> [] \<longrightarrow> first_insertion_pt api b < length (bb_insts b))"

lemma block_of_mem: "block_of g k \<noteq> None \<longleftrightarrow> k \<in> labels g"
  by (auto simp: block_of_def find_None_iff labels_def)

lemma labels_set [simp]: "labels (set_insts k r g) = labels g"
  by (metis labels_def labels_set_insts set_map)

lemma insts_of_set: "k \<in> labels g \<Longrightarrow> insts_of (set_insts k r g) l = (if l = k then r else insts_of g l)"
  using insts_of_set_insts block_of_mem by blast

lemma func_calls_set:
  assumes "k \<in> labels g" and "new_calls N r = new_calls N (insts_of g k) + d"
  shows "func_calls N (set_insts k r g) = func_calls N g + d"
proof -
  have "(\<Sum>l\<in>labels g - {k}. new_calls N (insts_of (set_insts k r g) l)) =
      (\<Sum>l\<in>labels g - {k}. new_calls N (insts_of g l))"
    using assms(1) by (intro sum.cong) (simp_all add: insts_of_set)
  then show ?thesis
    using assms sum.remove [of "labels g" k "\<lambda>l. new_calls N (insts_of (set_insts k r g) l)"]
      sum.remove [of "labels g" k "\<lambda>l. new_calls N (insts_of g l)"]
    by (simp add: func_calls_def insts_of_set union_ac)
qed

lemma block_ok_strip: "map strip is = map strip js \<Longrightarrow> is \<noteq> [] \<Longrightarrow> block_ok ts js \<Longrightarrow> block_ok ts is"
proof -
  assume eq: "map strip is = map strip js" and ne: "is \<noteq> []" and ok: "block_ok ts js"
  have js: "js \<noteq> []" using eq ne by auto
  have "strip (last is) = strip (last js)" using eq ne js by (metis last_map)
  moreover have "\<forall>i\<in>set is. enough_args ts i"
  proof
    fix i assume "i \<in> set is"
    then obtain j where "j \<in> set js" "strip j = strip i" using eq by (metis (mono_tags, lifting) image_iff list.set_map)
    then show "enough_args ts i" using ok by (metis block_ok_def strip_args)
  qed
  ultimately show "block_ok ts is"
    using ok strip_target_call [of "last is" "last js"] by (metis block_ok_def strip_target)
qed

lemma grown_strip:
  assumes "grown ts N n is js" and "map strip js' = map strip js" and "js' \<noteq> []"
  shows "grown ts N n is js'"
proof -
  have f: "map strip (filter (\<lambda>x. inst_id x < N) xs) = filter (\<lambda>x. inst_id x < N) (map strip xs)" for xs
    by (simp add: filter_map o_def)
  have ids: "map inst_id js' = map inst_id js"
    using arg_cong [OF assms(2), of "map inst_id"] by (simp add: o_def)
  have "inst_id x < n \<and> (N \<le> inst_id x \<longrightarrow> \<not> is_target ts x)" if x: "x \<in> set js'" for x
  proof -
    obtain y where "y \<in> set js" "strip y = strip x" using assms(2) x by (metis (mono_tags, lifting) image_iff list.set_map)
    then show ?thesis using assms(1) by (metis grown_def strip_id(1) strip_target)
  qed
  then show ?thesis
    using assms f [of js] f [of js'] ids block_ok_strip unfolding grown_def by metis
qed

lemma grown_insert:
  assumes "grown ts N n is (xs @ ys)" and "ys \<noteq> []" and "N \<le> n" and "inst_id h = n" and "\<not> is_target ts h"
  shows "grown ts N (Suc n) is (xs @ h # ys)"
proof -
  have "enough_args ts h" using assms(5) by (cases h) (auto simp: enough_args_def is_target_def split: callee.splits)
  then have "block_ok ts (xs @ h # ys)" using assms(1,2) by (auto simp: grown_def block_ok_def)
  moreover have "distinct (map inst_id (xs @ h # ys))" using assms(1,4) by (auto simp: grown_def)
  moreover have "\<forall>x\<in>set (xs @ h # ys). inst_id x < Suc n \<and> (N \<le> inst_id x \<longrightarrow> \<not> is_target ts x)"
    using assms by (auto simp: grown_def less_Suc_eq)
  moreover have "map strip (filter (\<lambda>x. inst_id x < N) (xs @ h # ys)) = map strip is"
    using assms by (simp add: grown_def)
  ultimately show ?thesis unfolding grown_def by blast
qed

lemma grown_mono: "grown ts N n is js \<Longrightarrow> n \<le> n' \<Longrightarrow> grown ts N n' is js"
  by (fastforce simp: grown_def)

lemma ir_ok_insert:
  assumes ok: "ir_ok g" and k: "k \<in> labels g" and eq: "insts_of g k = xs @ ys" and h: "h = CallBase m CallInst c as"
  shows "ir_ok (set_insts k (xs @ h # ys) g)"
  unfolding ir_ok_def labels_set labels_set_insts
proof (intro conjI ballI allI impI)
  show "distinct (map bb_label (fn_blocks g))" using ok by (simp add: ir_ok_def)
  fix l assume l: "l \<in> labels g"
  show "insts_of (set_insts k (xs @ h # ys) g) l \<noteq> []" using ok k l by (simp add: ir_ok_def insts_of_set)
  fix n a b c as
  assume "CallBase n (InvokeInst a b) c as \<in> set (insts_of (set_insts k (xs @ h # ys) g) l)"
  then have "CallBase n (InvokeInst a b) c as \<in> set (insts_of g l)"
    using k eq h by (auto simp: insts_of_set split: if_splits)
  then show "a \<in> labels g" using ok l unfolding ir_ok_def by blast
qed

text \<open>Inserting a new hook anywhere but at the end of a block.\<close>

lemma walk_inv_insert:
  assumes inv: "walk_inv ts N n f g" and k: "k \<in> labels g" and eq: "insts_of g k = xs @ ys" and ys: "ys \<noteq> []"
    and h: "h = CallBase n CallInst c as" and new: "\<not> is_target ts h"
  shows "walk_inv ts N (Suc n) f (set_insts k (xs @ h # ys) g)"
    "func_calls N (set_insts k (xs @ h # ys) g) = func_calls N g + {#(c, as)#}"
proof -
  have N: "N \<le> n" using inv by (simp add: walk_inv_def)
  have "grown ts N (Suc n) (insts_of f l) (insts_of (set_insts k (xs @ h # ys) g) l)" if l: "l \<in> labels f" for l
  proof -
    have old: "grown ts N n (insts_of f l) (insts_of g l)" using inv l by (simp add: walk_inv_def)
    show ?thesis
    proof (cases "l = k")
      case True
      then show ?thesis using old grown_insert [of ts N n "insts_of f l" xs ys h] k eq ys h new N by (simp add: insts_of_set)
    next
      case False
      then show ?thesis using old k grown_mono [of ts N n _ _ "Suc n"] by (simp add: insts_of_set)
    qed
  qed
  moreover have "\<forall>l\<in>labels g - labels f. \<forall>x\<in>set (insts_of (set_insts k (xs @ h # ys) g) l). N \<le> inst_id x"
  proof (intro ballI)
    fix l x assume l: "l \<in> labels g - labels f" and x: "x \<in> set (insts_of (set_insts k (xs @ h # ys) g) l)"
    then have "x = h \<or> x \<in> set (insts_of g l)" using k eq by (auto simp: insts_of_set split: if_splits)
    then show "N \<le> inst_id x" using inv l h N by (auto simp: walk_inv_def)
  qed
  moreover have "ir_ok (set_insts k (xs @ h # ys) g)"
    using inv k eq h by (intro ir_ok_insert) (simp_all add: walk_inv_def)
  ultimately show "walk_inv ts N (Suc n) f (set_insts k (xs @ h # ys) g)"
    using inv unfolding walk_inv_def by (simp add: le_SucI)
  show "func_calls N (set_insts k (xs @ h # ys) g) = func_calls N g + {#(c, as)#}"
    using k eq h N by (intro func_calls_set) simp_all
qed

text \<open>Splitting an edge.\<close>

lemma walk_inv_split:
  assumes api: "split_ok api N" and inv: "walk_inv ts N n f g" and l: "l \<in> labels g" and nd: "nd \<in> labels g"
    and critical: "\<not> single_pred api g nd" "CallBase m (InvokeInst nd u) f0 xs0 \<in> set (insts_of g l)"
    and split: "split_edge api l nd g = (g', new)"
  shows "walk_inv ts N n f g'" "func_calls N g' = func_calls N g" "new \<in> labels g'" "insts_of g' new \<noteq> []"
    "map strip (insts_of g' l) = map strip (insts_of g l)" "new \<notin> labels g" "labels g \<subseteq> labels g'"
    "\<And>k. k \<in> labels g \<Longrightarrow> map strip (insts_of g' k) = map strip (insts_of g k)"
    "\<And>k. k \<in> labels g \<Longrightarrow> k \<noteq> l \<Longrightarrow> insts_of g' k = insts_of g k"
    "\<And>n a b c as. CallBase n (InvokeInst a b) c as \<in> set (insts_of g l) \<Longrightarrow>
      CallBase n (InvokeInst (if a = nd then new else a) b) c as \<in> set (insts_of g' l)"
proof -
  have "ir_ok g" using inv by (simp add: walk_inv_def)
  moreover have "\<exists>n b c as. CallBase n (InvokeInst nd b) c as \<in> set (insts_of g l)" using critical(2) by blast
  ultimately have g': "ir_ok g'" "fn_name g' = fn_name g" "new \<notin> labels g" "labels g' = insert new (labels g)"
    "\<And>k. k \<in> labels g \<Longrightarrow> map strip (insts_of g' k) = map strip (insts_of g k)"
    "\<And>x. x \<in> set (insts_of g' new) \<Longrightarrow> N \<le> inst_id x \<and> (\<exists>n xs. x = OtherInst n xs)"
    "\<And>k. k \<in> labels g \<Longrightarrow> k \<noteq> l \<Longrightarrow> insts_of g' k = insts_of g k"
    "\<And>n a b c as. CallBase n (InvokeInst a b) c as \<in> set (insts_of g l) \<Longrightarrow>
      CallBase n (InvokeInst (if a = nd then new else a) b) c as \<in> set (insts_of g' l)"
    using api l nd critical(1) split unfolding split_ok_def by blast+
  show "map strip (insts_of g' k) = map strip (insts_of g k)" if "k \<in> labels g" for k by (rule g'(5) [OF that])
  show "insts_of g' k = insts_of g k" if "k \<in> labels g" "k \<noteq> l" for k by (rule g'(7) [OF that])
  show "CallBase n (InvokeInst (if a = nd then new else a) b) c as \<in> set (insts_of g' l)"
    if "CallBase n (InvokeInst a b) c as \<in> set (insts_of g l)" for n a b c as by (rule g'(8) [OF that])
  show "new \<in> labels g'" "new \<notin> labels g" "labels g \<subseteq> labels g'"
    "map strip (insts_of g' l) = map strip (insts_of g l)" using g' l by auto
  show "insts_of g' new \<noteq> []" using g'(1,4) by (auto simp: ir_ok_def)
  have ne: "insts_of g' k \<noteq> []" if "k \<in> labels g" for k using g'(1,4) that by (auto simp: ir_ok_def)
  have "grown ts N n (insts_of f k) (insts_of g' k)" if "k \<in> labels f" for k
  proof -
    have "k \<in> labels g" "grown ts N n (insts_of f k) (insts_of g k)" using inv that by (auto simp: walk_inv_def)
    then show ?thesis using grown_strip g'(5) ne by blast
  qed
  moreover have "N \<le> inst_id x" if k: "k \<in> labels g' - labels f" and x: "x \<in> set (insts_of g' k)" for k x
  proof (cases "k = new")
    case False
    then have k: "k \<in> labels g - labels f" using k g'(4) by auto
    then obtain y where "y \<in> set (insts_of g k)" "strip y = strip x"
      using g'(5) x by (metis (mono_tags, lifting) DiffD1 image_iff list.set_map)
    then show ?thesis using inv k by (metis strip_id(1) walk_inv_def)
  qed (use g'(6) x in blast)
  ultimately show "walk_inv ts N n f g'"
    using inv g' unfolding walk_inv_def by auto
  have "new_calls N xs = {#}" if "\<forall>x\<in>set xs. \<exists>n ys. x = OtherInst n ys" for xs
    using that by (induction xs) auto
  then have "new_calls N (insts_of g' new) = {#}" using g'(6) by blast
  then show "func_calls N g' = func_calls N g"
  proof -
    have "(\<Sum>k\<in>labels g. new_calls N (insts_of g' k)) = (\<Sum>k\<in>labels g. new_calls N (insts_of g k))"
      by (intro sum.cong refl strip_calls g'(5))
    with \<open>new_calls N (insts_of g' new) = {#}\<close> show ?thesis using g'(3,4) by (simp add: func_calls_def)
  qed
qed

subsection \<open>Hooks on the edge of an invoke\<close>

text \<open>
  The result of an invoke exists on its normal edge only, so that is where its hook has to be: in the
  normal destination of the invoke \<open>n\<close> of block \<open>l\<close> there is a new call of hook \<open>h\<close>.
\<close>

fun is_invoke :: "instr \<Rightarrow> bool" where
  "is_invoke (CallBase n (InvokeInst a b) c as) = True"
| "is_invoke i = False"

definition invokes :: "pre_targets \<Rightarrow> instr list \<Rightarrow> instr list" where
  "invokes ts is = filter (\<lambda>i. is_target ts i \<and> is_invoke i) is"

fun is_hook_call :: "inst_id \<Rightarrow> string \<times> operand list \<Rightarrow> instr \<Rightarrow> bool" where
  "is_hook_call N h (CallBase m CallInst c as) = (N \<le> m \<and> c = Func (fst h) \<and> as = snd h)"
| "is_hook_call N h i = False"

fun leads_to_hook :: "inst_id \<Rightarrow> func \<Rightarrow> inst_id \<Rightarrow> string \<times> operand list \<Rightarrow> instr \<Rightarrow> bool" where
  "leads_to_hook N g n h (CallBase m (InvokeInst a b) c as) = (m = n \<and> list_ex (is_hook_call N h) (insts_of g a))"
| "leads_to_hook N g n h i = False"

definition on_edge :: "inst_id \<Rightarrow> func \<Rightarrow> label \<Rightarrow> inst_id \<Rightarrow> string \<times> operand list \<Rightarrow> bool" where
  "on_edge N g l n h \<longleftrightarrow> list_ex (leads_to_hook N g n h) (insts_of g l)"

lemma is_hook_call_iff: "is_hook_call N h j \<longleftrightarrow> (\<exists>m. N \<le> m \<and> j = CallBase m CallInst (Func (fst h)) (snd h))"
  by (cases "(N, h, j)" rule: is_hook_call.cases) auto

lemma is_invoke_iff: "is_invoke i \<longleftrightarrow> (\<exists>n a b c as. i = CallBase n (InvokeInst a b) c as)"
  by (cases i rule: is_invoke.cases) auto

lemma leads_to_hook_iff:
  "leads_to_hook N g n h i \<longleftrightarrow>
    (\<exists>a b c as m. i = CallBase n (InvokeInst a b) c as \<and> N \<le> m \<and>
      CallBase m CallInst (Func (fst h)) (snd h) \<in> set (insts_of g a))"
  by (cases "(N, g, n, h, i)" rule: leads_to_hook.cases) (auto simp: list_ex_iff is_hook_call_iff)

lemma on_edge_iff:
  "on_edge N g l n h \<longleftrightarrow>
    (\<exists>a b c as m. CallBase n (InvokeInst a b) c as \<in> set (insts_of g l) \<and> N \<le> m \<and>
      CallBase m CallInst (Func (fst h)) (snd h) \<in> set (insts_of g a))"
  unfolding on_edge_def list_ex_iff leads_to_hook_iff by blast

lemma on_edgeI:
  "CallBase n (InvokeInst a b) c as \<in> set (insts_of g l) \<Longrightarrow> N \<le> m \<Longrightarrow>
    CallBase m CallInst (Func name) xs \<in> set (insts_of g a) \<Longrightarrow> on_edge N g l n (name, xs)"
  unfolding on_edge_iff fst_conv snd_conv by blast

lemma strip_invoke [simp]: "is_invoke (strip i) = is_invoke i"
  by (cases i rule: is_invoke.cases) simp_all

lemma strip_hook_for [simp]: "hook_for ts (strip i) = hook_for ts i"
  by (cases i) (simp_all add: hook_for_kind del: hook_for.simps)

lemma strip_plain: "strip i = CallBase m CallInst c as \<longleftrightarrow> i = CallBase m CallInst c as"
  by (cases i) (auto simp: strip_kind_eq)

lemma invokes_simps [simp]:
  "invokes ts [] = []"
  "invokes ts (i # is) = (if is_target ts i \<and> is_invoke i then i # invokes ts is else invokes ts is)"
  "invokes ts (xs @ ys) = invokes ts xs @ invokes ts ys"
  by (simp_all add: invokes_def)

lemma strip_invokes: "map strip is = map strip js \<Longrightarrow> map strip (invokes ts is) = map strip (invokes ts js)"
proof -
  have "map strip (invokes ts xs) = filter (\<lambda>i. is_target ts i \<and> is_invoke i) (map strip xs)" for xs
    by (simp add: invokes_def filter_map o_def)
  then show "map strip is = map strip js \<Longrightarrow> map strip (invokes ts is) = map strip (invokes ts js)" by metis
qed

lemma grown_invokes: "grown ts N n is js \<Longrightarrow> map strip (invokes ts js) = map strip (invokes ts is)"
proof -
  assume g: "grown ts N n is js"
  then have "\<forall>x\<in>set js. N \<le> inst_id x \<longrightarrow> \<not> is_target ts x" by (auto simp: grown_def)
  then have "invokes ts js = invokes ts (filter (\<lambda>x. inst_id x < N) js)"
    unfolding invokes_def filter_filter by (intro filter_cong refl) force
  moreover have "map strip (invokes ts (filter (\<lambda>x. inst_id x < N) js)) = map strip (invokes ts is)"
    using g by (intro strip_invokes) (simp add: grown_def)
  ultimately show "map strip (invokes ts js) = map strip (invokes ts is)" by simp
qed

text \<open>A function that only gained instructions, or had an edge of another block split, keeps them.\<close>

lemma on_edge_grow:
  assumes "\<And>k. set (insts_of g k) \<subseteq> set (insts_of g' k)" and "on_edge N g l n h"
  shows "on_edge N g' l n h"
proof -
  obtain a b c as m where "CallBase n (InvokeInst a b) c as \<in> set (insts_of g l)" "N \<le> m"
    "CallBase m CallInst (Func (fst h)) (snd h) \<in> set (insts_of g a)"
    using assms(2) unfolding on_edge_iff by blast
  with assms(1) have "CallBase n (InvokeInst a b) c as \<in> set (insts_of g' l)"
    "CallBase m CallInst (Func (fst h)) (snd h) \<in> set (insts_of g' a)" by (meson subsetD)+
  with \<open>N \<le> m\<close> show ?thesis unfolding on_edge_iff by blast
qed

lemma on_edge_insert:
  assumes "k \<in> labels g" and "insts_of g k = xs @ ys" and "on_edge N g l n h"
  shows "on_edge N (set_insts k (xs @ i # ys) g) l n h"
  using assms by (intro on_edge_grow [OF _ assms(3)]) (auto simp: insts_of_set)

lemma on_edge_split:
  assumes "ir_ok g" and k: "k \<in> labels g"
    and strip: "\<And>k. k \<in> labels g \<Longrightarrow> map strip (insts_of g' k) = map strip (insts_of g k)"
    and same: "insts_of g' k = insts_of g k" and edge: "on_edge N g k n h"
  shows "on_edge N g' k n h"
proof -
  obtain a b c as m where i: "CallBase n (InvokeInst a b) c as \<in> set (insts_of g k)" and "N \<le> m"
    and h: "CallBase m CallInst (Func (fst h)) (snd h) \<in> set (insts_of g a)"
    using edge unfolding on_edge_iff by blast
  have "a \<in> labels g" using assms(1) k i unfolding ir_ok_def by blast
  then have "strip (CallBase m CallInst (Func (fst h)) (snd h)) \<in> strip ` set (insts_of g' a)"
    using strip h by (metis image_eqI list.set_map)
  then have "CallBase m CallInst (Func (fst h)) (snd h) \<in> set (insts_of g' a)"
    by (metis imageE strip.simps(1) strip_kind.simps(2) strip_plain)
  then show ?thesis using i same \<open>N \<le> m\<close> unfolding on_edge_iff by metis
qed

text \<open>What the walk of the rest \<open>r\<close> of block \<open>l\<close> does for the edges.\<close>

definition edges_hooked :: "pre_targets \<Rightarrow> inst_id \<Rightarrow> label \<Rightarrow> instr list \<Rightarrow> func \<Rightarrow> func \<Rightarrow> bool" where
  "edges_hooked ts N l r g g' \<longleftrightarrow>
    labels g \<subseteq> labels g' \<and>
    (\<forall>k\<in>labels g. k \<noteq> l \<or> invokes ts r = [] \<longrightarrow> (\<forall>n h. on_edge N g k n h \<longrightarrow> on_edge N g' k n h)) \<and>
    (length (invokes ts r) \<le> 1 \<longrightarrow>
      (\<forall>x\<in>set (invokes ts r). \<exists>h. hook_for ts x = Some h \<and> on_edge N g' l (inst_id x) h))"

lemma edges_hooked_refl: "invokes ts r = [] \<Longrightarrow> edges_hooked ts N l r g g"
  by (simp add: edges_hooked_def)

lemma edges_hooked_skip: "\<not> is_target ts i \<Longrightarrow> edges_hooked ts N l (i # s) g g' = edges_hooked ts N l s g g'"
  by (simp add: edges_hooked_def)

lemma edges_hooked_insert:
  assumes l: "l \<in> labels g" and k: "k \<in> labels g" and eq: "insts_of g k = xs @ ys" and n: "N \<le> n"
    and hook: "hook_for ts i = Some (name, as)"
    and edge: "is_invoke i \<Longrightarrow> \<exists>b c' as'. CallBase (inst_id i) (InvokeInst k b) c' as' \<in> set (insts_of g l)"
  shows "edges_hooked ts N l [i] g (set_insts k (xs @ CallBase n CallInst (Func name) as # ys) g)"
    (is "edges_hooked ts N l [i] g ?g")
  unfolding edges_hooked_def
proof (intro conjI ballI impI allI)
  show "labels g \<subseteq> labels ?g" by simp
  show "on_edge N g j m h \<Longrightarrow> on_edge N ?g j m h" for j m h by (rule on_edge_insert [OF k eq])
  fix x assume "x \<in> set (invokes ts [i])"
  then have x: "x = i" "is_invoke i" by (simp_all split: if_splits)
  obtain b c' as' where "CallBase (inst_id i) (InvokeInst k b) c' as' \<in> set (insts_of g l)" using edge x(2) by blast
  then have "CallBase (inst_id i) (InvokeInst k b) c' as' \<in> set (insts_of ?g l)" using k eq by (auto simp: insts_of_set)
  moreover have "CallBase n CallInst (Func name) as \<in> set (insts_of ?g k)" using k by (simp add: insts_of_set)
  ultimately have "on_edge N ?g l (inst_id i) (name, as)" using n by (intro on_edgeI)
  then show "\<exists>h. hook_for ts x = Some h \<and> on_edge N ?g l (inst_id x) h" using hook x(1) by blast
qed

lemma edges_hooked_split:
  assumes "\<And>k n h. k \<in> labels g \<Longrightarrow> k \<noteq> l \<Longrightarrow> on_edge N g k n h \<Longrightarrow> on_edge N g1 k n h" and "labels g \<subseteq> labels g1"
    and "invokes ts r \<noteq> []" and "edges_hooked ts N l r g1 g'"
  shows "edges_hooked ts N l r g g'"
  using assms unfolding edges_hooked_def by blast

lemma edges_hooked_step:
  assumes one: "edges_hooked ts N l [i] g g1" and rest: "edges_hooked ts N l s' g1 g'"
    and eq: "map strip (invokes ts s') = map strip (invokes ts s)" and "l \<in> labels g"
  shows "edges_hooked ts N l (i # s) g g'"
  unfolding edges_hooked_def
proof (intro conjI ballI impI allI)
  have l: "l \<in> labels g" "labels g \<subseteq> labels g1" using one assms(4) by (simp_all add: edges_hooked_def)
  then show "labels g \<subseteq> labels g'" using rest unfolding edges_hooked_def by blast
  have nil: "invokes ts s' = [] \<longleftrightarrow> invokes ts s = []" and len: "length (invokes ts s') = length (invokes ts s)"
    using eq by (metis list.map_disc_iff, metis length_map)
  show "on_edge N g' k n h" if "k \<in> labels g" "k \<noteq> l \<or> invokes ts (i # s) = []" "on_edge N g k n h" for k n h
  proof -
    have "k \<noteq> l \<or> invokes ts [i] = []" using that(2) by auto
    then have "on_edge N g1 k n h" using one that unfolding edges_hooked_def by blast
    moreover have "k \<noteq> l \<or> invokes ts s' = []" using that(2) nil by (auto split: if_splits)
    moreover have "k \<in> labels g1" using that(1) l by blast
    ultimately show ?thesis using rest unfolding edges_hooked_def by blast
  qed
  show "\<exists>h. hook_for ts x = Some h \<and> on_edge N g' l (inst_id x) h"
    if few: "length (invokes ts (i # s)) \<le> 1" and x: "x \<in> set (invokes ts (i # s))" for x
  proof (cases "is_target ts i \<and> is_invoke i")
    case True
    then have "x = i" "invokes ts s' = []" using few x nil by (auto split: if_splits)
    moreover obtain h where "hook_for ts i = Some h" "on_edge N g1 l (inst_id i) h"
      using one True unfolding edges_hooked_def by auto
    moreover have "l \<in> labels g1" using l by blast
    ultimately show ?thesis using rest unfolding edges_hooked_def by metis
  next
    case False
    then have x: "x \<in> set (invokes ts s)" and "length (invokes ts s') \<le> 1" using few x len by auto
    obtain y where y: "y \<in> set (invokes ts s')" "strip y = strip x"
      using eq x by (metis (mono_tags, lifting) image_iff list.set_map)
    then obtain h where "hook_for ts y = Some h" "on_edge N g' l (inst_id y) h"
      using rest \<open>length (invokes ts s') \<le> 1\<close> unfolding edges_hooked_def by blast
    then show ?thesis using y(2) by (metis strip_hook_for strip_id(1))
  qed
qed

subsection \<open>One step of the walk\<close>

text \<open>Hooks stay ahead of the walk at most once: the weight of what is left goes down.\<close>

definition weight :: "pre_targets \<Rightarrow> instr list \<Rightarrow> nat" where
  "weight ts is = sum_list (map (\<lambda>i. if is_target ts i then 2 else 1) is)"

lemma weight_simps [simp]:
  "weight ts [] = 0" "weight ts (i # is) = (if is_target ts i then 2 else 1) + weight ts is"
  "weight ts (xs @ ys) = weight ts xs + weight ts ys"
  by (simp_all add: weight_def)

lemma strip_weight: "map strip is = map strip js \<Longrightarrow> weight ts is = weight ts js"
proof -
  have "weight ts is = sum_list (map (\<lambda>i. if is_target ts i then 2 else 1) (map strip is))" for "is"
    by (simp add: weight_def o_def)
  then show "map strip is = map strip js \<Longrightarrow> weight ts is = weight ts js" by metis
qed

lemma strip_split:
  assumes "map strip js = map strip (pre @ i # s)"
  obtains pre' i' s' where "js = pre' @ i' # s'" "strip i' = strip i" "map strip s' = map strip s"
  using assms by (auto simp: map_eq_append_conv map_eq_Cons_conv)

lemma insert_around:
  assumes "\<not> is_target ts h"
  obtains pre' s' where "take p (pre @ i # s) @ h # drop p (pre @ i # s) = pre' @ i # s'"
    "weight ts s' \<le> Suc (weight ts s)" "new_hooks ts s' = new_hooks ts s" "invokes ts s' = invokes ts s"
proof (cases "p \<le> length pre")
  case True
  then have "take p (pre @ i # s) @ h # drop p (pre @ i # s) = (take p pre @ h # drop p pre) @ i # s" by simp
  then show ?thesis by (rule that) simp_all
next
  case False
  define q where "q = p - Suc (length pre)"
  have "p = Suc (length pre + q)" using False q_def by simp
  then have eq: "take p (pre @ i # s) @ h # drop p (pre @ i # s) = pre @ i # (take q s @ h # drop q s)" by simp
  have "weight ts s = weight ts (take q s) + weight ts (drop q s)"
    "new_hooks ts s = new_hooks ts (take q s) + new_hooks ts (drop q s)"
    "invokes ts s = invokes ts (take q s) @ invokes ts (drop q s)"
    by (metis append_take_drop_id weight_simps(3), metis append_take_drop_id new_hooks_simps(3),
        metis append_take_drop_id invokes_simps(3))
  then show ?thesis using assms by (intro that [OF eq]) (simp_all add: new_hook_other)
qed

lemma next_of_grown:
  "grown ts N n is (pre @ i # s) \<Longrightarrow> next_after (inst_id i) (pre @ i # s) = first_inst s"
  by (rule next_after_split) (auto simp: grown_def)

lemma getHookInst_count: "getHookInst ts i ps = Inr (h, ps') \<Longrightarrow> hook_count ps' = hook_count ps"
  by (cases "(ts, i, ps)" rule: getHookInst.cases)
     (auto simp: Let_def and_then_eq_Inr create_call_def split: if_splits)

lemma target_step:
  assumes target: "is_target ts i" and args: "enough_args ts i" and "no_hook_target ts"
  obtains h ps1 name xs m k c as where "getHookInst ts i ps = Inr (Some h, ps1)" "i = CallBase m k c as"
    "h = CallBase (next_id ps) CallInst (Func name) xs" "\<not> is_target ts h" "next_id ps1 = Suc (next_id ps)"
    "hook_count ps1 = hook_count ps" "new_hook ts i = (if k = CallBrInst then {#} else {#(Func name, xs)#})"
    "hook_for ts i = Some (name, xs)"
proof -
  obtain h' ps1 where g: "getHookInst ts i ps = Inr (h', ps1)" using getHookInst_enough [OF args] by blast
  have "hook_for ts i \<noteq> None" using target hook_for_target by blast
  then obtain h where h: "h' = Some h" using getHookInst_None [of ts i ps ps1] g by (cases h') auto
  obtain m k c as where i: "i = CallBase m k c as" using target by (cases i) (auto simp: is_target_def)
  obtain name xs where "hook_for ts i = Some (name, xs)" "h = CallBase (next_id ps) CallInst (Func name) xs"
    "name \<in> set [''allocHook'', ''reallocHook'', ''deallocHook'']" "next_id ps1 = Suc (next_id ps)"
    using getHookInst_Some g h by blast
  moreover have "hook_count ps1 = hook_count ps" by (rule getHookInst_count [OF g])
  ultimately show ?thesis
    using that [OF _ i] g h i hook_not_target [OF assms(3), of name] by (simp del: hook_for.simps)
qed

text \<open>What a step leaves of the block that is walked.\<close>

definition step_rest ::
    "pre_targets \<Rightarrow> inst_id \<Rightarrow> inst_id \<Rightarrow> func \<Rightarrow> label \<Rightarrow> instr \<Rightarrow> instr list \<Rightarrow> func \<Rightarrow> bool" where
  "step_rest ts N n f l i s g' \<longleftrightarrow>
    walk_inv ts N n f g' \<and>
    (\<exists>pre' i' s'. insts_of g' l = pre' @ i' # s' \<and> inst_id i' = inst_id i \<and>
      weight ts s' < weight ts (i # s) \<and> new_hooks ts s' = new_hooks ts s \<and>
      map strip (invokes ts s') = map strip (invokes ts s))"

lemma step_insert:
  assumes inv: "walk_inv ts N n f g" and l: "l \<in> labels f" and eq: "insts_of g l = pre @ i # s"
    and k: "k \<in> labels g" and p: "p < length (insts_of g k)" and "is_target ts i"
    and h: "h = CallBase n CallInst c as" and new: "\<not> is_target ts h"
  shows "step_rest ts N (Suc n) f l i s (set_insts k (take p (insts_of g k) @ h # drop p (insts_of g k)) g)"
    "func_calls N (set_insts k (take p (insts_of g k) @ h # drop p (insts_of g k)) g) = func_calls N g + {#(c, as)#}"
proof -
  let ?g = "set_insts k (take p (insts_of g k) @ h # drop p (insts_of g k)) g"
  have "drop p (insts_of g k) \<noteq> []" "insts_of g k = take p (insts_of g k) @ drop p (insts_of g k)" using p by simp_all
  note ins = walk_inv_insert [OF inv k this(2) this(1) h new]
  show "func_calls N ?g = func_calls N g + {#(c, as)#}" by (rule ins(2))
  have "\<exists>pre' s'. insts_of ?g l = pre' @ i # s' \<and> weight ts s' \<le> Suc (weight ts s) \<and> new_hooks ts s' = new_hooks ts s \<and>
    invokes ts s' = invokes ts s"
  proof (cases "k = l")
    case True
    obtain pre' s' where "take p (pre @ i # s) @ h # drop p (pre @ i # s) = pre' @ i # s'"
      "weight ts s' \<le> Suc (weight ts s)" "new_hooks ts s' = new_hooks ts s" "invokes ts s' = invokes ts s"
      using new by (rule insert_around)
    then show ?thesis using True eq k by (auto simp: insts_of_set)
  next
    case False
    then have "insts_of ?g l = pre @ i # s" using eq k by (simp add: insts_of_set)
    then show ?thesis by (intro exI [of _ pre] exI [of _ s]) simp
  qed
  then show "step_rest ts N (Suc n) f l i s ?g"
    using ins(1) assms(6) unfolding step_rest_def by fastforce
qed

text \<open>What a step has done for a target.\<close>

definition step_done ::
    "pre_targets \<Rightarrow> inst_id \<Rightarrow> func \<Rightarrow> label \<Rightarrow> instr \<Rightarrow> instr list \<Rightarrow> func \<Rightarrow> pre_state
      \<Rightarrow> pass_error + func \<times> pre_state \<Rightarrow> bool" where
  "step_done ts N f l i s g ps r \<longleftrightarrow>
    (\<exists>g' ps'. r = Inr (g', ps') \<and> next_id ps \<le> next_id ps' \<and>
      step_rest ts N (next_id ps') f l i s g' \<and> func_calls N g' = func_calls N g + new_hook ts i \<and>
      hook_count ps' = hook_count ps + of_nat (size (new_hook ts i)) \<and> edges_hooked ts N l [i] g g')"

lemma done_insert:
  assumes inv: "walk_inv ts N (next_id ps) f g" and l: "l \<in> labels f" and eq: "insts_of g l = pre @ i # s"
    and k: "k \<in> labels g" and p: "p < length (insts_of g k)" and target: "is_target ts i"
    and h: "h = CallBase (next_id ps) CallInst (Func name) xs" "\<not> is_target ts h"
    and nh: "hook_for ts i = Some (name, xs)" "new_hook ts i = {#(Func name, xs)#}"
    and ps': "next_id ps' = Suc (next_id ps)" "hook_count ps' = hook_count ps + 1"
    and edge: "is_invoke i \<Longrightarrow> \<exists>b c' as'. CallBase (inst_id i) (InvokeInst k b) c' as' \<in> set (insts_of g l)"
  shows "step_done ts N f l i s g ps (Inr (set_insts k (take p (insts_of g k) @ h # drop p (insts_of g k)) g, ps'))"
proof -
  have "N \<le> next_id ps" "l \<in> labels g" using inv l by (auto simp: walk_inv_def)
  then have "edges_hooked ts N l [i] g (set_insts k (take p (insts_of g k) @ h # drop p (insts_of g k)) g)"
    unfolding h(1) by (intro edges_hooked_insert [OF _ k _ _ nh(1) edge]) simp_all
  with step_insert [OF inv l eq k p target h] show ?thesis
    by (simp add: step_done_def nh(2) ps')
qed

lemma done_split:
  assumes api: "split_ok api N" and inv: "walk_inv ts N n f g" and l: "l \<in> labels g" and nd: "nd \<in> labels g"
    and critical: "\<not> single_pred api g nd" "CallBase m (InvokeInst nd u) f0 xs0 \<in> set (insts_of g l)"
    and split: "split_edge api l nd g = (g1, new)" and i: "is_target ts i" "is_invoke i"
    and same: "strip i' = strip i" "map strip s' = map strip s" and rest: "step_done ts N f l i' s' g1 ps r"
  shows "step_done ts N f l i s g ps r"
proof -
  note sp = walk_inv_split [OF api inv l nd critical split]
  have i': "is_target ts i'" "inst_id i' = inst_id i" "new_hook ts i' = new_hook ts i" "is_invoke i'" "hook_for ts i' = hook_for ts i"
    using same(1) i by (metis strip_target, metis strip_id(1), metis strip_new_hook, metis strip_invoke, metis strip_hook_for)
  have "step_rest ts N n f l i' s' g' \<Longrightarrow> step_rest ts N n f l i s g'" for n g'
    using strip_weight [OF same(2)] strip_hooks [OF same(2)] strip_invokes [OF same(2), of ts] i' i
    unfolding step_rest_def by simp
  moreover have "edges_hooked ts N l [i] g g'" if "edges_hooked ts N l [i'] g1 g'" for g'
  proof (rule edges_hooked_split)
    have "ir_ok g" using inv by (simp add: walk_inv_def)
    then show "on_edge N g1 k n h" if "k \<in> labels g" "k \<noteq> l" "on_edge N g k n h" for k n h
      using on_edge_split [OF _ that(1) sp(8) sp(9) [OF that(1,2)] that(3)] by blast
    show "edges_hooked ts N l [i] g1 g'" using that i i' by (simp add: edges_hooked_def)
  qed (use sp(7) i in simp_all)
  ultimately show ?thesis using rest sp(2) i'(3) unfolding step_done_def by auto
qed

lemma hook_step_invoke:
  assumes inv: "walk_inv ts N (next_id ps) f g" and l: "l \<in> labels f" and eq: "insts_of g l = pre @ i # s"
    and "insertion_ok api" and "split_ok api N" and target: "is_target ts i"
    and hook: "getHookInst ts i ps = Inr (Some h, ps1)" and i: "i = CallBase m (InvokeInst nd u) c as"
    and h: "h = CallBase (next_id ps) CallInst (Func name) xs" "\<not> is_target ts h"
    and ps1: "next_id ps1 = Suc (next_id ps)" "hook_count ps1 = hook_count ps"
    and nh: "new_hook ts i = {#(Func name, xs)#}" "hook_for ts i = Some (name, xs)"
  shows "step_done ts N f l i s g ps (hook_step api ts l i g ps)"
proof -
  have ir: "ir_ok g" and lg: "l \<in> labels g" using inv l by (auto simp: walk_inv_def)
  let ?ps = "ps1\<lparr>hook_count := hook_count ps1 + 1\<rparr>"
  have mem: "CallBase m (InvokeInst nd u) c as \<in> set (insts_of g l)" using eq i by simp
  then have nd: "nd \<in> labels g" using ir lg unfolding ir_ok_def by blast
  show ?thesis
  proof (cases "single_pred api g nd")
    case True
    obtain b where b: "block_of g nd = Some b" using nd block_of_mem by blast
    then have insts: "bb_insts b = insts_of g nd" by (simp add: insts_of_def)
    moreover have "insts_of g nd \<noteq> []" using ir nd by (simp add: ir_ok_def)
    ultimately have p: "first_insertion_pt api b < length (insts_of g nd)" using assms(4) by (metis insertion_ok_def)
    have "hook_step api ts l i g ps =
        Inr (set_insts nd (take (first_insertion_pt api b) (insts_of g nd) @ h # drop (first_insertion_pt api b) (insts_of g nd)) g, ?ps)"
      using hook i True b p insts by (simp add: hook_step_def Let_def insert_at_def)
    then show ?thesis using done_insert [OF inv l eq nd p target h nh(2,1), of ?ps] mem i ps1 by auto
  next
    case False
    obtain g1 new where split: "split_edge api l nd g = (g1, new)" by fastforce
    note sp = walk_inv_split [OF assms(5) inv lg nd False mem split]
    obtain pre' i' s' where eq': "insts_of g1 l = pre' @ i' # s'" "strip i' = strip i" "map strip s' = map strip s"
      using sp(5) eq by (metis strip_split)
    have i': "is_target ts i'" "hook_for ts i' = hook_for ts i" "new_hook ts i' = new_hook ts i" "inst_id i' = inst_id i"
      using eq'(2) target by (metis strip_target, metis strip_hook_for, metis strip_new_hook, metis strip_id(1))
    have "hook_step api ts l i g ps =
        Inr (set_insts new (take 0 (insts_of g1 new) @ h # drop 0 (insts_of g1 new)) g1, ?ps)"
      using hook i False split sp(4) by (simp add: hook_step_def Let_def insert_at_def)
    moreover have "CallBase m (InvokeInst new u) c as \<in> set (insts_of g1 l)" using sp(10) [OF mem] by simp
    then have "step_done ts N f l i' s' g1 ps (Inr (set_insts new (take 0 (insts_of g1 new) @ h # drop 0 (insts_of g1 new)) g1, ?ps))"
      using sp(3,4) i' nh i ps1 by (intro done_insert [OF sp(1) l eq'(1) _ _ _ h]) auto
    ultimately show ?thesis
      using done_split [OF assms(5) inv lg nd False mem split target _ eq'(2,3)] i by simp
  qed
qed

lemma hook_step_target:
  assumes inv: "walk_inv ts N (next_id ps) f g" and l: "l \<in> labels f" and eq: "insts_of g l = pre @ i # s"
    and "no_hook_target ts" and "insertion_ok api" and "split_ok api N" and target: "is_target ts i"
  shows "step_done ts N f l i s g ps (hook_step api ts l i g ps)"
proof -
  have lg: "l \<in> labels g" using inv l by (auto simp: walk_inv_def)
  have gr: "grown ts N (next_id ps) (insts_of f l) (pre @ i # s)" using inv l eq by (metis walk_inv_def)
  then have args: "enough_args ts i" by (simp add: grown_def block_ok_def)
  obtain h ps1 name xs m k c as where hook: "getHookInst ts i ps = Inr (Some h, ps1)" and i: "i = CallBase m k c as"
    and h: "h = CallBase (next_id ps) CallInst (Func name) xs" "\<not> is_target ts h" and ps1: "next_id ps1 = Suc (next_id ps)" "hook_count ps1 = hook_count ps"
    and nh: "new_hook ts i = (if k = CallBrInst then {#} else {#(Func name, xs)#})" "hook_for ts i = Some (name, xs)"
    by (rule target_step [OF target args assms(4), of ps])
  let ?ps = "ps1\<lparr>hook_count := hook_count ps1 + 1\<rparr>"
  show ?thesis
  proof (cases k)
    case CallInst
    have s: "s \<noteq> []" using gr target i CallInst by (auto simp: grown_def block_ok_def)
    have "next_after m (insts_of g l) \<noteq> None" using next_of_grown [OF gr] s eq i by (cases s) simp_all
    moreover have "inst_id i \<notin> inst_id ` set pre" using gr by (auto simp: grown_def)
    then have "insert_after m h (insts_of g l) =
        take (Suc (length pre)) (insts_of g l) @ h # drop (Suc (length pre)) (insts_of g l)"
      using insert_after_split [of i pre h s] eq i by simp
    ultimately have "hook_step api ts l i g ps =
        Inr (set_insts l (take (Suc (length pre)) (insts_of g l) @ h # drop (Suc (length pre)) (insts_of g l)) g, ?ps)"
      using hook i CallInst by (simp add: hook_step_def Let_def)
    then show ?thesis
      using done_insert [OF inv l eq lg _ target h nh(2), of "Suc (length pre)" ?ps] nh eq s i CallInst ps1 by simp
  next
    case CallBrInst
    have "walk_inv ts N (Suc (next_id ps)) f g"
      using inv grown_mono [of ts N "next_id ps" _ _ "Suc (next_id ps)"] by (simp add: walk_inv_def)
    then have "step_rest ts N (Suc (next_id ps)) f l i s g" using eq target unfolding step_rest_def by fastforce
    then show ?thesis using hook i CallBrInst nh ps1 by (simp add: step_done_def hook_step_def Let_def edges_hooked_refl)
  next
    case (InvokeInst nd u)
    have "new_hook ts i = {#(Func name, xs)#}" using nh InvokeInst by simp
    then show ?thesis
      using i InvokeInst by (intro hook_step_invoke [OF inv l eq assms(5,6) target hook _ h ps1 _ nh(2)]) simp_all
  qed
qed

subsection \<open>The walk ends and misses no target\<close>

lemma walk_ends:
  assumes "no_hook_target ts" and "insertion_ok api" and "split_ok api N" and l: "l \<in> labels f"
  shows "walk_inv ts N (next_id ps) f g \<Longrightarrow> insts_of g l = pre @ r \<Longrightarrow>
    \<exists>g' ps'. hook_insts api ts l (first_inst r) g ps = Some (Inr (g', ps')) \<and> next_id ps \<le> next_id ps' \<and>
      walk_inv ts N (next_id ps') f g' \<and> func_calls N g' = func_calls N g + new_hooks ts r \<and>
      hook_count ps' = hook_count ps + of_nat (size (new_hooks ts r)) \<and> edges_hooked ts N l r g g'"
proof (induction "weight ts r" arbitrary: pre r g ps rule: less_induct)
  case less
  show ?case
  proof (cases r)
    case Nil
    then show ?thesis using less.prems by (simp add: hook_insts.simps edges_hooked_refl)
  next
    case (Cons i s)
    note unfold = hook_insts.simps [of api ts l "Some i" g ps]
    show ?thesis
    proof (cases "is_target ts i")
      case False
      have "grown ts N (next_id ps) (insts_of f l) (pre @ i # s)"
        using less.prems l Cons by (metis walk_inv_def)
      then have nx: "next_after (inst_id i) (insts_of g l) = first_inst s"
        using next_of_grown less.prems(2) Cons by metis
      have "weight ts s < weight ts r" using Cons by simp
      from less.hyps [OF this less.prems(1), of "pre @ [i]"] less.prems(2) Cons
      obtain g' ps' where "hook_insts api ts l (first_inst s) g ps = Some (Inr (g', ps'))" "next_id ps \<le> next_id ps'"
        "walk_inv ts N (next_id ps') f g'" "func_calls N g' = func_calls N g + new_hooks ts s"
        "hook_count ps' = hook_count ps + of_nat (size (new_hooks ts s))" "edges_hooked ts N l s g g'" by auto
      moreover have "hook_step api ts l i g ps = Inr (g, ps)"
        using hook_step_None getHookInst_not_target [OF False] by blast
      ultimately show ?thesis using unfold nx Cons new_hook_other [OF False] edges_hooked_skip [OF False] by simp
    next
      case True
      obtain g1 ps1 where step: "hook_step api ts l i g ps = Inr (g1, ps1)" "next_id ps \<le> next_id ps1"
        "step_rest ts N (next_id ps1) f l i s g1" "func_calls N g1 = func_calls N g + new_hook ts i"
        "hook_count ps1 = hook_count ps + of_nat (size (new_hook ts i))" "edges_hooked ts N l [i] g g1"
        using hook_step_target [OF less.prems(1) l less.prems(2) [unfolded Cons] assms(1-3) True] unfolding step_done_def by blast
      then obtain pre' i' s' where rest: "walk_inv ts N (next_id ps1) f g1" "insts_of g1 l = pre' @ i' # s'"
        "inst_id i' = inst_id i" "weight ts s' < weight ts r" "new_hooks ts s' = new_hooks ts s"
        "map strip (invokes ts s') = map strip (invokes ts s)"
        unfolding step_rest_def Cons by blast
      have "grown ts N (next_id ps1) (insts_of f l) (pre' @ i' # s')" using rest l by (metis walk_inv_def)
      then have nx: "next_after (inst_id i) (insts_of g1 l) = first_inst s'" using next_of_grown rest by metis
      from less.hyps [OF rest(4,1), of "pre' @ [i']"] rest(2)
      obtain g' ps' where "hook_insts api ts l (first_inst s') g1 ps1 = Some (Inr (g', ps'))" "next_id ps1 \<le> next_id ps'"
        "walk_inv ts N (next_id ps') f g'" "func_calls N g' = func_calls N g1 + new_hooks ts s'"
        "hook_count ps' = hook_count ps1 + of_nat (size (new_hooks ts s'))" "edges_hooked ts N l s' g1 g'" by auto
      moreover have "l \<in> labels g" using less.prems(1) l by (auto simp: walk_inv_def)
      ultimately show ?thesis using unfold nx Cons step rest(5) edges_hooked_step [OF step(6) _ rest(6)]
        by (auto simp: union_ac)
    qed
  qed
qed

text \<open>A block that has grown still has the targets it had.\<close>

lemma grown_hooks: "grown ts N n is js \<Longrightarrow> new_hooks ts js = new_hooks ts is"
proof -
  assume g: "grown ts N n is js"
  then have "\<forall>x\<in>set js. N \<le> inst_id x \<longrightarrow> \<not> is_target ts x" by (auto simp: grown_def)
  then have "new_hooks ts js = new_hooks ts (filter (\<lambda>x. inst_id x < N) js)"
    by (induction js) (auto simp: new_hook_other)
  also have "\<dots> = new_hooks ts is" using g by (intro strip_hooks) (simp add: grown_def)
  finally show ?thesis .
qed

definition blocks_edges :: "pre_targets \<Rightarrow> inst_id \<Rightarrow> func \<Rightarrow> label list \<Rightarrow> func \<Rightarrow> func \<Rightarrow> bool" where
  "blocks_edges ts N f ls g g' \<longleftrightarrow>
    (\<forall>k\<in>labels g - set ls. \<forall>n h. on_edge N g k n h \<longrightarrow> on_edge N g' k n h) \<and>
    (distinct ls \<longrightarrow> (\<forall>l\<in>set ls. length (invokes ts (insts_of f l)) \<le> 1 \<longrightarrow>
      (\<forall>x\<in>set (invokes ts (insts_of f l)). \<exists>h. hook_for ts x = Some h \<and> on_edge N g' l (inst_id x) h)))"

lemma blocks_edges_Nil: "blocks_edges ts N f [] g g"
  by (simp add: blocks_edges_def)

lemma blocks_edges_Cons:
  assumes one: "edges_hooked ts N l is g g1" and rest: "blocks_edges ts N f ls g1 g'"
    and eq: "map strip (invokes ts is) = map strip (invokes ts (insts_of f l))" and l: "l \<in> labels g"
  shows "blocks_edges ts N f (l # ls) g g'"
  unfolding blocks_edges_def
proof (intro conjI ballI impI allI)
  have mono: "labels g \<subseteq> labels g1" using one by (simp add: edges_hooked_def)
  show "on_edge N g' k n h" if "k \<in> labels g - set (l # ls)" "on_edge N g k n h" for k n h
  proof -
    have "k \<in> labels g" "k \<noteq> l" "k \<in> labels g1 - set ls" using that mono by auto
    then have "on_edge N g1 k n h" using one that(2) unfolding edges_hooked_def by blast
    then show ?thesis using rest \<open>k \<in> labels g1 - set ls\<close> unfolding blocks_edges_def by blast
  qed
  show "\<exists>h. hook_for ts x = Some h \<and> on_edge N g' k (inst_id x) h"
    if d: "distinct (l # ls)" and k: "k \<in> set (l # ls)" and few: "length (invokes ts (insts_of f k)) \<le> 1"
      and x: "x \<in> set (invokes ts (insts_of f k))" for k x
  proof (cases "k = l")
    case True
    then obtain y where y: "y \<in> set (invokes ts is)" "strip y = strip x"
      using eq x by (metis (mono_tags, lifting) image_iff list.set_map)
    have "length (invokes ts is) \<le> 1" using eq few True by (metis length_map)
    then obtain h where h: "hook_for ts y = Some h" "on_edge N g1 l (inst_id y) h"
      using one y(1) unfolding edges_hooked_def by blast
    have "l \<in> labels g1 - set ls" using l mono d by auto
    then have "on_edge N g' l (inst_id y) h" using rest h(2) unfolding blocks_edges_def by blast
    then show ?thesis using h(1) y(2) True by (metis strip_hook_for strip_id(1))
  next
    case False
    then have "k \<in> set ls" "distinct ls" using k d by auto
    then show ?thesis using rest few x unfolding blocks_edges_def by blast
  qed
qed

lemma blocks_end:
  assumes "no_hook_target ts" and "insertion_ok api" and "split_ok api N" and "set ls \<subseteq> labels f"
    and "walk_inv ts N (next_id ps) f g"
  shows "\<exists>g' ps'. hook_blocks api ts ls g ps = Some (Inr (g', ps')) \<and> next_id ps \<le> next_id ps' \<and>
    walk_inv ts N (next_id ps') f g' \<and>
    func_calls N g' = func_calls N g + sum_list (map (\<lambda>l. new_hooks ts (insts_of f l)) ls) \<and>
    hook_count ps' + of_nat (size (func_calls N g)) = hook_count ps + of_nat (size (func_calls N g')) \<and>
    blocks_edges ts N f ls g g'"
  using assms(4,5)
proof (induction ls arbitrary: g ps)
  case (Cons l ls)
  have l: "l \<in> labels f" using Cons.prems(1) by simp
  obtain g1 ps1 where one: "hook_insts api ts l (first_inst (insts_of g l)) g ps = Some (Inr (g1, ps1))"
    "next_id ps \<le> next_id ps1" "walk_inv ts N (next_id ps1) f g1" "func_calls N g1 = func_calls N g + new_hooks ts (insts_of g l)"
    "hook_count ps1 = hook_count ps + of_nat (size (new_hooks ts (insts_of g l)))"
    "edges_hooked ts N l (insts_of g l) g g1"
    using walk_ends [OF assms(1-3) l Cons.prems(2), of "[]"] by auto
  obtain g' ps' where rest: "hook_blocks api ts ls g1 ps1 = Some (Inr (g', ps'))" "next_id ps1 \<le> next_id ps'"
    "walk_inv ts N (next_id ps') f g'"
    "func_calls N g' = func_calls N g1 + sum_list (map (\<lambda>l. new_hooks ts (insts_of f l)) ls)"
    "hook_count ps' + of_nat (size (func_calls N g1)) = hook_count ps1 + of_nat (size (func_calls N g'))"
    "blocks_edges ts N f ls g1 g'"
    using Cons.IH [OF _ one(3)] Cons.prems(1) by auto
  have "new_hooks ts (insts_of g l) = new_hooks ts (insts_of f l)"
    using Cons.prems(2) l grown_hooks by (metis walk_inv_def)
  moreover have "map strip (invokes ts (insts_of g l)) = map strip (invokes ts (insts_of f l))"
    using Cons.prems(2) l grown_invokes by (metis walk_inv_def)
  moreover have "l \<in> labels g" using Cons.prems(2) l by (auto simp: walk_inv_def)
  ultimately show ?case using one rest blocks_edges_Cons [OF one(6) rest(6)] by (auto simp: union_ac)
qed (simp add: blocks_edges_Nil)

text \<open>What the pass makes of a function.\<close>

definition func_instrumented :: "llvm_api \<Rightarrow> pre_targets \<Rightarrow> inst_id \<Rightarrow> func \<Rightarrow> func \<Rightarrow> bool" where
  "func_instrumented api ts N f g \<longleftrightarrow>
    fn_name g = fn_name f \<and> labels f \<subseteq> labels g \<and> distinct (map bb_label (fn_blocks g)) \<and>
    (\<forall>l\<in>labels f. map strip (filter (\<lambda>x. inst_id x < N) (insts_of g l)) = map strip (insts_of f l)) \<and>
    (\<forall>l\<in>labels g - labels f. \<forall>x\<in>set (insts_of g l). N \<le> inst_id x) \<and>
    func_calls N g = sum_list (map (\<lambda>l. new_hooks ts (insts_of f l)) (rpo api f))"

definition func_input_ok :: "llvm_api \<Rightarrow> pre_targets \<Rightarrow> inst_id \<Rightarrow> func \<Rightarrow> bool" where
  "func_input_ok api ts N f \<longleftrightarrow>
    ir_ok f \<and> set (rpo api f) \<subseteq> labels f \<and>
    (\<forall>l\<in>labels f. distinct (map inst_id (insts_of f l)) \<and> block_ok ts (insts_of f l) \<and>
      (\<forall>x\<in>set (insts_of f l). inst_id x < N))"

lemma walk_inv_start:
  assumes "func_input_ok api ts N f" and "N \<le> n"
  shows "walk_inv ts N n f f" "func_calls N f = {#}"
proof -
  have "grown ts N n (insts_of f l) (insts_of f l)" if "l \<in> labels f" for l
    using assms that by (fastforce simp: grown_def func_input_ok_def filter_id_conv)
  then show "walk_inv ts N n f f" using assms by (simp add: walk_inv_def func_input_ok_def)
  have "new_calls N is = {#}" if "\<forall>x\<in>set is. inst_id x < N" for "is"
    using that
  proof (induction "is")
    case (Cons i "is")
    then show ?case by (cases i) auto
  qed simp
  then show "func_calls N f = {#}" using assms(1) by (simp add: func_calls_def func_input_ok_def)
qed

definition func_done :: "llvm_api \<Rightarrow> pre_targets \<Rightarrow> inst_id \<Rightarrow> func \<Rightarrow> func \<Rightarrow> bool" where
  "func_done api ts N f g \<longleftrightarrow>
    (if is_declaration f then g = f
     else func_instrumented api ts N f g \<and> blocks_edges ts N f (rpo api f) f g)"

lemma funcs_end:
  assumes "no_hook_target ts" and "insertion_ok api" and "split_ok api N" and "N \<le> next_id ps"
    and "\<forall>f\<in>set fs. \<not> is_declaration f \<longrightarrow> func_input_ok api ts N f"
  shows "\<exists>gs ps'. hook_funcs api ts fs ps = Some (Inr (gs, ps')) \<and>
    list_all2 (func_done api ts N) fs gs \<and>
    hook_count ps' = hook_count ps + of_nat (\<Sum>g\<leftarrow>gs. size (func_calls N g))"
  using assms(4,5)
proof (induction fs arbitrary: ps)
  case (Cons f fs)
  have "\<exists>g ps1. (if is_declaration f then Some (Inr (f, ps)) else hook_blocks api ts (rpo api f) f ps) = Some (Inr (g, ps1)) \<and>
    next_id ps \<le> next_id ps1 \<and> func_done api ts N f g \<and>
    hook_count ps1 = hook_count ps + of_nat (size (func_calls N g))"
  proof (cases "is_declaration f")
    case False
    then have ok: "func_input_ok api ts N f" using Cons.prems(2) by simp
    then have "set (rpo api f) \<subseteq> labels f" by (simp add: func_input_ok_def)
    from blocks_end [OF assms(1-3) this walk_inv_start(1) [OF ok Cons.prems(1)]]
    obtain g ps1 where "hook_blocks api ts (rpo api f) f ps = Some (Inr (g, ps1))" "next_id ps \<le> next_id ps1"
      "walk_inv ts N (next_id ps1) f g"
      "func_calls N g = sum_list (map (\<lambda>l. new_hooks ts (insts_of f l)) (rpo api f))"
      "hook_count ps1 = hook_count ps + of_nat (size (func_calls N g))" "blocks_edges ts N f (rpo api f) f g"
      using walk_inv_start(2) [OF ok Cons.prems(1)] by auto
    then show ?thesis using False by (auto simp: func_done_def func_instrumented_def walk_inv_def grown_def ir_ok_def)
  qed (simp add: func_done_def func_calls_def labels_def is_declaration_def)
  then obtain g ps1 where one: "(if is_declaration f then Some (Inr (f, ps)) else hook_blocks api ts (rpo api f) f ps) = Some (Inr (g, ps1))"
    "next_id ps \<le> next_id ps1" "func_done api ts N f g"
    "hook_count ps1 = hook_count ps + of_nat (size (func_calls N g))" by blast
  obtain gs ps' where "hook_funcs api ts fs ps1 = Some (Inr (gs, ps'))"
    "list_all2 (func_done api ts N) fs gs"
    "hook_count ps' = hook_count ps1 + of_nat (\<Sum>g\<leftarrow>gs. size (func_calls N g))"
    using Cons.IH [of ps1] Cons.prems one(2) by auto
  with one show ?case by auto
qed simp

subsection \<open>An edge that has to be split\<close>

text \<open>A splitting of edges as LLVM describes it, with a new block that branches on.\<close>

fun redirect :: "label \<Rightarrow> label \<Rightarrow> instr \<Rightarrow> instr" where
  "redirect nd new (CallBase n (InvokeInst a b) c as) = CallBase n (InvokeInst (if a = nd then new else a) b) c as"
| "redirect nd new i = i"

definition simple_split :: "inst_id \<Rightarrow> label \<Rightarrow> label \<Rightarrow> func \<Rightarrow> func \<times> label" where
  "simple_split N l nd f =
    (let new = Suc (sum_list (map bb_label (fn_blocks f)));
         g = set_insts l (map (redirect nd new) (insts_of f l)) f
     in (g\<lparr>fn_blocks := fn_blocks g @ [\<lparr>bb_label = new, bb_name = [], bb_insts = [OtherInst N []]\<rparr>]\<rparr>, new))"

definition critical_edges_api :: "inst_id \<Rightarrow> llvm_api" where
  "critical_edges_api N = demo_api\<lparr>single_pred := (\<lambda>_ _. False), split_edge := simple_split N\<rparr>"

lemma strip_redirect [simp]: "strip (redirect nd new i) = strip i"
  by (cases "(nd, new, i)" rule: redirect.cases) auto

lemma redirect_dest:
  "redirect nd new i = CallBase n (InvokeInst a b) c as \<Longrightarrow> a = new \<or> i = CallBase n (InvokeInst a b) c as"
  by (cases "(nd, new, i)" rule: redirect.cases) (auto split: if_splits)

lemma find_snoc: "find P (xs @ [y]) = (case find P xs of None \<Rightarrow> if P y then Some y else None | Some x \<Rightarrow> Some x)"
  by (induction xs) auto

lemma simple_split_ok:
  assumes f: "ir_ok f" and l: "l \<in> labels f" and split: "simple_split N l nd f = (g, new)"
  shows "ir_ok g \<and> fn_name g = fn_name f \<and> new \<notin> labels f \<and> labels g = insert new (labels f) \<and>
    (\<forall>k\<in>labels f. map strip (insts_of g k) = map strip (insts_of f k)) \<and>
    (\<forall>x\<in>set (insts_of g new). N \<le> inst_id x \<and> (\<exists>n xs. x = OtherInst n xs)) \<and>
    (\<forall>k\<in>labels f - {l}. insts_of g k = insts_of f k) \<and>
    (\<forall>n a b c as. CallBase n (InvokeInst a b) c as \<in> set (insts_of f l) \<longrightarrow>
      CallBase n (InvokeInst (if a = nd then new else a) b) c as \<in> set (insts_of g l))"
proof -
  let ?r = "map (redirect nd new) (insts_of f l)"
  let ?b = "\<lparr>bb_label = new, bb_name = [], bb_insts = [OtherInst N []]\<rparr>"
  have new: "new = Suc (sum_list (map bb_label (fn_blocks f)))"
    and g: "g = (set_insts l ?r f)\<lparr>fn_blocks := fn_blocks (set_insts l ?r f) @ [?b]\<rparr>"
    using split by (auto simp: simple_split_def Let_def)
  have "k < new" if "k \<in> labels f" for k
    using that member_le_sum_list [of k "map bb_label (fn_blocks f)"] by (auto simp: labels_def new)
  then have fresh: "new \<notin> labels f" by blast
  have labels_g: "labels g = insert new (labels f)"
    unfolding g using labels_set [of l ?r f] by (simp add: labels_def)
  have block: "block_of g k = (if k = new then Some ?b else block_of (set_insts l ?r f) k)" for k
  proof -
    have "block_of (set_insts l ?r f) new = None" using fresh block_of_mem [of "set_insts l ?r f" new] by simp
    then show ?thesis unfolding g block_of_def
      by (auto simp: find_snoc split: option.split)
  qed
  have insts: "insts_of g k = (if k = new then [OtherInst N []] else if k = l then ?r else insts_of f k)" for k
    using block [of k] insts_of_set [OF l, of ?r k] by (simp add: insts_of_def)
  have "distinct (map bb_label (fn_blocks g))"
    using f fresh labels_set [of l ?r f] unfolding g by (simp add: ir_ok_def labels_def)
  moreover have "insts_of g k \<noteq> []" if "k \<in> labels g" for k
    using that f labels_g by (auto simp: insts ir_ok_def)
  moreover have "a \<in> labels g" if k: "k \<in> labels g" and a: "CallBase n (InvokeInst a b) c as \<in> set (insts_of g k)" for k n a b c as
  proof -
    have "a = new \<or> (k \<noteq> new \<and> CallBase n (InvokeInst a b) c as \<in> set (insts_of f k))"
    proof (cases "k = l \<and> k \<noteq> new")
      case True
      then obtain i where "i \<in> set (insts_of f l)" "redirect nd new i = CallBase n (InvokeInst a b) c as"
        using a by (auto simp: insts)
      then show ?thesis using redirect_dest True by metis
    next
      case False
      then show ?thesis using a by (cases "k = new") (simp_all add: insts)
    qed
    moreover have "a \<in> labels f" if "k \<noteq> new" "CallBase n (InvokeInst a b) c as \<in> set (insts_of f k)"
      using f k that labels_g unfolding ir_ok_def by blast
    ultimately show ?thesis using labels_g by blast
  qed
  ultimately have "ir_ok g" unfolding ir_ok_def by blast
  moreover have "fn_name g = fn_name f" by (simp add: g)
  moreover have "CallBase n (InvokeInst (if a = nd then new else a) b) c as \<in> set (insts_of g l)"
    if "CallBase n (InvokeInst a b) c as \<in> set (insts_of f l)" for n a b c as
    using imageI [OF that, of "redirect nd new"] l fresh by (auto simp: insts)
  ultimately show ?thesis using fresh labels_g by (auto simp: insts)
qed

lemma critical_edges_api_ok: "split_ok (critical_edges_api N) N" "insertion_ok (critical_edges_api N)"
proof -
  have "split_edge (critical_edges_api N) = simple_split N" by (simp add: critical_edges_api_def)
  then show "split_ok (critical_edges_api N) N"
    unfolding split_ok_def by (intro allI impI simple_split_ok) simp_all
  show "insertion_ok (critical_edges_api N)"
    by (simp add: insertion_ok_def critical_edges_api_def demo_api_def)
qed

subsection \<open>The pass\<close>

definition invoke_source :: ir_module where
  "invoke_source =
    \<lparr>mod_funcs =
      [\<lparr>fn_name = ''trusted_malloc'', fn_blocks = []\<rparr>, \<lparr>fn_name = ''trusted_free'', fn_blocks = []\<rparr>,
       \<lparr>fn_name = ''f'', fn_blocks =
         [\<lparr>bb_label = 0, bb_name = ''entry'', bb_insts =
            [CallBase 0 CallInst (Func ''trusted_malloc'') [Int64 8],
             CallBase 1 (InvokeInst 1 2) (Func ''trusted_malloc'') [Int64 16]]\<rparr>,
          \<lparr>bb_label = 1, bb_name = [], bb_insts =
            [CallBase 2 CallInst (Func ''trusted_free'') [Result 1, Int64 16], OtherInst 3 []]\<rparr>,
          \<lparr>bb_label = 2, bb_name = [], bb_insts = [OtherInst 4 []]\<rparr>]\<rparr>],
     mod_AllocSiteTotal = None\<rparr>"

lemma invoke_source_ok:
  "\<forall>f\<in>set (mod_funcs invoke_source). \<not> is_declaration f \<longrightarrow>
    func_input_ok (critical_edges_api 5) demo_targets 5 f"
  by (simp add: invoke_source_def is_declaration_def func_input_ok_def ir_ok_def labels_def insts_of_def
      block_of_def block_ok_def critical_edges_api_def demo_api_def demo_targets_def enough_args_def is_target_def)

lemma run_pre_done:
  assumes "ts = find_targets (read_options env opts) m" and "no_hook_target ts"
    and "insertion_ok api" and "split_ok api (next_id ps)"
    and "\<forall>f\<in>set (mod_funcs m). \<not> is_declaration f \<longrightarrow> func_input_ok api ts (next_id ps) f"
  shows "\<exists>m' ps'. run_pre api env opts m ps = Some (Inr (m', ps')) \<and>
    list_all2 (func_done api ts (next_id ps)) (mod_funcs (declare_hooks m)) (mod_funcs m') \<and>
    hook_count ps' = hook_count ps + of_nat (\<Sum>g\<leftarrow>mod_funcs m'. size (func_calls (next_id ps) g))"
proof -
  obtain ds where "mod_funcs (declare_hooks m) = mod_funcs m @ ds" "\<forall>d\<in>set ds. is_declaration d"
    using declare_hooks_keeps(2) by blast
  then have "\<forall>f\<in>set (mod_funcs (declare_hooks m)). \<not> is_declaration f \<longrightarrow> func_input_ok api ts (next_id ps) f"
    using assms(5) by auto
  from funcs_end [OF assms(2-4) order_refl this]
  obtain gs ps' where "hook_funcs api ts (mod_funcs (declare_hooks m)) ps = Some (Inr (gs, ps'))"
    "list_all2 (func_done api ts (next_id ps)) (mod_funcs (declare_hooks m)) gs"
    "hook_count ps' = hook_count ps + of_nat (\<Sum>g\<leftarrow>gs. size (func_calls (next_id ps) g))" by blast
  then show ?thesis by (auto simp: run_pre_def hookFunctions_def assms(1) [symmetric])
qed

lemma run_pre_instruments:
  assumes "ts = find_targets (read_options env opts) m" and "no_hook_target ts"
    and "insertion_ok api" and "split_ok api (next_id ps)"
    and "\<forall>f\<in>set (mod_funcs m). \<not> is_declaration f \<longrightarrow> func_input_ok api ts (next_id ps) f"
  shows "\<exists>m' ps'. run_pre api env opts m ps = Some (Inr (m', ps')) \<and>
    list_all2 (\<lambda>f g. if is_declaration f then g = f else func_instrumented api ts (next_id ps) f g)
      (mod_funcs (declare_hooks m)) (mod_funcs m') \<and>
    hook_count ps' = hook_count ps + of_nat (\<Sum>g\<leftarrow>mod_funcs m'. size (func_calls (next_id ps) g))"
proof -
  have "func_done api ts (next_id ps) f g \<Longrightarrow>
      if is_declaration f then g = f else func_instrumented api ts (next_id ps) f g" for f g
    by (simp add: func_done_def split: if_splits)
  with run_pre_done [OF assms] show ?thesis by (blast intro: list_all2_mono)
qed

text \<open>C9: Whatever kinds of call the targets are called by, and whatever edges have to be split for
  them, the pass returns, as long as no hook is a target and every call of a target has the arguments its
  hook reads. Every instruction of the source is still in its block, in
  order and unchanged but for the labels \<open>SplitEdge\<close> redirects; blocks that are new hold new
  instructions only; and the calls that are new are exactly one hook for every target call and
  invoke of a block the traversal visits, none for a \<open>callbr\<close>.\<close>

theorem pre_pass_covers_invokes:
  assumes "ts = find_targets (read_options env opts) m" and "no_hook_target ts"
    and "insertion_ok api" and "split_ok api (next_id ps)"
    and "\<forall>f\<in>set (mod_funcs m). \<not> is_declaration f \<longrightarrow> func_input_ok api ts (next_id ps) f"
  shows "\<exists>m' ps'. run_pre api env opts m ps = Some (Inr (m', ps')) \<and>
    list_all2 (\<lambda>f g. if is_declaration f then g = f else func_instrumented api ts (next_id ps) f g)
      (mod_funcs (declare_hooks m)) (mod_funcs m')"
  using run_pre_instruments [OF assms] by blast

theorem pre_pass_covers_invokes_witness:
  "\<exists>m' ps'. run_pre (critical_edges_api 5) (\<lambda>_. None) no_options invoke_source demo_pre_state = Some (Inr (m', ps')) \<and>
    list_all2 (\<lambda>f g. if is_declaration f then g = f else func_instrumented (critical_edges_api 5) demo_targets 5 f g)
      (mod_funcs (declare_hooks invoke_source)) (mod_funcs m')"
proof -
  have ts: "demo_targets = find_targets (read_options (\<lambda>_. None) no_options) invoke_source" by code_simp
  have n: "next_id demo_pre_state = 5" by (simp add: demo_pre_state_def)
  have "no_hook_target demo_targets" by (simp add: no_hook_target_def demo_targets_def)
  from pre_pass_covers_invokes [OF ts this, of "critical_edges_api 5" demo_pre_state, unfolded n,
      OF critical_edges_api_ok(2,1) invoke_source_ok] show ?thesis .
qed

subsection \<open>The hook of an invoke\<close>

text \<open>A block has one terminator, its last instruction, and the traversal meets a block once.\<close>

definition invokes_last :: "llvm_api \<Rightarrow> func \<Rightarrow> bool" where
  "invokes_last api f \<longleftrightarrow>
    distinct (rpo api f) \<and> (\<forall>l\<in>set (rpo api f). \<forall>i\<in>set (butlast (insts_of f l)). \<not> is_invoke i)"

definition invokes_hooked :: "llvm_api \<Rightarrow> pre_targets \<Rightarrow> inst_id \<Rightarrow> func \<Rightarrow> func \<Rightarrow> bool" where
  "invokes_hooked api ts N f g \<longleftrightarrow>
    (\<forall>l\<in>set (rpo api f). \<forall>x\<in>set (invokes ts (insts_of f l)).
      \<exists>h. hook_for ts x = Some h \<and> on_edge N g l (inst_id x) h)"

lemma invokes_butlast: "\<forall>i\<in>set (butlast is). \<not> is_invoke i \<Longrightarrow> length (invokes ts is) \<le> 1"
  by (cases "is" rule: rev_cases) (simp_all add: invokes_def)

lemma func_done_edges:
  assumes "func_done api ts N f g" and "\<not> is_declaration f" and "invokes_last api f"
  shows "invokes_hooked api ts N f g"
  using assms invokes_butlast
  by (simp add: func_done_def blocks_edges_def invokes_last_def invokes_hooked_def)

text \<open>C10: The hook of an invoked target runs where the result of the invoke exists: in the program the
  pass leaves, the normal destination of every target invoke of a visited block, be it the block it
  always was or one that \<open>SplitEdge\<close> put on the edge, holds the call of the invoke's hook with the
  invoke's own result and arguments. As for the property before, no hook is a target and every call of a target has
  the arguments its hook reads; and invokes end their blocks, as LLVM demands.\<close>

theorem invoke_hooks_on_edge:
  assumes "ts = find_targets (read_options env opts) m" and "no_hook_target ts"
    and "insertion_ok api" and "split_ok api (next_id ps)"
    and "\<forall>f\<in>set (mod_funcs m). \<not> is_declaration f \<longrightarrow> func_input_ok api ts (next_id ps) f"
    and "\<forall>f\<in>set (mod_funcs m). \<not> is_declaration f \<longrightarrow> invokes_last api f"
  shows "\<exists>m' ps'. run_pre api env opts m ps = Some (Inr (m', ps')) \<and>
    list_all2 (\<lambda>f g. is_declaration f \<or> invokes_hooked api ts (next_id ps) f g)
      (mod_funcs (declare_hooks m)) (mod_funcs m')"
proof -
  obtain ds where "mod_funcs (declare_hooks m) = mod_funcs m @ ds" "\<forall>d\<in>set ds. is_declaration d"
    using declare_hooks_keeps(2) by blast
  then have last: "\<forall>f\<in>set (mod_funcs (declare_hooks m)). is_declaration f \<or> invokes_last api f"
    using assms(6) by auto
  obtain m' ps' where run: "run_pre api env opts m ps = Some (Inr (m', ps'))"
    and all: "list_all2 (func_done api ts (next_id ps)) (mod_funcs (declare_hooks m)) (mod_funcs m')"
    using run_pre_done [OF assms(1-5)] by blast
  have "list_all2 (\<lambda>f g. is_declaration f \<or> invokes_hooked api ts (next_id ps) f g)
      (mod_funcs (declare_hooks m)) (mod_funcs m')"
    using all by (rule list.rel_mono_strong) (use last func_done_edges in blast)
  with run show ?thesis by blast
qed

theorem invoke_hooks_on_edge_witness:
  "\<exists>m' ps'. run_pre (critical_edges_api 5) (\<lambda>_. None) no_options invoke_source demo_pre_state = Some (Inr (m', ps')) \<and>
    list_all2 (\<lambda>f g. is_declaration f \<or> invokes_hooked (critical_edges_api 5) demo_targets 5 f g)
      (mod_funcs (declare_hooks invoke_source)) (mod_funcs m')"
proof -
  have ts: "demo_targets = find_targets (read_options (\<lambda>_. None) no_options) invoke_source" by code_simp
  have n: "next_id demo_pre_state = 5" by (simp add: demo_pre_state_def)
  have last: "\<forall>f\<in>set (mod_funcs invoke_source). \<not> is_declaration f \<longrightarrow> invokes_last (critical_edges_api 5) f"
    by (simp add: invoke_source_def invokes_last_def critical_edges_api_def demo_api_def insts_of_def block_of_def is_declaration_def)
  have "no_hook_target demo_targets" by (simp add: no_hook_target_def demo_targets_def)
  from invoke_hooks_on_edge [OF ts this, of "critical_edges_api 5" demo_pre_state, unfolded n,
      OF critical_edges_api_ok(2,1) invoke_source_ok last] show ?thesis .
qed

end
