(* ===== verification/Call_Types.thy ===== *)
theory Call_Types
  imports Pre_Pass_Invokes Pipeline
begin

section \<open>The types of the calls\<close>

text \<open>
  LLVM refuses a module with a call whose arguments do not have the types of the called function.
  The pre pass declares the hooks with their types and builds calls of them from the operands of
  other calls; the post pass puts numbers and names into these calls and makes calls of one
  function calls of another. Here modules get types, and both passes keep them.
\<close>

datatype ir_type = VoidTy | Int64Ty | Int8PtrTy | OtherTy nat

record fn_type =
  ret_type :: ir_type
  param_types :: "ir_type list"
  var_args :: bool

type_synonym signatures = "string \<Rightarrow> fn_type option"

text \<open>The types of the results of instructions and of the other values of the module.\<close>

record value_types =
  result_type :: "inst_id \<Rightarrow> ir_type option"
  other_type :: "nat \<Rightarrow> ir_type option"

subsection \<open>The declarations of the hooks\<close>

definition fixed_type :: "ir_type list \<Rightarrow> fn_type" where
  "fixed_type ts = \<lparr>ret_type = VoidTy, param_types = ts, var_args = False\<rparr>"

definition allocHook_type :: fn_type where
  "allocHook_type = fixed_type [Int8PtrTy, Int64Ty, Int64Ty, Int8PtrTy, Int8PtrTy]"

definition reallocHook_type :: fn_type where
  "reallocHook_type =
    fixed_type [Int8PtrTy, Int64Ty, Int8PtrTy, Int64Ty, Int64Ty, Int8PtrTy, Int8PtrTy]"

definition deallocHook_type :: fn_type where
  "deallocHook_type = fixed_type [Int8PtrTy, Int64Ty, Int64Ty]"

text \<open>
  A function that is already there is kept; with another type the result is a cast of it, which
  is not a function, and \<open>cast<Function>\<close> stops.
\<close>

definition declare_type :: "string \<Rightarrow> fn_type \<Rightarrow> signatures \<Rightarrow> signatures option" where
  "declare_type name ft sg =
    (case sg name of
       None \<Rightarrow> Some (sg(name \<mapsto> ft))
     | Some ft' \<Rightarrow> (if ft' = ft then Some sg else None))"

definition declare_hook_types :: "signatures \<Rightarrow> signatures option" where
  "declare_hook_types sg =
    Option.bind (declare_type ''allocHook'' allocHook_type sg) (\<lambda>sg.
      Option.bind (declare_type ''reallocHook'' reallocHook_type sg) (\<lambda>sg.
        declare_type ''deallocHook'' deallocHook_type sg))"

subsection \<open>Well-typed modules\<close>

fun operand_type :: "value_types \<Rightarrow> operand \<Rightarrow> ir_type option" where
  "operand_type vt (Result n) = result_type vt n"
| "operand_type vt (Int64 k) = Some Int64Ty"
| "operand_type vt NullPtr = Some Int8PtrTy"
| "operand_type vt (GlobalStr s) = Some Int8PtrTy"
| "operand_type vt (OtherValue k) = other_type vt k"

definition accepts :: "fn_type \<Rightarrow> ir_type option list \<Rightarrow> bool" where
  "accepts ft ts \<longleftrightarrow>
    (if var_args ft then take (length (param_types ft)) ts else ts) = map Some (param_types ft)"

fun typed_inst :: "signatures \<Rightarrow> value_types \<Rightarrow> instr \<Rightarrow> bool" where
  "typed_inst sg vt (CallBase n k (Func g) as) \<longleftrightarrow>
    (case sg g of
       None \<Rightarrow> False
     | Some ft \<Rightarrow> result_type vt n = Some (ret_type ft) \<and> accepts ft (map (operand_type vt) as))"
| "typed_inst sg vt _ \<longleftrightarrow> True"

definition typed_func :: "signatures \<Rightarrow> value_types \<Rightarrow> func \<Rightarrow> bool" where
  "typed_func sg vt f \<longleftrightarrow>
    fn_name f \<in> dom sg \<and> (\<forall>b\<in>set (fn_blocks f). \<forall>i\<in>set (bb_insts b). typed_inst sg vt i)"

definition well_typed :: "signatures \<Rightarrow> value_types \<Rightarrow> ir_module \<Rightarrow> bool" where
  "well_typed sg vt m \<longleftrightarrow> (\<forall>f\<in>set (mod_funcs m). typed_func sg vt f)"

text \<open>The signatures of allocation functions that fit the hooks.\<close>

definition takes :: "fn_type \<Rightarrow> nat \<Rightarrow> ir_type \<Rightarrow> bool" where
  "takes ft k t \<longleftrightarrow> k < length (param_types ft) \<and> param_types ft ! k = t"

definition targets_typed :: "signatures \<Rightarrow> pre_targets \<Rightarrow> bool" where
  "targets_typed sg ts \<longleftrightarrow>
    (\<forall>f ft. sg f = Some ft \<longrightarrow>
      (Some f \<in> set (AllocFunctions ts) \<longrightarrow> ret_type ft = Int8PtrTy \<and> takes ft 0 Int64Ty) \<and>
      (Some f \<in> set (ReallocFunctions ts) \<longrightarrow>
        ret_type ft = Int8PtrTy \<and> takes ft 0 Int8PtrTy \<and> takes ft 1 Int64Ty \<and> takes ft 3 Int64Ty) \<and>
      (Some f \<in> set (DeallocFunctions ts) \<longrightarrow> takes ft 0 Int8PtrTy \<and> takes ft 1 Int64Ty))"

text \<open>A replacement has the type of what it replaces.\<close>

definition replacements_typed :: "signatures \<Rightarrow> bool" where
  "replacements_typed sg \<longleftrightarrow>
    (\<forall>g r ft. AllocReplacementMap g = Some r \<longrightarrow> sg r = Some ft \<longrightarrow> sg g = Some ft \<or> sg g = None)"

text \<open>Everything the pre pass and \<open>SplitEdge\<close> create from identifier \<open>N\<close> on has no value.\<close>

definition with_new :: "inst_id \<Rightarrow> value_types \<Rightarrow> value_types" where
  "with_new N vt = vt\<lparr>result_type := (\<lambda>n. if N \<le> n then Some VoidTy else result_type vt n)\<rparr>"

text \<open>\<open>SplitEdge\<close> changes the labels of terminators and adds a block with a branch.\<close>

definition split_keeps_calls :: "llvm_api \<Rightarrow> bool" where
  "split_keeps_calls api \<longleftrightarrow>
    (\<forall>l nd f g new. split_edge api l nd f = (g, new) \<longrightarrow>
      fn_name g = fn_name f \<and>
      (\<forall>b\<in>set (fn_blocks g). \<forall>x\<in>set (bb_insts b).
        (\<exists>c\<in>set (fn_blocks f). \<exists>y\<in>set (bb_insts c). strip x = strip y) \<or> (\<exists>n xs. x = OtherInst n xs)))"

subsection \<open>Basic facts\<close>

lemma typed_kind: "typed_inst sg vt (CallBase n k c as) = typed_inst sg vt (CallBase n k' c as)"
  by (cases c) simp_all

lemma typed_strip: "strip x = strip y \<Longrightarrow> typed_inst sg vt x = typed_inst sg vt y"
  by (cases x; cases y) (auto, (metis typed_kind)+)

lemma accepts_takes:
  assumes "accepts ft (map (operand_type vt) as)" and "takes ft k t"
  shows "k < length as" "operand_type vt (as ! k) = Some t"
proof -
  let ?p = "param_types ft" and ?o = "map (operand_type vt) as"
  have eq: "take (length ?p) ?o = map Some ?p"
    using assms(1) by (cases "var_args ft") (auto simp: accepts_def intro: take_all)
  then have "length (take (length ?p) ?o) = length ?p" by simp
  then have len: "length ?p \<le> length as" by simp
  show k: "k < length as" using assms(2) len by (simp add: takes_def)
  have "take (length ?p) ?o ! k = Some (?p ! k)" using eq assms(2) by (simp add: takes_def)
  then show "operand_type vt (as ! k) = Some t" using k assms(2) by (simp add: takes_def)
qed

lemma declare_type_le: "declare_type name ft sg = Some sg' \<Longrightarrow> sg \<subseteq>\<^sub>m sg' \<and> sg' name = Some ft"
  by (auto simp: declare_type_def map_le_def split: option.splits if_splits)

lemma declare_hook_types_le:
  assumes "declare_hook_types sg = Some sg'"
  shows "sg \<subseteq>\<^sub>m sg'" "sg' ''allocHook'' = Some allocHook_type" "sg' ''reallocHook'' = Some reallocHook_type"
    "sg' ''deallocHook'' = Some deallocHook_type"
proof -
  obtain s1 s2 where s: "declare_type ''allocHook'' allocHook_type sg = Some s1"
    "declare_type ''reallocHook'' reallocHook_type s1 = Some s2" "declare_type ''deallocHook'' deallocHook_type s2 = Some sg'"
    using assms by (auto simp: declare_hook_types_def bind_eq_Some_conv)
  note le = s [THEN declare_type_le]
  show "sg \<subseteq>\<^sub>m sg'" using le map_le_trans by blast
  show "sg' ''allocHook'' = Some allocHook_type" "sg' ''reallocHook'' = Some reallocHook_type"
    "sg' ''deallocHook'' = Some deallocHook_type"
    using le by (auto simp: map_le_def dom_def)
qed

lemma typed_inst_mono:
  assumes "typed_inst sg vt i" and "sg \<subseteq>\<^sub>m sg'" and "dom (result_type vt) \<subseteq> {..<N}"
  shows "typed_inst sg' (with_new N vt) i"
proof (cases "(sg, vt, i)" rule: typed_inst.cases)
  case (1 sg0 vt0 n k g as)
  then have i: "i = CallBase n k (Func g) as" by simp
  obtain ft where ft: "sg g = Some ft" "result_type vt n = Some (ret_type ft)" "accepts ft (map (operand_type vt) as)"
    using assms(1) by (auto simp: i split: option.splits)
  have old: "operand_type (with_new N vt) v = Some t" if "operand_type vt v = Some t" for v t
  proof (cases v)
    case (Result j)
    then have "j < N" using that assms(3) by auto
    then show ?thesis using that Result by (simp add: with_new_def)
  qed (use that in \<open>simp_all add: with_new_def\<close>)
  have "accepts ft (map (operand_type (with_new N vt)) as)"
    using ft(3) old unfolding accepts_def
    by (cases "var_args ft") (auto simp: list_eq_iff_nth_eq)
  moreover have "sg' g = Some ft" using ft(1) assms(2) by (metis domI map_le_def)
  moreover have "n < N" using ft(2) assms(3) by auto
  ultimately show ?thesis using ft(2) by (simp add: i with_new_def)
qed simp_all

subsection \<open>The pre pass keeps the types\<close>

lemma typed_set_insts:
  "typed_func sg vt f \<Longrightarrow> \<forall>i\<in>set is. typed_inst sg vt i \<Longrightarrow> typed_func sg vt (set_insts l is f)"
  by (auto simp: typed_func_def set_insts_def)

lemma typed_insts_of: "typed_func sg vt f \<Longrightarrow> i \<in> set (insts_of f l) \<Longrightarrow> typed_inst sg vt i"
  by (auto simp: typed_func_def insts_of_def block_of_def split: option.splits dest: find_Some_mem [OF sym])

lemma set_insert_after: "set (insert_after n h is) \<subseteq> insert h (set is)"
  by (induction "is") auto

lemma next_after_mem: "next_after n is = Some i \<Longrightarrow> i \<in> set is"
  by (induction "is") (auto split: if_splits list.splits)

lemma insert_at_mem: "insert_at p h is = Inr js \<Longrightarrow> set js \<subseteq> insert h (set is)"
  by (auto simp: insert_at_def split: if_splits dest: in_set_takeD in_set_dropD)

lemma typed_split:
  assumes "split_keeps_calls api" and "split_edge api l nd f = (g, new)" and "typed_func sg vt f"
  shows "typed_func sg vt g"
  unfolding typed_func_def
proof (intro conjI ballI)
  note split = assms(1) [unfolded split_keeps_calls_def, rule_format, OF assms(2)]
  show "fn_name g \<in> dom sg" using split assms(3) by (simp add: typed_func_def)
  fix b x assume "b \<in> set (fn_blocks g)" "x \<in> set (bb_insts b)"
  then consider c y where "c \<in> set (fn_blocks f)" "y \<in> set (bb_insts c)" "strip x = strip y"
    | n xs where "x = OtherInst n xs"
    using split by blast
  then show "typed_inst sg vt x"
  proof cases
    case 1
    then show ?thesis using assms(3) typed_strip [of x y sg vt] by (simp add: typed_func_def)
  qed simp
qed

text \<open>The hook of a well-typed call of a target is well typed.\<close>

lemma hook_typed:
  assumes "getHookInst ts i ps = Inr (Some h, ps')" and "typed_inst sg (with_new N vt) i"
    and "targets_typed sg ts" and "declare_hook_types sg0 = Some sg" and "N \<le> next_id ps"
  shows "typed_inst sg (with_new N vt) h"
proof -
  obtain n k f as where i: "i = CallBase n k (Func f) as"
    using assms(1) by (cases "(ts, i, ps)" rule: getHookInst.cases) auto
  then obtain ft where ft: "sg f = Some ft" "result_type (with_new N vt) n = Some (ret_type ft)"
    "accepts ft (map (operand_type (with_new N vt)) as)"
    using assms(2) by (auto split: option.splits)
  note args = accepts_takes [OF ft(3)]
  note hooks = declare_hook_types_le(2-4) [OF assms(4)]
  have new: "result_type (with_new N vt) (next_id ps) = Some VoidTy" using assms(5) by (simp add: with_new_def)
  note types = allocHook_type_def reallocHook_type_def deallocHook_type_def fixed_type_def accepts_def getDummyID_def
  consider (alloc) "Some f \<in> set (AllocFunctions ts)"
    | (realloc) "Some f \<notin> set (AllocFunctions ts)" "Some f \<in> set (ReallocFunctions ts)"
    | (dealloc) "Some f \<notin> set (AllocFunctions ts)" "Some f \<notin> set (ReallocFunctions ts)" "Some f \<in> set (DeallocFunctions ts)"
    using assms(1) by (fastforce simp: i split: if_splits)
  then show ?thesis
  proof cases
    case alloc
    then have "ret_type ft = Int8PtrTy" "takes ft 0 Int64Ty" using assms(3) ft(1) by (auto simp: targets_typed_def)
    then show ?thesis
      using alloc assms(1) ft(2) new hooks args
      by (auto simp: i and_then_eq_Inr create_call_def getArgOperand_def types Let_def split: if_splits)
  next
    case realloc
    then have "ret_type ft = Int8PtrTy" "takes ft 0 Int8PtrTy" "takes ft 1 Int64Ty" "takes ft 3 Int64Ty"
      using assms(3) ft(1) by (auto simp: targets_typed_def)
    then show ?thesis
      using realloc assms(1) ft(2) new hooks args
      by (auto simp: i and_then_eq_Inr create_call_def getArgOperand_def types Let_def split: if_splits)
  next
    case dealloc
    then have "takes ft 0 Int8PtrTy" "takes ft 1 Int64Ty" using assms(3) ft(1) by (auto simp: targets_typed_def)
    then show ?thesis
      using dealloc assms(1) ft(2) new hooks args
      by (auto simp: i and_then_eq_Inr create_call_def getArgOperand_def types Let_def split: if_splits)
  qed
qed

lemma getHookInst_next: "getHookInst ts i ps = Inr (h, ps') \<Longrightarrow> next_id ps \<le> next_id ps'"
  using getHookInst_None [of ts i ps ps'] getHookInst_Some [of ts i ps "the h" ps'] by (cases h) auto

lemma hook_step_cases:
  assumes "hook_step api ts l i f ps = Inr (f', ps')"
  obtains (same) "f' = f" "next_id ps \<le> next_id ps'"
  | (put) h ps1 k js where "getHookInst ts i ps = Inr (Some h, ps1)" "f' = set_insts k js f"
      "set js \<subseteq> insert h (set (insts_of f k))" "next_id ps \<le> next_id ps'"
  | (edge) h ps1 nd g new js where "getHookInst ts i ps = Inr (Some h, ps1)" "split_edge api l nd f = (g, new)"
      "f' = set_insts new js g" "set js \<subseteq> insert h (set (insts_of g new))" "next_id ps \<le> next_id ps'"
proof (cases i)
  case (OtherInst n xs)
  then show ?thesis using assms same by (simp add: hook_step_def)
next
  case (CallBase n k c as)
  obtain newHook ps1 where h: "getHookInst ts i ps = Inr (newHook, ps1)"
    using assms CallBase by (auto simp: hook_step_def and_then_eq_Inr)
  note le = getHookInst_next [OF h]
  show ?thesis
  proof (cases newHook)
    case None
    then show ?thesis using assms CallBase h le same by (simp add: hook_step_def)
  next
    case (Some hook)
    note h = h [unfolded Some]
    show ?thesis
    proof (cases k)
      case CallInst
      then show ?thesis
        using assms CallBase h le set_insert_after [of n hook "insts_of f l"]
        by (intro put [OF h, of l "insert_after n hook (insts_of f l)"])
           (auto simp: hook_step_def Let_def split: if_splits)
    next
      case (InvokeInst nd unwind)
      show ?thesis
      proof (cases "single_pred api f nd")
        case True
        then obtain b js where b: "block_of f nd = Some b" "insert_at (first_insertion_pt api b) hook (bb_insts b) = Inr js"
          "f' = set_insts nd js f" "ps' = ps1\<lparr>hook_count := hook_count ps1 + 1\<rparr>"
          using assms CallBase InvokeInst h by (auto simp: hook_step_def Let_def and_then_eq_Inr split: option.splits)
        then show ?thesis
          using insert_at_mem [OF b(2)] le by (intro put [OF h b(3)]) (simp_all add: insts_of_def)
      next
        case False
        obtain g new where split: "split_edge api l nd f = (g, new)" by (cases "split_edge api l nd f")
        then obtain js where js: "insert_at 0 hook (insts_of g new) = Inr js" "f' = set_insts new js g"
          "ps' = ps1\<lparr>hook_count := hook_count ps1 + 1\<rparr>"
          using False assms CallBase InvokeInst h by (auto simp: hook_step_def Let_def and_then_eq_Inr)
        then show ?thesis
          using insert_at_mem [OF js(1)] le by (intro edge [OF h split js(2)]) simp_all
      qed
    next
      case CallBrInst
      then show ?thesis using assms CallBase h le same by (simp add: hook_step_def)
    qed
  qed
qed

lemma step_typed:
  assumes "hook_step api ts l i f ps = Inr (f', ps')" and "typed_func sg (with_new N vt) f"
    and "typed_inst sg (with_new N vt) i" and "N \<le> next_id ps"
    and "targets_typed sg ts" and "declare_hook_types sg0 = Some sg" and "split_keeps_calls api"
  shows "typed_func sg (with_new N vt) f' \<and> N \<le> next_id ps'"
  using assms(1)
proof (cases rule: hook_step_cases)
  case same
  then show ?thesis using assms(2,4) by simp
next
  case (put h ps1 k js)
  have "typed_inst sg (with_new N vt) h" by (rule hook_typed [OF put(1) assms(3,5,6,4)])
  then show ?thesis
    using put typed_insts_of [OF assms(2), of _ k] assms(4)
    by (auto intro!: typed_set_insts [OF assms(2)])
next
  case (edge h ps1 nd g new js)
  have h: "typed_inst sg (with_new N vt) h" by (rule hook_typed [OF edge(1) assms(3,5,6,4)])
  have g: "typed_func sg (with_new N vt) g" by (rule typed_split [OF assms(7) edge(2) assms(2)])
  then show ?thesis
    using edge h typed_insts_of [OF g, of _ new] assms(4)
    by (auto intro!: typed_set_insts [OF g])
qed

lemma insts_typed:
  assumes "declare_hook_types sg0 = Some sg" and walk: "hook_insts api ts l cur f ps = Some r"
  shows "r = Inr (f', ps') \<Longrightarrow> typed_func sg (with_new N vt) f \<Longrightarrow>
    N \<le> next_id ps \<Longrightarrow> (\<And>i. cur = Some i \<Longrightarrow> typed_inst sg (with_new N vt) i) \<Longrightarrow>
    targets_typed sg ts \<Longrightarrow> split_keeps_calls api \<Longrightarrow>
    typed_func sg (with_new N vt) f' \<and> N \<le> next_id ps'"
proof (induction api ts l cur f ps r rule: hook_insts.raw_induct)
  case (1 walk api ts l cur f ps r)
  show ?case
  proof (cases cur)
    case None
    then show ?thesis using "1.hyps" "1.prems" by simp
  next
    case (Some i)
    then obtain f1 ps1 where step: "hook_step api ts l i f ps = Inr (f1, ps1)"
      and rest: "walk api ts l (next_after (inst_id i) (insts_of f1 l)) f1 ps1 = Some r"
      using "1.hyps" "1.prems"(1) by (auto split: sum.splits)
    have i: "typed_inst sg (with_new N vt) i" by (rule "1.prems"(4) [OF Some])
    note f1 = step_typed [OF step "1.prems"(2) i "1.prems"(3,5) assms(1) "1.prems"(6)]
    show ?thesis
      using f1 typed_insts_of [OF f1 [THEN conjunct1]] next_after_mem
      by (intro "1.IH" [OF rest "1.prems"(1) _ _ _ "1.prems"(5,6)]) blast+
  qed
qed (rule walk)

lemma blocks_typed:
  assumes "declare_hook_types sg0 = Some sg" and "targets_typed sg ts" and "split_keeps_calls api"
  shows "hook_blocks api ts ls f ps = Some (Inr (f', ps')) \<Longrightarrow> typed_func sg (with_new N vt) f \<Longrightarrow> N \<le> next_id ps \<Longrightarrow>
    typed_func sg (with_new N vt) f' \<and> N \<le> next_id ps'"
proof (induction ls arbitrary: f ps)
  case (Cons l ls)
  then obtain f1 ps1 where one: "hook_insts api ts l (first_inst (insts_of f l)) f ps = Some (Inr (f1, ps1))"
    and rest: "hook_blocks api ts ls f1 ps1 = Some (Inr (f', ps'))"
    by (auto split: option.splits sum.splits)
  have "typed_inst sg (with_new N vt) i" if "first_inst (insts_of f l) = Some i" for i
    using that typed_insts_of [OF Cons.prems(2), of i l] by (cases "insts_of f l") auto
  from insts_typed [OF assms(1) one refl Cons.prems(2,3) this assms(2,3)] Cons.IH [OF rest]
  show ?case by simp
qed simp

lemma funcs_typed:
  assumes "declare_hook_types sg0 = Some sg" and "targets_typed sg ts" and "split_keeps_calls api"
  shows "hook_funcs api ts fs ps = Some (Inr (gs, ps')) \<Longrightarrow> \<forall>f\<in>set fs. typed_func sg (with_new N vt) f \<Longrightarrow>
    N \<le> next_id ps \<Longrightarrow> \<forall>g\<in>set gs. typed_func sg (with_new N vt) g"
proof (induction fs arbitrary: gs ps)
  case (Cons f fs)
  obtain g ps1 gs' where
    one: "(if is_declaration f then Some (Inr (f, ps)) else hook_blocks api ts (rpo api f) f ps) = Some (Inr (g, ps1))"
    and rest: "hook_funcs api ts fs ps1 = Some (Inr (gs', ps'))" and gs: "gs = g # gs'"
    using Cons.prems(1) by (auto split: option.splits sum.splits if_splits)
  have "typed_func sg (with_new N vt) g \<and> N \<le> next_id ps1"
    using one Cons.prems(2,3) blocks_typed [OF assms, of "rpo api f" f ps g ps1 N vt]
    by (cases "is_declaration f") simp_all
  then show ?case using Cons.IH [OF rest] Cons.prems(2) gs by simp
qed simp

lemma declared_typed:
  assumes "well_typed sg vt m" and "declare_hook_types sg = Some sg'" and "dom (result_type vt) \<subseteq> {..<N}"
  shows "well_typed sg' (with_new N vt) (declare_hooks m)"
proof -
  note le = declare_hook_types_le [OF assms(2)]
  have "typed_func sg' (with_new N vt) f" if "typed_func sg vt f" for f
    using that typed_inst_mono [OF _ le(1) assms(3)] map_le_implies_dom_le [OF le(1)]
    unfolding typed_func_def by blast
  moreover have one: "well_typed sg' v (getOrInsertFunction h m)" if "well_typed sg' v m" "h \<in> dom sg'" for h m v
    using that by (auto simp: well_typed_def getOrInsertFunction_def typed_func_def)
  moreover have "''allocHook'' \<in> dom sg'" "''reallocHook'' \<in> dom sg'" "''deallocHook'' \<in> dom sg'"
    using le by auto
  ultimately show ?thesis
    using assms(1) unfolding declare_hooks_def by (intro one) (auto simp: well_typed_def)
qed

lemma pre_typed:
  assumes "run_pre api env opts m ps = Some (Inr (m', ps'))"
    and "well_typed sg vt m" and "dom (result_type vt) \<subseteq> {..<next_id ps}" and "declare_hook_types sg = Some sg'"
    and "targets_typed sg' (find_targets (read_options env opts) m)" and "split_keeps_calls api"
  shows "well_typed sg' (with_new (next_id ps) vt) m'"
proof -
  let ?ts = "find_targets (read_options env opts) m"
  obtain gs where gs: "hook_funcs api ?ts (mod_funcs (declare_hooks m)) ps = Some (Inr (gs, ps'))"
    "m' = (declare_hooks m)\<lparr>mod_funcs := gs\<rparr>"
    using assms(1) unfolding run_pre_def hookFunctions_def map_option_eq_Some map_sum_eq_Inr by force
  have "\<forall>f\<in>set (mod_funcs (declare_hooks m)). typed_func sg' (with_new (next_id ps) vt) f"
    using declared_typed [OF assms(2,4,3)] by (simp add: well_typed_def)
  from funcs_typed [OF assms(4-6) gs(1) this order_refl] show ?thesis by (simp add: well_typed_def gs(2))
qed

subsection \<open>The post pass keeps the types\<close>

text \<open>What a change of an instruction must keep.\<close>

lemma accepts_update:
  assumes "accepts ft (map (operand_type vt) as)" and "takes ft k t" and "operand_type vt v = Some t"
  shows "accepts ft (map (operand_type vt) (as[k := v]))"
proof -
  have "operand_type vt (as ! k) = Some t" "k < length as" using accepts_takes [OF assms(1,2)] by auto
  then have "map (operand_type vt) (as[k := v]) = map (operand_type vt) as"
    using assms(3) by (simp add: map_update list_update_same_conv)
  then show ?thesis using assms(1) by simp
qed

lemma hook_args_typed:
  assumes "hook_args opts x lid bb fn as = Inr as'" and "accepts ft (map (operand_type vt) as)"
    and "takes ft x Int64Ty" and "takes ft (x + 1) Int8PtrTy" and "takes ft (x + 2) Int8PtrTy"
  shows "accepts ft (map (operand_type vt) as')"
proof -
  have "as' = (if RemoveHooks opts then as[x := Int64 lid]
      else as[x := Int64 lid, x + 1 := GlobalStr bb, x + 2 := GlobalStr fn])"
    using assms(1) by (simp add: hook_args_Inr)
  moreover have "accepts ft (map (operand_type vt) (as[x := Int64 lid]))"
    by (rule accepts_update [OF assms(2,3)]) simp
  moreover from this
  have "accepts ft (map (operand_type vt) (as[x := Int64 lid, x + 1 := GlobalStr bb, x + 2 := GlobalStr fn]))"
    by (intro accepts_update [OF _ assms(5)] accepts_update [OF _ assms(4)]) simp_all
  ultimately show ?thesis by simp
qed

lemma assign_inst_typed:
  assumes "assign_inst api opts fm m fn bb i lid ps = Inr (i', lid', ps')" and "typed_inst sg vt i"
    and "declare_hook_types sg0 = Some sg"
  shows "typed_inst sg vt i'"
proof (cases "patchArgIndexMap (case called_function i of None \<Rightarrow> [] | Some h \<Rightarrow> h) \<in> {None, Some deallocHookIndex}")
  case True
  then have "i' = i"
    using assms(1) by (cases i; cases "callee i") (auto simp: Let_def patchArgIndexMap_def split: option.splits if_splits)
  then show ?thesis using assms(2) by simp
next
  case False
  then obtain h where h: "called_function i = Some h" "h = ''allocHook'' \<or> h = ''reallocHook''"
    by (auto simp: patchArgIndexMap_def split: option.splits if_splits)
  then obtain n k as where i: "i = CallBase n k (Func h) as" by (auto simp: called_function_Some)
  obtain ft where ft: "sg h = Some ft" "result_type vt n = Some (ret_type ft)" "accepts ft (map (operand_type vt) as)"
    using assms(2) by (auto simp: i split: option.splits)
  obtain x as' where x: "patchArgIndexMap h = Some (int x)" "hook_args opts x lid bb fn as = Inr as'"
    "i' = CallBase n k (Func h) as'" "h = ''allocHook'' \<and> x = 2 \<or> h = ''reallocHook'' \<and> x = 4"
    using assms(1) h(2) by (auto simp: i Let_def patchArgIndexMap_def and_then_eq_Inr split: if_splits)
  have "takes ft x Int64Ty" "takes ft (x + 1) Int8PtrTy" "takes ft (x + 2) Int8PtrTy"
    using x(4) ft(1) declare_hook_types_le(2,3) [OF assms(3)]
    by (auto simp: takes_def allocHook_type_def reallocHook_type_def fixed_type_def)
  from hook_args_typed [OF x(2) ft(3) this] show ?thesis using ft by (simp add: x(3))
qed

lemma assign_insts_typed:
  assumes "declare_hook_types sg0 = Some sg"
  shows "assign_insts api opts fm m fn bb is lid ps = Inr (is', lid', ps') \<Longrightarrow>
    \<forall>i\<in>set is. typed_inst sg vt i \<Longrightarrow> \<forall>i\<in>set is'. typed_inst sg vt i"
  by (induction "is" arbitrary: lid ps is')
     (auto simp: and_then_eq_Inr dest: assign_inst_typed [OF _ _ assms])

lemma assign_blocks_typed:
  assumes "declare_hook_types sg0 = Some sg"
  shows "assign_blocks api opts fm m f ls g lid ps = Inr (g', ps') \<Longrightarrow> typed_func sg vt g \<Longrightarrow> typed_func sg vt g'"
proof (induction ls arbitrary: g lid ps)
  case (Cons l ls)
  show ?case
  proof (cases "block_of f l")
    case (Some b)
    then obtain is' lid1 ps1 where
      one: "assign_insts api opts fm m (fn_name f) (block_name api f b) (insts_of g l) lid ps = Inr (is', lid1, ps1)"
      and rest: "assign_blocks api opts fm m f ls (set_insts l is' g) lid1 ps1 = Inr (g', ps')"
      using Cons.prems(1) by (auto simp: and_then_eq_Inr)
    have "\<forall>i\<in>set is'. typed_inst sg vt i"
      using assign_insts_typed [OF assms one] typed_insts_of [OF Cons.prems(2)] by blast
    then show ?thesis using Cons.IH [OF rest] typed_set_insts [OF Cons.prems(2)] by blast
  qed (use Cons in simp)
qed simp

lemma assign_funcs_typed:
  assumes "declare_hook_types sg0 = Some sg"
  shows "assign_funcs api opts fm m0 fs m ps = Inr (m', ps') \<Longrightarrow> \<forall>f\<in>set fs. typed_func sg vt f \<Longrightarrow>
    well_typed sg vt m \<Longrightarrow> well_typed sg vt m'"
proof (induction fs arbitrary: m ps)
  case (Cons f fs)
  then obtain g ps1 where one: "assign_func api opts fm m0 f ps = Inr (g, ps1)"
    and rest: "assign_funcs api opts fm m0 fs (replace_func g m) ps1 = Inr (m', ps')"
    by (auto simp: and_then_eq_Inr)
  have "typed_func sg vt g"
    using assign_blocks_typed [OF assms one [unfolded assign_func_def]] Cons.prems(2) by simp
  then have "well_typed sg vt (replace_func g m)"
    using Cons.prems(3) by (auto simp: well_typed_def replace_func_def)
  then show ?case using Cons.IH [OF rest] Cons.prems(2) by simp
qed simp

lemma typed_map_insts:
  "well_typed sg vt m \<Longrightarrow> (\<And>i. typed_inst sg vt i \<Longrightarrow> typed_inst sg vt (h i)) \<Longrightarrow> well_typed sg vt (map_insts h m)"
  by (auto simp: well_typed_def map_insts_def typed_func_def)

lemma typed_all_insts: "well_typed sg vt m \<Longrightarrow> i \<in> set (all_insts m) \<Longrightarrow> typed_inst sg vt i"
  by (auto simp: all_insts_def well_typed_def typed_func_def simp del: typed_inst.simps)

lemma typed_names: "well_typed sg vt m \<Longrightarrow> get_function m r \<noteq> None \<Longrightarrow> \<exists>ft. sg r = Some ft"
  by (auto simp: well_typed_def typed_func_def get_function_None)

lemma patch_typed:
  assumes "replacements_typed sg"
  shows "patch_all as (m, ps) = Inr (m', ps') \<Longrightarrow> well_typed sg vt m \<Longrightarrow> well_typed sg vt m'"
proof (induction as arbitrary: m ps)
  case (Cons a as)
  then obtain m1 ps1 where one: "patchInstruction a (m, ps) = Inr (m1, ps1)" and rest: "patch_all as (m1, ps1) = Inr (m', ps')"
    by (auto simp: and_then_eq_Inr)
  have "well_typed sg vt m1"
  proof (cases "m1 = m")
    case False
    then obtain n k g r xs where m1: "m1 = map_insts (\<lambda>i. if inst_id i = a then CallBase n k (Func r) xs else i) m"
      and a: "get_inst m a = Some (CallBase n k (Func g) xs)" "AllocReplacementMap g = Some r" "get_function m r \<noteq> None"
      using one by (auto simp: patchInstruction_def split: option.splits instr.splits callee.splits if_splits)
    have "CallBase n k (Func g) xs \<in> set (all_insts m)" using find_Some_mem [OF a(1) [unfolded get_inst_def]] by blast
    then have "typed_inst sg vt (CallBase n k (Func g) xs)"
      by (rule typed_all_insts [OF Cons.prems(2)])
    moreover have "sg r = sg g"
      using typed_names [OF Cons.prems(2) a(3)] calculation assms a(2)
      unfolding replacements_typed_def by (cases "sg g") fastforce+
    ultimately have "typed_inst sg vt (CallBase n k (Func r) xs)" by simp
    then show ?thesis unfolding m1 by (intro typed_map_insts [OF Cons.prems(2)]) simp
  qed (use Cons.prems(2) in simp)
  then show ?case using Cons.IH [OF rest] by simp
qed simp

lemma typed_erase: "well_typed sg vt m \<Longrightarrow> well_typed sg vt (erase_insts P m)"
  by (auto simp: well_typed_def erase_insts_def typed_func_def)

lemma typed_remove_function:
  "well_typed sg vt m \<Longrightarrow> remove_hook_function h m = Inr m' \<Longrightarrow> well_typed sg vt m'"
  by (auto simp: remove_hook_function_def removeFunctionUsers_def well_typed_def split: if_splits)

lemma post_typed:
  assumes "run_post api fe j1 j2 opts m ps = Inr (m', ps')" and "well_typed sg vt m"
    and "declare_hook_types sg0 = Some sg" and "replacements_typed sg"
  shows "well_typed sg vt m'"
proof -
  from assms(1) obtain m1 ps1 m2 ps2 m3 where a: "assignLocalIDs api fe j1 j2 opts m ps = Inr (m1, ps1)"
    and p: "(if MPKProfilePath opts \<noteq> [] then patch_all (patchList ps1) (m1, ps1) else Inr (m1, ps1)) = Inr (m2, ps2)"
    and r: "(if RemoveHooks opts then removeHooks m2 ps2 else Inr m2) = Inr m3"
    and m': "m' = m3\<lparr>mod_AllocSiteTotal := Some (IDG ps2)\<rparr>"
    by (auto simp: run_post_def and_then_eq_Inr)
  have "\<forall>f\<in>set (worklist m). typed_func sg vt f"
    using assms(2) by (simp add: well_typed_def set_worklist)
  then have "well_typed sg vt m1"
    using a assign_funcs_typed [OF assms(3)] assms(2) unfolding assignLocalIDs_def and_then_eq_Inr by blast
  then have "well_typed sg vt m2" using p patch_typed [OF assms(4)] by (auto split: if_splits)
  then have "well_typed sg vt m3"
    using r by (auto simp: removeHooks_def and_then_eq_Inr split: if_splits dest!: erase_hooks_erases
        intro: typed_erase elim!: typed_remove_function [rotated])
  then show ?thesis by (simp add: m' well_typed_def)
qed

subsection \<open>Property\<close>

text \<open>The signatures and values of the example; the module has ids below 5 before the pass.\<close>

definition demo_signatures :: signatures where
  "demo_signatures =
    [''trusted_malloc'' \<mapsto> \<lparr>ret_type = Int8PtrTy, param_types = [Int64Ty], var_args = False\<rparr>,
     ''untrusted_malloc'' \<mapsto> \<lparr>ret_type = Int8PtrTy, param_types = [Int64Ty], var_args = False\<rparr>,
     ''trusted_free'' \<mapsto> fixed_type [Int8PtrTy, Int64Ty],
     ''f'' \<mapsto> fixed_type []]"

definition demo_values :: value_types where
  "demo_values =
    \<lparr>result_type = [0 \<mapsto> Int8PtrTy, 1 \<mapsto> OtherTy 0, 2 \<mapsto> Int8PtrTy, 3 \<mapsto> VoidTy], other_type = (\<lambda>_. None)\<rparr>"

text \<open>C11: Both passes keep the calls of a module well typed, whatever kinds of call and edges it has: when
  the functions to hook have the signatures the hooks suppose, no function of another type has the
  name of a hook, and an untrusted allocation function has the type of the one it replaces, then every
  call the pre pass inserts and every call the post pass numbers or redirects has the arguments and the
  result that the type of its function asks for.\<close>

theorem passes_keep_types:
  assumes "run_pre api env opts m ps = Some (Inr (m1, ps1))"
    and "run_post api' fe j1 j2 popts m1 qs = Inr (m2, qs2)"
    and "well_typed sg vt m" and "dom (result_type vt) \<subseteq> {..<next_id ps}"
    and "declare_hook_types sg = Some sg'" and "targets_typed sg' (find_targets (read_options env opts) m)"
    and "replacements_typed sg'" and "split_keeps_calls api"
  shows "well_typed sg' (with_new (next_id ps) vt) m1 \<and> well_typed sg' (with_new (next_id ps) vt) m2"
proof
  show m1: "well_typed sg' (with_new (next_id ps) vt) m1"
    by (rule pre_typed [OF assms(1,3-6,8)])
  show "well_typed sg' (with_new (next_id ps) vt) m2"
    by (rule post_typed [OF assms(2) m1 assms(5,7)])
qed

theorem passes_keep_types_witness:
  "\<exists>ps1 m2 ps2 sg.
    run_pre demo_api (\<lambda>_. None) no_options demo_source demo_pre_state = Some (Inr (demo_hooked, ps1)) \<and>
    run_post demo_api demo_files 0 0 profile_build demo_hooked post_globals0 = Inr (m2, ps2) \<and>
    declare_hook_types demo_signatures = Some sg \<and>
    well_typed sg (with_new 5 demo_values) demo_hooked \<and> well_typed sg (with_new 5 demo_values) m2"
proof -
  obtain m1 ps1 where run: "run_pre demo_api (\<lambda>_. None) no_options demo_source demo_pre_state = Some (Inr (m1, ps1))"
    using run_pre_result [OF demo_targets [symmetric] demo_pre_input] by blast
  then have m1: "m1 = demo_hooked" by (simp add: demo_hooked_def)
  have "\<not> isl (run_post demo_api demo_files 0 0 profile_build demo_hooked post_globals0)" by code_simp
  then obtain m2 ps2 where post: "run_post demo_api demo_files 0 0 profile_build demo_hooked post_globals0 = Inr (m2, ps2)"
    by (cases "run_post demo_api demo_files 0 0 profile_build demo_hooked post_globals0") auto
  have typed: "well_typed demo_signatures demo_values demo_source"
    by (simp add: well_typed_def typed_func_def demo_source_def demo_signatures_def demo_values_def accepts_def fixed_type_def)
  obtain sg where sg: "declare_hook_types demo_signatures = Some sg"
    by (simp add: declare_hook_types_def declare_type_def demo_signatures_def)
  then have sg': "sg = demo_signatures(''allocHook'' \<mapsto> allocHook_type, ''reallocHook'' \<mapsto> reallocHook_type,
      ''deallocHook'' \<mapsto> deallocHook_type)"
    by (simp add: declare_hook_types_def declare_type_def demo_signatures_def)
  have "targets_typed sg demo_targets"
    by (simp add: targets_typed_def sg' demo_targets_def demo_signatures_def takes_def fixed_type_def)
  moreover have "replacements_typed sg"
    by (simp add: replacements_typed_def sg' demo_signatures_def AllocReplacementMap_def)
  moreover have "split_keeps_calls demo_api" by (auto simp: split_keeps_calls_def demo_api_def)
  moreover have "dom (result_type demo_values) \<subseteq> {..<next_id demo_pre_state}"
    by (simp add: demo_values_def demo_pre_state_def)
  ultimately have "well_typed sg (with_new (next_id demo_pre_state) demo_values) demo_hooked \<and>
      well_typed sg (with_new (next_id demo_pre_state) demo_values) m2"
    using passes_keep_types [OF run [unfolded m1] post typed _ sg] by (simp add: demo_targets)
  then show ?thesis using run m1 post sg by (auto simp: demo_pre_state_def)
qed

end
