(* ===== verification/Post_Pass_Walk.thy ===== *)
theory Post_Pass_Walk
  imports Post_Pass_Spec
begin

section \<open>What the numbering does to the globals\<close>

text \<open>
  \<open>assignLocalIDs\<close> goes over the functions, their blocks and their instructions. An effect on the
  globals of the pass (messages, counters) that is known for one instruction is known for the whole
  run: the interface \<open>numbering_effect\<close> asks for the single step, and carries it over the three
  loops. The instructions that are visited come with the function, the number the next hook would
  get, and the name of the block.
\<close>

type_synonym visit = "string \<times> nat \<times> string \<times> instr"

fun visits :: "string \<Rightarrow> string \<Rightarrow> nat \<Rightarrow> instr list \<Rightarrow> visit list" where
  "visits fn bb j [] = []"
| "visits fn bb j (i # is) = (fn, j, bb, i) # visits fn bb (if numbered i then Suc j else j) is"

fun block_visits :: "llvm_api \<Rightarrow> func \<Rightarrow> nat \<Rightarrow> label list \<Rightarrow> visit list" where
  "block_visits api f j [] = []"
| "block_visits api f j (l # ls) =
    (case block_of f l of
       None \<Rightarrow> block_visits api f j ls
     | Some b \<Rightarrow>
         visits (fn_name f) (block_name api f b) j (insts_of f l) @
         block_visits api f (j + length (filter numbered (insts_of f l))) ls)"

definition module_visits :: "llvm_api \<Rightarrow> ir_module \<Rightarrow> visit list" where
  "module_visits api m = concat (map (\<lambda>f. block_visits api f 0 (rpo api f)) (worklist m))"

subsection \<open>The interface\<close>

locale numbering_effect =
  fixes api :: llvm_api and opts :: post_options and fm :: fault_map and m :: ir_module
    and E :: "visit list \<Rightarrow> post_globals \<Rightarrow> post_globals \<Rightarrow> bool"
  assumes E_Nil: "E [] ps ps"
    and E_append: "E xs p q \<Longrightarrow> E ys q r \<Longrightarrow> E (xs @ ys) p r"
    and E_inst: "assign_inst api opts fm m fn bb i (of_nat j) ps = Inr (i', lid', ps') \<Longrightarrow> E [(fn, j, bb, i)] ps ps'"
    and E_patch: "patchInstruction a (m', ps) = Inr (m'', ps') \<Longrightarrow> E [] ps ps'"
begin

lemma E_insts:
  "assign_insts api opts fm m fn bb is (of_nat j) ps = Inr (is', lid', ps') \<Longrightarrow> E (visits fn bb j is) ps ps'"
proof (induction "is" arbitrary: j ps is')
  case (Cons i "is")
  then obtain i' lid1 ps1 is2 where one: "assign_inst api opts fm m fn bb i (of_nat j) ps = Inr (i', lid1, ps1)"
    and rest: "assign_insts api opts fm m fn bb is lid1 ps1 = Inr (is2, lid', ps')"
    by (auto simp: and_then_eq_Inr)
  from E_append [OF E_inst [OF one] Cons.IH [OF rest [unfolded assign_inst_spec(2) [OF one]]]]
  show ?case by simp
qed (simp add: E_Nil)

lemma E_blocks:
  "assign_blocks api opts fm m f ls g (of_nat j) ps = Inr (g', ps') \<Longrightarrow> distinct ls \<Longrightarrow>
    set ls \<subseteq> set (map bb_label (fn_blocks f)) \<Longrightarrow> map bb_label (fn_blocks g) = map bb_label (fn_blocks f) \<Longrightarrow>
    \<forall>l\<in>set ls. insts_of g l = insts_of f l \<Longrightarrow> E (block_visits api f j ls) ps ps'"
proof (induction ls arbitrary: g j ps)
  case (Cons l ls)
  from Cons.prems(3) obtain b where b: "block_of f l = Some b" using block_of_label [of l f] by auto
  have "block_of g l \<noteq> None" using Cons.prems(3,4) by (intro block_of_label) auto
  then have set: "insts_of (set_insts l is g) l' = (if l' = l then is else insts_of g l')" for "is" l'
    by (rule insts_of_set_insts)
  have same: "insts_of g l = insts_of f l" using Cons.prems(5) by simp
  from Cons.prems(1) b obtain is' lid1 ps1 where
    one: "assign_insts api opts fm m (fn_name f) (block_name api f b) (insts_of f l) (of_nat j) ps = Inr (is', lid1, ps1)"
    and rest: "assign_blocks api opts fm m f ls (set_insts l is' g) lid1 ps1 = Inr (g', ps')"
    by (auto simp: and_then_eq_Inr same)
  have lid: "lid1 = of_nat (j + length (filter numbered (insts_of f l)))" using assign_insts_spec [OF one] by blast
  have "E (block_visits api f (j + length (filter numbered (insts_of f l))) ls) ps1 ps'"
    by (rule Cons.IH [OF rest [unfolded lid]]) (use Cons.prems(2-5) set in auto)
  from E_append [OF E_insts [OF one] this] show ?case by (simp add: b)
qed (simp add: E_Nil)

lemma E_funcs:
  "assign_funcs api opts fm m fs m' ps = Inr (m'', ps') \<Longrightarrow> \<forall>f\<in>set fs. rpo_ok api f \<Longrightarrow>
    E (concat (map (\<lambda>f. block_visits api f 0 (rpo api f)) fs)) ps ps'"
proof (induction fs arbitrary: m' ps)
  case (Cons f fs)
  then obtain g ps1 where one: "assign_blocks api opts fm m f (rpo api f) f (of_nat 0) ps = Inr (g, ps1)"
    and rest: "assign_funcs api opts fm m fs (replace_func g m') ps1 = Inr (m'', ps')"
    by (auto simp: and_then_eq_Inr assign_func_def)
  have "E (block_visits api f 0 (rpo api f)) ps ps1"
    using Cons.prems(2) by (intro E_blocks [OF one]) (simp_all add: rpo_ok_def)
  from E_append [OF this Cons.IH [OF rest]] Cons.prems(2) show ?case by simp
qed (simp add: E_Nil)

lemma E_patch_all: "patch_all as (m', ps) = Inr (m'', ps') \<Longrightarrow> E [] ps ps'"
proof (induction as arbitrary: m' ps)
  case (Cons a as)
  then obtain m1 ps1 where "patchInstruction a (m', ps) = Inr (m1, ps1)" "patch_all as (m1, ps1) = Inr (m'', ps')"
    by (auto simp: and_then_eq_Inr)
  from E_append [OF E_patch [OF this(1)] Cons.IH [OF this(2)]] show ?case by simp
qed (simp add: E_Nil)

text \<open>The whole run, with the map the profile gives.\<close>

lemma E_run:
  assumes "run_post api fe j1 j2 opts m ps = Inr (m', ps')" and "\<forall>f\<in>set (mod_funcs m). rpo_ok api f"
    and fm: "getFaultingAllocMap fe j1 j2 (MPKProfilePath opts) = Inr fm"
  shows "E (module_visits api m) ps ps'"
proof -
  from assms(1) fm obtain m1 ps1 m2 where a: "assign_funcs api opts fm m (worklist m) m ps = Inr (m1, ps1)"
    and p: "(if MPKProfilePath opts \<noteq> [] then patch_all (patchList ps1) (m1, ps1) else Inr (m1, ps1)) = Inr (m2, ps')"
    by (auto simp: run_post_def assignLocalIDs_def and_then_eq_Inr)
  have "E (module_visits api m) ps ps1"
    unfolding module_visits_def using assms(2) by (intro E_funcs [OF a]) (simp add: set_worklist)
  moreover have "E [] ps1 ps'" using p E_patch_all E_Nil by (auto split: if_splits)
  ultimately show ?thesis using E_append [of _ ps ps1 "[]" ps'] by simp
qed

end

subsection \<open>The visited hooks\<close>

text \<open>What is read off the visits of a function alone, hook by hook and instruction by instruction.\<close>

lemma visits_hooks:
  "concat (map (\<lambda>(fn, j, bb, i). if numbered i then h fn (j, bb, i) else []) (visits fn bb j is)) =
    concat (map (h fn) (enumerate j (map (Pair bb) (filter numbered is))))"
  by (induction "is" arbitrary: j) auto

lemma block_visits_hooks:
  "concat (map (\<lambda>(fn, j, bb, i). if numbered i then h fn (j, bb, i) else []) (block_visits api f j ls)) =
    concat (map (h (fn_name f)) (enumerate j (hook_seq api f ls f)))"
proof (induction ls arbitrary: j)
  case (Cons l ls)
  show ?case
  proof (cases "block_of f l")
    case None
    then show ?thesis using Cons by (simp add: hook_seq_def)
  next
    case (Some b)
    have "concat (map (\<lambda>(fn, j, bb, i). if numbered i then h fn (j, bb, i) else []) (block_visits api f j (l # ls))) =
        concat (map (h (fn_name f)) (enumerate j (map (Pair (block_name api f b)) (filter numbered (insts_of f l))))) @
        concat (map (h (fn_name f)) (enumerate (j + length (filter numbered (insts_of f l))) (hook_seq api f ls f)))"
      unfolding visits_hooks [symmetric] Cons [symmetric] by (simp add: Some)
    then show ?thesis by (simp add: hook_seq_Cons [OF Some] concat_map_enumerate_append)
  qed
qed (simp add: hook_seq_def)

lemma module_visits_hooks:
  "concat (map (\<lambda>(fn, j, bb, i). if numbered i then h fn (j, bb, i) else []) (module_visits api m)) =
    concat (map (\<lambda>f. concat (map (h (fn_name f)) (enumerate 0 (hook_seq api f (rpo api f) f)))) (worklist m))"
proof -
  have "concat (map k (concat xss)) = concat (map (\<lambda>xs. concat (map k xs)) xss)" for k :: "visit \<Rightarrow> 'a list" and xss
    by (induction xss) auto
  then show ?thesis unfolding module_visits_def block_visits_hooks [symmetric] by (simp add: o_def)
qed

lemma visits_insts: "map (\<lambda>(fn, j, bb, i). i) (visits fn bb j is) = is"
  by (induction "is" arbitrary: j) auto

lemma block_visits_insts:
  "set ls \<subseteq> set (map bb_label (fn_blocks f)) \<Longrightarrow>
    map (\<lambda>(fn, j, bb, i). i) (block_visits api f j ls) = concat (map (insts_of f) ls)"
proof (induction ls arbitrary: j)
  case (Cons l ls)
  then obtain b where b: "block_of f l = Some b" using block_of_label [of l f] by auto
  have "map (\<lambda>(fn, j, bb, i). i) (block_visits api f j (l # ls)) =
      map (\<lambda>(fn, j, bb, i). i) (visits (fn_name f) (block_name api f b) j (insts_of f l)) @
      map (\<lambda>(fn, j, bb, i). i) (block_visits api f (j + length (filter numbered (insts_of f l))) ls)"
    by (simp add: b)
  then show ?case using Cons unfolding visits_insts by simp
qed simp

lemma module_visits_insts:
  assumes "\<forall>f\<in>set (mod_funcs m). rpo_ok api f"
  shows "map (\<lambda>(fn, j, bb, i). i) (module_visits api m) = concat (map (\<lambda>f. concat (map (insts_of f) (rpo api f))) (worklist m))"
  unfolding module_visits_def map_concat map_map
  using assms by (intro arg_cong [where f = concat] map_cong refl) (simp add: set_worklist rpo_ok_def block_visits_insts)

end
