(* ===== verification/Hook_Counts.thy ===== *)
theory Hook_Counts
  imports Pre_Pass_Invokes Pipeline Post_Pass_Walk
begin

section \<open>The counters of the passes\<close>

text \<open>
  The pre pass counts the hooks it inserts, the post pass the hooks it meets, so that a reader of the
  two statistics files can see that none was lost in between. Here both counters are compared with
  the hook calls of the module.
\<close>

subsection \<open>Hooks the pre pass inserts\<close>

lemma is_hook_strip: "is_hook (strip i) = is_hook i"
proof (cases i)
  case (CallBase n k c as)
  then show ?thesis using called_function_kind [of n k c as "strip_kind k"] by (simp add: is_hook_def)
qed simp

lemma new_hook_names: "(c, xs) \<in># new_hook ts i \<Longrightarrow> is_hook (CallBase n k c xs)"
  by (cases "(ts, i)" rule: hook_for.cases) (auto simp: is_hook_def split: if_splits)

lemma new_hooks_names: "(c, xs) \<in># new_hooks ts is \<Longrightarrow> is_hook (CallBase n k c xs)"
  by (induction "is") (auto intro: new_hook_names)

lemma sum_hooks_names: "(c, xs) \<in># sum_list (map (\<lambda>l. new_hooks ts (insts_of f l)) ls) \<Longrightarrow> is_hook (CallBase n k c xs)"
  by (induction ls) (auto intro: new_hooks_names)

lemma new_calls_mem: "CallBase n k c xs \<in> set is \<Longrightarrow> N \<le> n \<Longrightarrow> (c, xs) \<in># new_calls N is"
  by (induction "is") auto

lemma size_new_calls:
  "(\<And>x. x \<in> set is \<Longrightarrow> is_hook x \<longleftrightarrow> new_call N x \<noteq> {#}) \<Longrightarrow> size (new_calls N is) = length (filter is_hook is)"
proof (induction "is")
  case (Cons i "is")
  have "size (new_call N i) = (if is_hook i then 1 else 0)"
    using Cons.prems [of i] by (cases "(N, i)" rule: new_call.cases) auto
  then show ?case using Cons by simp
qed simp

lemma func_calls_list:
  "distinct (map bb_label (fn_blocks g)) \<Longrightarrow>
    func_calls N g = (\<Sum>l\<leftarrow>map bb_label (fn_blocks g). new_calls N (insts_of g l))"
  unfolding func_calls_def labels_def by (metis list.set_map sum.distinct_set_conv_list)

lemma size_sum_list: "size (sum_list xs) = sum_list (map size xs)" for xs :: "'a multiset list"
  by (induction xs) auto

lemma func_hook_count:
  assumes "func_instrumented api ts N f g" and "\<forall>l\<in>labels f. \<forall>i\<in>set (insts_of f l). \<not> is_hook i"
  shows "size (func_calls N g) = length (filter is_hook (concat (map bb_insts (fn_blocks g))))"
proof -
  have dist: "distinct (map bb_label (fn_blocks g))" using assms(1) by (simp add: func_instrumented_def)
  have hook: "is_hook x \<longleftrightarrow> new_call N x \<noteq> {#}" if l: "l \<in> labels g" and x: "x \<in> set (insts_of g l)" for l x
  proof (cases "N \<le> inst_id x")
    case True
    show ?thesis
    proof (cases x)
      case (CallBase n k c xs)
      then have "(c, xs) \<in># new_calls N (insts_of g l)" using x True by (intro new_calls_mem) auto
      then have "(c, xs) \<in># func_calls N g" using l unfolding func_calls_def by (auto simp: set_mset_sum)
      then have "is_hook x"
        using assms(1) unfolding CallBase func_instrumented_def by (metis sum_hooks_names)
      then show ?thesis using True CallBase by simp
    qed (simp add: is_hook_def)
  next
    case False
    then have old: "l \<in> labels f" using assms(1) l x by (auto simp: func_instrumented_def)
    then have "map strip (filter (\<lambda>x. inst_id x < N) (insts_of g l)) = map strip (insts_of f l)"
      using assms(1) by (simp add: func_instrumented_def)
    moreover have "strip x \<in> set (map strip (filter (\<lambda>x. inst_id x < N) (insts_of g l)))" using x False by auto
    ultimately have "strip x \<in> set (map strip (insts_of f l))" by (rule subst)
    then obtain y where "y \<in> set (insts_of f l)" "strip x = strip y" by (metis imageE list.set_map)
    then have "\<not> is_hook x" using assms(2) old is_hook_strip by metis
    moreover have "new_call N x = {#}" using False by (cases x) simp_all
    ultimately show ?thesis by simp
  qed
  have "size (func_calls N g) = (\<Sum>l\<leftarrow>map bb_label (fn_blocks g). size (new_calls N (insts_of g l)))"
    unfolding func_calls_list [OF dist] size_sum_list by (simp add: o_def)
  also have "\<dots> = (\<Sum>l\<leftarrow>map bb_label (fn_blocks g). length (filter is_hook (insts_of g l)))"
    using hook by (intro arg_cong [where f = sum_list] map_cong refl size_new_calls) (auto simp: labels_def)
  also have "\<dots> = length (filter is_hook (concat (map bb_insts (fn_blocks g))))"
    unfolding blocks_by_label [OF dist] by (simp add: filter_concat length_concat o_def)
  finally show ?thesis .
qed

lemma pre_hook_count:
  assumes "list_all2 (\<lambda>f g. if is_declaration f then g = f else func_instrumented api ts N f g) fs gs"
    and "\<forall>f\<in>set fs. \<forall>b\<in>set (fn_blocks f). \<forall>i\<in>set (bb_insts b). \<not> is_hook i"
  shows "(\<Sum>g\<leftarrow>gs. size (func_calls N g)) = length (filter is_hook (concat (map (\<lambda>g. concat (map bb_insts (fn_blocks g))) gs)))"
  using assms
proof (induction rule: list_all2_induct)
  case (Cons f fs g gs)
  have "size (func_calls N g) = length (filter is_hook (concat (map bb_insts (fn_blocks g))))"
  proof (cases "is_declaration f")
    case True
    then show ?thesis using Cons.hyps(1) by (simp add: func_calls_def labels_def is_declaration_def)
  next
    case False
    have "\<forall>l\<in>labels f. \<forall>i\<in>set (insts_of f l). \<not> is_hook i"
      using Cons.prems by (auto simp: insts_of_def block_of_def split: option.splits dest: find_Some_mem [OF sym])
    then show ?thesis using func_hook_count Cons.hyps(1) False by simp
  qed
  then show ?case using Cons by simp
qed simp

subsection \<open>Hooks the post pass meets\<close>

text \<open>The counters of a part of the run that met \<open>k\<close> hooks; the three kinds add up.\<close>

definition met :: "nat \<Rightarrow> post_globals \<Rightarrow> post_globals \<Rightarrow> bool" where
  "met k ps ps' \<longleftrightarrow>
    total_hooks ps' = total_hooks ps + of_nat k \<and>
    n_allocHook (hookCountMap ps') + n_reallocHook (hookCountMap ps') + n_deallocHook (hookCountMap ps') =
    n_allocHook (hookCountMap ps) + n_reallocHook (hookCountMap ps) + n_deallocHook (hookCountMap ps) + int k"

lemma met_refl [simp]: "met 0 ps ps"
  by (simp add: met_def)

lemma met_trans: "met j p q \<Longrightarrow> met k q r \<Longrightarrow> met (j + k) p r"
  by (simp add: met_def)

lemma met_collect: "collect_patch api fm m fn bb lid as ps = Inr ps' \<Longrightarrow> met 0 ps ps'"
  by (auto simp: collect_patch_def met_def and_then_eq_Inr Let_def
      split: option.splits list.splits operand.splits instr.splits if_splits)

lemma met_inst:
  assumes "assign_inst api opts fm m fn bb i lid ps = Inr (i', lid', ps')"
  shows "met (if is_hook i then 1 else 0) ps ps'"
proof (cases "\<exists>n k h as x. i = CallBase n k (Func h) as \<and> patchArgIndexMap h = Some x")
  case False
  then have "ps' = ps \<and> \<not> is_hook i"
    using assms by (cases i; cases "callee i") (auto simp: is_hook_def patchArgIndexMap_def split: if_splits)
  then show ?thesis by simp
next
  case True
  then obtain n k h as x where i: "i = CallBase n k (Func h) as" "patchArgIndexMap h = Some x" by blast
  let ?ps = "register_hook opts h n ps"
  have "is_hook i" using i by (auto simp: is_hook_def patchArgIndexMap_def split: if_splits)
  moreover have "met 1 ps ?ps"
    using i(2) by (auto simp: register_hook_def met_def count_hook_def patchArgIndexMap_def Let_def split: if_splits)
  moreover have "met 0 ?ps ps'"
    using assms by (auto simp: i Let_def and_then_eq_Inr split: if_splits dest: met_collect)
  ultimately show ?thesis using met_trans [of 1 ps ?ps 0 ps'] by simp
qed

lemma met_patch: "patchInstruction a (m, ps) = Inr (m', ps') \<Longrightarrow> met 0 ps ps'"
  by (auto simp: patchInstruction_def met_def split: option.splits instr.splits callee.splits if_splits)

definition met_visits :: "visit list \<Rightarrow> post_globals \<Rightarrow> post_globals \<Rightarrow> bool" where
  "met_visits xs = met (length (filter is_hook (map (\<lambda>(fn, j, bb, i). i) xs)))"

interpretation counting: numbering_effect api opts fm m met_visits for api opts fm m
proof unfold_locales
  show "met_visits [] ps ps" for ps by (simp add: met_visits_def)
  show "met_visits xs p q \<Longrightarrow> met_visits ys q r \<Longrightarrow> met_visits (xs @ ys) p r" for xs ys p q r
    using met_trans by (simp add: met_visits_def)
  show "assign_inst api opts fm m fn bb i (of_nat j) ps = Inr (i', lid', ps') \<Longrightarrow> met_visits [(fn, j, bb, i)] ps ps'"
    for fn bb i j ps i' lid' ps'
    using met_inst [of api opts fm m fn bb i "of_nat j" ps i' lid' ps'] by (simp add: met_visits_def split: if_splits)
  show "patchInstruction a (m', ps) = Inr (m'', ps') \<Longrightarrow> met_visits [] ps ps'" for a m' ps m'' ps'
    using met_patch by (simp add: met_visits_def)
qed

text \<open>Every hook call lies in a block that is visited.\<close>

definition hooks_visited :: "llvm_api \<Rightarrow> ir_module \<Rightarrow> bool" where
  "hooks_visited api m \<longleftrightarrow>
    (\<forall>f\<in>set (mod_funcs m). \<forall>b\<in>set (fn_blocks f). bb_label b \<notin> set (rpo api f) \<longrightarrow> \<not> list_ex is_hook (bb_insts b))"

lemma visited_count:
  assumes "distinct (map bb_label (fn_blocks f))" and "rpo_ok api f"
    and "\<forall>b\<in>set (fn_blocks f). bb_label b \<notin> set (rpo api f) \<longrightarrow> \<not> list_ex is_hook (bb_insts b)"
  shows "(\<Sum>l\<leftarrow>rpo api f. length (filter is_hook (insts_of f l))) = length (filter is_hook (concat (map bb_insts (fn_blocks f))))"
proof -
  let ?h = "\<lambda>l. length (filter is_hook (insts_of f l))"
  let ?ls = "map bb_label (fn_blocks f)"
  have none: "?h l = 0" if l: "l \<in> set ?ls" "l \<notin> set (rpo api f)" for l
  proof -
    obtain b where b: "b \<in> set (fn_blocks f)" "bb_label b = l" using l(1) by auto
    then have "\<not> list_ex is_hook (bb_insts b)" using assms(3) l(2) by blast
    then show ?thesis using insts_of_block [OF b(1) assms(1)] b(2) by (simp add: filter_False list_ex_iff)
  qed
  have rpo: "distinct (rpo api f)" "set (rpo api f) \<subseteq> set ?ls" using assms(2) by (simp_all add: rpo_ok_def)
  have "sum_list (map ?h (rpo api f)) = sum ?h (set (rpo api f))" using rpo(1) by (simp add: sum_list_distinct_conv_sum_set)
  also have "\<dots> = sum ?h (set ?ls)" using rpo(2) none by (intro sum.mono_neutral_left) auto
  also have "\<dots> = sum_list (map ?h ?ls)" using assms(1) by (simp only: sum_list_distinct_conv_sum_set)
  finally show ?thesis
    unfolding blocks_by_label [OF assms(1)] by (simp add: filter_concat length_concat o_def)
qed

lemma worklist_sum:
  assumes "\<And>f. is_declaration f \<Longrightarrow> h f = 0"
  shows "(\<Sum>f\<leftarrow>worklist m. h f) = (\<Sum>f\<leftarrow>mod_funcs m. h f :: nat)"
proof -
  have "(\<Sum>f\<leftarrow>worklist m. h f) = sum_mset (image_mset h (mset (worklist m)))" by (simp add: sum_mset_sum_list [symmetric])
  also have "mset (worklist m) = mset (filter (\<lambda>f. \<not> is_declaration f) (mod_funcs m))" by (simp add: worklist_def)
  also have "sum_mset (image_mset h \<dots>) = (\<Sum>f\<leftarrow>filter (\<lambda>f. \<not> is_declaration f) (mod_funcs m). h f)"
    by (simp only: sum_mset_sum_list [symmetric] mset_map)
  also have "\<dots> = (\<Sum>f\<leftarrow>mod_funcs m. h f)"
    using assms by (intro sum_list_map_filter) simp
  finally show ?thesis .
qed

lemma post_hook_count:
  assumes "run_post api fe j1 j2 opts m ps = Inr (m', ps')" and "\<forall>f\<in>set (mod_funcs m). rpo_ok api f"
    and "\<forall>f\<in>set (mod_funcs m). distinct (map bb_label (fn_blocks f))" and "hooks_visited api m"
  shows "met (length (filter is_hook (all_insts m))) ps ps'"
proof -
  obtain fm where "getFaultingAllocMap fe j1 j2 (MPKProfilePath opts) = Inr fm"
    using assms(1) by (auto simp: run_post_def assignLocalIDs_def and_then_eq_Inr)
  from counting.E_run [OF assms(1,2) this]
  have met: "met (length (filter is_hook (concat (map (\<lambda>f. concat (map (insts_of f) (rpo api f))) (worklist m))))) ps ps'"
    unfolding met_visits_def module_visits_insts [OF assms(2)] .
  let ?h = "\<lambda>f. \<Sum>l\<leftarrow>rpo api f. length (filter is_hook (insts_of f l))"
  have "length (filter is_hook (concat (map (\<lambda>f. concat (map (insts_of f) (rpo api f))) (worklist m)))) =
      (\<Sum>f\<leftarrow>worklist m. ?h f)"
    by (simp add: filter_concat length_concat o_def)
  also have "\<dots> = (\<Sum>f\<leftarrow>mod_funcs m. ?h f)"
    by (rule worklist_sum) (simp add: is_declaration_def insts_of_def block_of_def)
  also have "map ?h (mod_funcs m) = map (\<lambda>f. length (filter is_hook (concat (map bb_insts (fn_blocks f))))) (mod_funcs m)"
    using assms(2-4) visited_count by (intro map_cong refl) (simp add: hooks_visited_def)
  also have "sum_list \<dots> = length (filter is_hook (all_insts m))"
    by (simp add: all_insts_def filter_concat length_concat o_def)
  finally show ?thesis using met by simp
qed

subsection \<open>Property\<close>

text \<open>C12: Over the whole build, the number of hooks in the statistics of the post pass is the number
  in those of the pre pass, and both are the number of hook calls in the module between the two passes,
  modulo \<open>2 ^ 64\<close>: no hook gets lost, whatever kinds of call the targets are called by and whatever
  edges are split. The counters by kind add up to the total. The hooks must lie in blocks the second
  traversal visits, and the source must be free of hook calls.\<close>

theorem hook_counts_agree:
  assumes "run_pre api env opts m ps = Some (Inr (m1, ps1))" and "hook_count ps = 0"
    and "run_post api' fe j1 j2 popts m1 post_globals0 = Inr (m2, ps2)"
    and "no_hook_target (find_targets (read_options env opts) m)" and "insertion_ok api" and "split_ok api (next_id ps)"
    and "\<forall>f\<in>set (mod_funcs m). \<not> is_declaration f \<longrightarrow> func_input_ok api (find_targets (read_options env opts) m) (next_id ps) f"
    and "no_hooks m" and "\<forall>f\<in>set (mod_funcs m1). rpo_ok api' f" and "hooks_visited api' m1"
  shows "total_hooks ps2 = hook_count ps1 \<and> hook_count ps1 = of_nat (length (filter is_hook (all_insts m1))) \<and>
    total_hooks ps2 = of_int (n_allocHook (hookCountMap ps2) + n_reallocHook (hookCountMap ps2) + n_deallocHook (hookCountMap ps2))"
proof -
  let ?ts = "find_targets (read_options env opts) m" and ?N = "next_id ps"
  have rel: "list_all2 (\<lambda>f g. if is_declaration f then g = f else func_instrumented api ?ts ?N f g)
      (mod_funcs (declare_hooks m)) (mod_funcs m1)"
    and count: "hook_count ps1 = of_nat (\<Sum>g\<leftarrow>mod_funcs m1. size (func_calls ?N g))"
    using run_pre_instruments [OF refl assms(4-7)] assms(1,2) by simp_all
  obtain ds where "mod_funcs (declare_hooks m) = mod_funcs m @ ds" "\<forall>d\<in>set ds. is_declaration d"
    using declare_hooks_keeps(2) by blast
  then have "\<forall>f\<in>set (mod_funcs (declare_hooks m)). \<forall>b\<in>set (fn_blocks f). \<forall>i\<in>set (bb_insts b). \<not> is_hook i"
    using assms(8) by (auto simp: no_hooks_def all_insts_def is_declaration_def)
  from pre_hook_count [OF rel this]
  have pre: "hook_count ps1 = of_nat (length (filter is_hook (all_insts m1)))" by (simp add: count all_insts_def)
  have "distinct (map bb_label (fn_blocks g))" if g: "g \<in> set (mod_funcs m1)" for g
    using list_all2_mem2 [OF rel g] by (auto simp: func_instrumented_def is_declaration_def split: if_splits)
  then have "met (length (filter is_hook (all_insts m1))) post_globals0 ps2"
    by (intro post_hook_count [OF assms(3,9) _ assms(10)]) blast
  then show ?thesis using pre by (simp add: met_def post_globals0_def)
qed

theorem hook_counts_agree_witness:
  "\<exists>m1 ps1 m2 ps2. run_pre (critical_edges_api 5) (\<lambda>_. None) no_options invoke_source demo_pre_state = Some (Inr (m1, ps1)) \<and>
    run_post (critical_edges_api 5) demo_files 0 0 hook_build m1 post_globals0 = Inr (m2, ps2) \<and>
    total_hooks ps2 = 3 \<and> hook_count ps1 = 3"
proof -
  let ?run = "run_pre (critical_edges_api 5) (\<lambda>_. None) no_options invoke_source demo_pre_state"
  let ?post = "\<lambda>m. run_post (critical_edges_api 5) demo_files 0 0 hook_build m post_globals0"
  have ts: "find_targets (read_options (\<lambda>_. None) no_options) invoke_source = demo_targets" by code_simp
  have "case ?run of Some (Inr (m, _)) \<Rightarrow> \<not> isl (?post m) \<and>
      (\<forall>f\<in>set (mod_funcs m). rpo_ok (critical_edges_api 5) f) \<and> hooks_visited (critical_edges_api 5) m \<and>
      length (filter is_hook (all_insts m)) = 3 | _ \<Rightarrow> False" by code_simp
  then obtain m1 ps1 where run: "?run = Some (Inr (m1, ps1))" and post: "\<not> isl (?post m1)"
    and rpo: "\<forall>f\<in>set (mod_funcs m1). rpo_ok (critical_edges_api 5) f" and visited: "hooks_visited (critical_edges_api 5) m1"
    and three: "length (filter is_hook (all_insts m1)) = 3"
    by (auto split: option.splits sum.splits)
  from post obtain m2 ps2 where m2: "?post m1 = Inr (m2, ps2)" by (cases "?post m1") auto
  have "no_hooks invoke_source" by code_simp
  moreover have "no_hook_target demo_targets" by (simp add: no_hook_target_def demo_targets_def)
  moreover have "hook_count demo_pre_state = 0" "next_id demo_pre_state = 5" by (simp_all add: demo_pre_state_def)
  ultimately have "total_hooks ps2 = hook_count ps1 \<and> hook_count ps1 = of_nat (length (filter is_hook (all_insts m1)))"
    using hook_counts_agree [OF run _ m2, unfolded ts] critical_edges_api_ok [of 5] invoke_source_ok rpo visited by simp
  then show ?thesis using run m2 three by simp
qed

end
