(* ===== verification/Build.thy ===== *)
theory Build
  imports Pipeline
begin

section \<open>A run of the compiler\<close>

text \<open>
  Both passes are plugins of the compiler: \<open>llvmGetPassPluginInfo\<close> of each registers a callback
  that adds its pass at the start of the pipeline, in the order the plugins are given on the command
  line. The constructor of the post pass reads its options when the pass is added. A compiler process
  here is its list of passes, run over one module; what other passes do is a parameter.
\<close>

subsection \<open>The plugins\<close>

datatype module_pass = PrePass | PostPass post_options | OtherPass nat

type_synonym start_callback = "environment \<Rightarrow> module_pass list \<Rightarrow> pass_error + module_pass list"

record PassBuilder =
  PipelineStartEPCallbacks :: "start_callback list"

definition registerPipelineStartEPCallback :: "start_callback \<Rightarrow> PassBuilder \<Rightarrow> PassBuilder" where
  "registerPipelineStartEPCallback c PB = PB\<lparr>PipelineStartEPCallbacks := PipelineStartEPCallbacks PB @ [c]\<rparr>"

definition pre_plugin :: "PassBuilder \<Rightarrow> PassBuilder" where
  "pre_plugin = registerPipelineStartEPCallback (\<lambda>env MPM. Inr (MPM @ [PrePass]))"

definition post_plugin :: "PassBuilder \<Rightarrow> PassBuilder" where
  "post_plugin =
    registerPipelineStartEPCallback (\<lambda>env MPM. and_then (ProvsanPost env [] False) (\<lambda>pass. Inr (MPM @ [PostPass pass])))"

text \<open>The callbacks of the start of the pipeline run before any other pass is added.\<close>

fun run_callbacks :: "environment \<Rightarrow> start_callback list \<Rightarrow> module_pass list \<Rightarrow> pass_error + module_pass list" where
  "run_callbacks env [] MPM = Inr MPM"
| "run_callbacks env (c # cs) MPM = and_then (c env MPM) (run_callbacks env cs)"

definition build_pipeline :: "environment \<Rightarrow> (PassBuilder \<Rightarrow> PassBuilder) list \<Rightarrow> nat list \<Rightarrow> pass_error + module_pass list" where
  "build_pipeline env plugins later =
    and_then (run_callbacks env (PipelineStartEPCallbacks (fold (\<lambda>p. p) plugins \<lparr>PipelineStartEPCallbacks = []\<rparr>)) [])
      (\<lambda>MPM. Inr (MPM @ map OtherPass later))"

subsection \<open>Running the passes\<close>

text \<open>The options for tests, with the values they have when they are not given.\<close>

record test_options =
  MPKTestProfilePath :: string
  MPKTestRemoveHooks :: bool

definition test_options0 :: test_options where
  "test_options0 = \<lparr>MPKTestProfilePath = [], MPKTestRemoveHooks = False\<rparr>"

record toolchain =
  tc_api :: llvm_api
  tc_files :: file_env
  tc_unset :: "i64 \<times> i64" \<comment> \<open>what the uninitialised numbers of \<open>fromJSON\<close> hold\<close>
  tc_other :: "nat \<Rightarrow> ir_module \<Rightarrow> ir_module"

type_synonym compile_state = "ir_module \<times> pre_state \<times> post_globals"

fun run_pass ::
    "toolchain \<Rightarrow> environment \<Rightarrow> pre_options \<Rightarrow> test_options \<Rightarrow> module_pass \<Rightarrow> compile_state
      \<Rightarrow> (pass_error + compile_state) option" where
  "run_pass tc env preopts topts PrePass (m, ps, gs) =
    map_option (map_sum id (\<lambda>(m, ps). (m, ps, gs))) (run_pre (tc_api tc) env preopts m ps)"
| "run_pass tc env preopts topts (PostPass pass) (m, ps, gs) =
    Some (map_sum id (\<lambda>(m, gs). (m, ps, gs))
      (run_post (tc_api tc) (tc_files tc) (fst (tc_unset tc)) (snd (tc_unset tc))
        (apply_test_flags (MPKTestProfilePath topts) (MPKTestRemoveHooks topts) pass) m gs))"
| "run_pass tc env preopts topts (OtherPass k) (m, ps, gs) = Some (Inr (tc_other tc k m, ps, gs))"

fun run_passes ::
    "toolchain \<Rightarrow> environment \<Rightarrow> pre_options \<Rightarrow> test_options \<Rightarrow> module_pass list \<Rightarrow> compile_state
      \<Rightarrow> (pass_error + compile_state) option" where
  "run_passes tc env preopts topts [] s = Some (Inr s)"
| "run_passes tc env preopts topts (p # passes) s =
    (case run_pass tc env preopts topts p s of
       None \<Rightarrow> None
     | Some (Inl e) \<Rightarrow> Some (Inl e)
     | Some (Inr s') \<Rightarrow> run_passes tc env preopts topts passes s')"

definition compile ::
    "toolchain \<Rightarrow> environment \<Rightarrow> pre_options \<Rightarrow> test_options \<Rightarrow> (PassBuilder \<Rightarrow> PassBuilder) list \<Rightarrow> nat list
      \<Rightarrow> compile_state \<Rightarrow> (pass_error + compile_state) option" where
  "compile tc env preopts topts plugins later s =
    (case build_pipeline env plugins later of
       Inl e \<Rightarrow> Some (Inl e)
     | Inr MPM \<Rightarrow> run_passes tc env preopts topts MPM s)"

lemma apply_no_test_flags [simp]: "apply_test_flags (MPKTestProfilePath test_options0) (MPKTestRemoveHooks test_options0) p = p"
  by (simp add: apply_test_flags_def test_options0_def)

lemma run_others:
  "run_passes tc env preopts topts (map OtherPass ks) (m, ps, gs) = Some (Inr (fold (tc_other tc) ks m, ps, gs))"
  by (induction ks arbitrary: m) auto

lemma plugins_pre_post:
  "build_pipeline env [pre_plugin, post_plugin] later =
    map_sum id (\<lambda>pass. PrePass # PostPass pass # map OtherPass later) (ProvsanPost env [] False)"
  by (cases "ProvsanPost env [] False")
     (simp_all add: build_pipeline_def pre_plugin_def post_plugin_def registerPipelineStartEPCallback_def)

lemma plugins_post_pre:
  "build_pipeline env [post_plugin, pre_plugin] later =
    map_sum id (\<lambda>pass. PostPass pass # PrePass # map OtherPass later) (ProvsanPost env [] False)"
  by (cases "ProvsanPost env [] False")
     (simp_all add: build_pipeline_def pre_plugin_def post_plugin_def registerPipelineStartEPCallback_def)

text \<open>With the plugins in the order of the manual the two passes run in a row, before all later.\<close>

lemma compile_pre_post:
  assumes "compile tc env preopts test_options0 [pre_plugin, post_plugin] later (m, ps, gs) = Some (Inr (m', ps', gs'))"
    and "ProvsanPost env [] False = Inr popts"
  obtains m1 m2 where "run_pre (tc_api tc) env preopts m ps = Some (Inr (m1, ps'))"
    "run_post (tc_api tc) (tc_files tc) (fst (tc_unset tc)) (snd (tc_unset tc)) popts m1 gs = Inr (m2, gs')"
    "m' = fold (tc_other tc) later m2"
proof -
  let ?post = "\<lambda>m. run_post (tc_api tc) (tc_files tc) (fst (tc_unset tc)) (snd (tc_unset tc)) popts m gs"
  obtain m1 ps1 where pre: "run_pre (tc_api tc) env preopts m ps = Some (Inr (m1, ps1))"
    using assms by (auto simp: compile_def plugins_pre_post map_sum_eq_Inr split: option.splits sum.splits)
  moreover obtain m2 gs1 where "?post m1 = Inr (m2, gs1)"
    using assms pre by (cases "?post m1") (auto simp: compile_def plugins_pre_post)
  ultimately show ?thesis
    using assms that by (simp add: compile_def plugins_pre_post run_others)
qed

lemma compile_post_pre:
  assumes "compile tc env preopts test_options0 [post_plugin, pre_plugin] later (m, ps, gs) = Some (Inr (m', ps', gs'))"
    and "ProvsanPost env [] False = Inr popts"
  obtains m1 m2 where "run_post (tc_api tc) (tc_files tc) (fst (tc_unset tc)) (snd (tc_unset tc)) popts m gs = Inr (m1, gs')"
    "run_pre (tc_api tc) env preopts m1 ps = Some (Inr (m2, ps'))" "m' = fold (tc_other tc) later m2"
proof -
  let ?post = "run_post (tc_api tc) (tc_files tc) (fst (tc_unset tc)) (snd (tc_unset tc)) popts m gs"
  obtain m1 gs1 where post: "?post = Inr (m1, gs1)"
    using assms by (cases ?post) (auto simp: compile_def plugins_post_pre)
  moreover obtain m2 ps1 where "run_pre (tc_api tc) env preopts m1 ps = Some (Inr (m2, ps1))"
    using assms post by (auto simp: compile_def plugins_post_pre map_sum_eq_Inr split: option.splits sum.splits)
  ultimately show ?thesis
    using assms that by (simp add: compile_def plugins_post_pre run_others)
qed

subsection \<open>The build with a profile\<close>

text \<open>The variables of the manual: \<open>PROVSAN_PATH\<close> names the profiles, \<open>PROVSAN_HOOK=1\<close> removes the hooks.\<close>

lemma options_from_variables:
  "env ''PROVSAN_PATH'' = Some path \<Longrightarrow> env ''PROVSAN_HOOK'' = Some ''1'' \<Longrightarrow>
    ProvsanPost env [] False = Inr \<lparr>MPKProfilePath = path, RemoveHooks = True\<rparr>"
  "env ''PROVSAN_PATH'' = None \<Longrightarrow> env ''PROVSAN_HOOK'' = None \<Longrightarrow>
    ProvsanPost env [] False = Inr \<lparr>MPKProfilePath = [], RemoveHooks = False\<rparr>"
proof -
  have "stoi ''1'' = Inr 1" by code_simp
  then show "env ''PROVSAN_PATH'' = Some path \<Longrightarrow> env ''PROVSAN_HOOK'' = Some ''1'' \<Longrightarrow>
    ProvsanPost env [] False = Inr \<lparr>MPKProfilePath = path, RemoveHooks = True\<rparr>"
    by (simp add: ProvsanPost_def)
  show "env ''PROVSAN_PATH'' = None \<Longrightarrow> env ''PROVSAN_HOOK'' = None \<Longrightarrow>
    ProvsanPost env [] False = Inr \<lparr>MPKProfilePath = [], RemoveHooks = False\<rparr>"
    by (simp add: ProvsanPost_def)
qed

text \<open>LLVM's traversal of a function whose labels are unique.\<close>

definition traversal_ok :: "llvm_api \<Rightarrow> bool" where
  "traversal_ok api \<longleftrightarrow> (\<forall>f. distinct (map bb_label (fn_blocks f)) \<longrightarrow> rpo_ok api f)"

lemma traversal_well_formed: "traversal_ok api \<Longrightarrow> well_formed m \<Longrightarrow> \<forall>f\<in>set (mod_funcs m). rpo_ok api f"
  by (simp add: traversal_ok_def well_formed_def)

text \<open>C3: The compiler, run as the manual says for using a profile (plugins in order, \<open>PROVSAN_PATH\<close> and
  \<open>PROVSAN_HOOK=1\<close>), hands to all later passes the source program itself: all its instructions in
  their order, no others, and the same except that the blamed allocation calls are redirected. This is
  for a source that calls the functions to hook by plain calls, with enough arguments and not last in
  their block, names no hook as a target, has no hook calls yet and calls only functions of the
  module, and for a traversal that visits a block once. (For a target called by an \<open>invoke\<close>
  the edge to its normal destination may have been split, and the new block with its branch stays in the
  program.)\<close>

theorem report_build_redirects_only:
  assumes "compile tc env preopts test_options0 [pre_plugin, post_plugin] later (m, ps, post_globals0) =
      Some (Inr (m', ps', gs'))"
    and "env ''PROVSAN_PATH'' = Some path" and "path \<noteq> []" and "env ''PROVSAN_HOOK'' = Some ''1''"
    and "pre_input_ok (tc_api tc) (find_targets (read_options env preopts) m) m ps" and "no_hooks m" and "callees_known m"
    and "getFaultingAllocMap (tc_files tc) (fst (tc_unset tc)) (snd (tc_unset tc)) path = Inr fm"
    and "traversal_ok (tc_api tc)"
  shows "\<exists>m1 m2. run_pre (tc_api tc) env preopts m ps = Some (Inr (m1, ps')) \<and> m' = fold (tc_other tc) later m2 \<and>
    all_insts m2 = map (\<lambda>i. if blamed (tc_api tc) fm m1 (inst_id i) then retarget m1 i else i) (all_insts m)"
proof -
  let ?opts = "\<lparr>MPKProfilePath = path, RemoveHooks = True\<rparr>"
  obtain m1 m2 where pre: "run_pre (tc_api tc) env preopts m ps = Some (Inr (m1, ps'))"
    and post: "run_post (tc_api tc) (tc_files tc) (fst (tc_unset tc)) (snd (tc_unset tc)) ?opts m1 post_globals0 = Inr (m2, gs')"
    and m': "m' = fold (tc_other tc) later m2"
    by (rule compile_pre_post [OF assms(1) options_from_variables(1) [OF assms(2,4)]])
  have "well_formed m1" using run_pre_result [OF refl assms(5)] pre by simp
  note rpo = traversal_well_formed [OF assms(9) this]
  have "all_insts m2 = map (\<lambda>i. if blamed (tc_api tc) fm m1 (inst_id i) then retarget m1 i else i) (all_insts m)"
    by (rule profile_redirects [OF pre assms(5-7) post _ _ _ rpo]) (use assms(3,8) in simp_all)
  then show ?thesis using pre m' by blast
qed

text \<open>The example, with \<open>p\<close> as the path and no later passes.\<close>

definition demo_tc :: toolchain where
  "demo_tc = \<lparr>tc_api = demo_api, tc_files = demo_files, tc_unset = (0, 0), tc_other = (\<lambda>_ m. m)\<rparr>"

definition report_env :: environment where
  "report_env = [''PROVSAN_PATH'' \<mapsto> ''p'', ''PROVSAN_HOOK'' \<mapsto> ''1'']"

lemma demo_traversal: "traversal_ok demo_api"
  by (simp add: traversal_ok_def rpo_ok_def demo_api_def)

lemma demo_tc_simps [simp]:
  "tc_api demo_tc = demo_api" "tc_files demo_tc = demo_files" "tc_unset demo_tc = (0, 0)"
  by (simp_all add: demo_tc_def)

theorem report_build_redirects_only_witness:
  "\<exists>m' ps' gs'. compile demo_tc report_env no_options test_options0 [pre_plugin, post_plugin] []
      (demo_source, demo_pre_state, post_globals0) = Some (Inr (m', ps', gs')) \<and>
    all_insts m' =
      [CallBase 0 CallInst (Func ''trusted_malloc'') [Int64 16], OtherInst 1 [Result 0],
       CallBase 2 CallInst (Func ''untrusted_malloc'') [Int64 32],
       CallBase 3 CallInst (Func ''trusted_free'') [Result 0, Int64 16], OtherInst 4 []]"
proof -
  let ?run = "compile demo_tc report_env no_options test_options0 [pre_plugin, post_plugin] []
      (demo_source, demo_pre_state, post_globals0)"
  let ?fm = "[(''f'', [(1, \<lparr>fs_localID = 1, fs_pkey = 1, fs_bbName = ''block1'', fs_funcName = ''f''\<rparr>)])]"
  have "case ?run of Some (Inr _) \<Rightarrow> True | _ \<Rightarrow> False" by code_simp
  then obtain m' ps' gs' where run: "?run = Some (Inr (m', ps', gs'))" by (auto split: option.splits sum.splits)
  have path: "report_env ''PROVSAN_PATH'' = Some ''p''" "report_env ''PROVSAN_HOOK'' = Some ''1''"
    by (simp_all add: report_env_def)
  have "find_targets (read_options report_env no_options) demo_source = demo_targets" by code_simp
  then have input: "pre_input_ok (tc_api demo_tc) (find_targets (read_options report_env no_options) demo_source) demo_source demo_pre_state"
    using demo_pre_input by simp
  have callees: "callees_known demo_source" by (simp add: callees_known_def all_insts_def demo_source_def)
  have none: "no_hooks demo_source" by code_simp
  have fm: "getFaultingAllocMap (tc_files demo_tc) (fst (tc_unset demo_tc)) (snd (tc_unset demo_tc)) ''p'' = Inr ?fm" by code_simp
  obtain m1 m2 where m1: "run_pre (tc_api demo_tc) report_env no_options demo_source demo_pre_state = Some (Inr (m1, ps'))"
    and m2: "m' = m2" "all_insts m2 =
      map (\<lambda>i. if blamed demo_api ?fm m1 (inst_id i) then retarget m1 i else i) (all_insts demo_source)"
    using report_build_redirects_only [OF run path(1) _ path(2) input none callees fm] demo_traversal by auto
  have "case run_pre (tc_api demo_tc) report_env no_options demo_source demo_pre_state of
      Some (Inr (m1, _)) \<Rightarrow> map (\<lambda>i. if blamed demo_api ?fm m1 (inst_id i) then retarget m1 i else i) (all_insts demo_source) =
        [CallBase 0 CallInst (Func ''trusted_malloc'') [Int64 16], OtherInst 1 [Result 0],
         CallBase 2 CallInst (Func ''untrusted_malloc'') [Int64 32],
         CallBase 3 CallInst (Func ''trusted_free'') [Result 0, Int64 16], OtherInst 4 []]
    | _ \<Rightarrow> False" by code_simp
  then show ?thesis using run m1 m2 by simp
qed

end
