(* ===== verification/Hook_Calls.thy ===== *)
theory Hook_Calls
  imports Build Provenance
begin

section \<open>From the inserted calls to the runtime\<close>

text \<open>
  What happens when the instrumented program executes a hook call: the operands the passes gave the
  call are the arguments of the hook of the runtime. In a build with the plugins in order, every hook
  call is the runtime event of its position; with the plugins the other way round, the hooks keep
  their placeholders and stop the program.
\<close>

subsection \<open>Executing a hook call\<close>

text \<open>Numbers in registers and memory are a function; the null pointer and constants are fixed.\<close>

fun number :: "(operand \<Rightarrow> u64) \<Rightarrow> operand \<Rightarrow> u64" where
  "number v (Int64 k) = k"
| "number v NullPtr = 0"
| "number v x = v x"

fun c_string_arg :: "operand \<Rightarrow> c_string" where
  "c_string_arg (GlobalStr s) = Some s"
| "c_string_arg _ = None"

text \<open>The calls have the numbers of arguments the hooks are declared with; other instructions do nothing here.\<close>

fun exec_hook :: "platform \<Rightarrow> (operand \<Rightarrow> u64) \<Rightarrow> instr \<Rightarrow> runtime \<Rightarrow> rt_error + runtime" where
  "exec_hook pf v (CallBase n k (Func h) [p, sz, lid, bb, fn]) rt =
    (if h = ''allocHook''
     then allocHook pf (number v p) (number v sz) (number v lid) (c_string_arg bb) (c_string_arg fn) rt
     else Inr rt)"
| "exec_hook pf v (CallBase n k (Func h) [np, nsz, op, osz, lid, bb, fn]) rt =
    (if h = ''reallocHook''
     then reallocHook pf (number v np) (number v nsz) (number v op) (number v osz) (number v lid)
            (c_string_arg bb) (c_string_arg fn) rt
     else Inr rt)"
| "exec_hook pf v (CallBase n k (Func h) [p, sz, lid]) rt =
    (if h = ''deallocHook'' then deallocHook pf (number v p) (number v sz) (number v lid) rt else Inr rt)"
| "exec_hook pf v _ rt = Inr rt"

subsection \<open>The hooks as the pre pass leaves them\<close>

definition placeholder_hook :: "instr \<Rightarrow> bool" where
  "placeholder_hook i \<longleftrightarrow>
    (case i of
       CallBase n k (Func h) [p, sz, lid, bb, fn] \<Rightarrow>
         h = ''allocHook'' \<and> lid = Int64 (-1) \<and> bb = NullPtr \<and> fn = NullPtr
     | CallBase n k (Func h) [np, nsz, op, osz, lid, bb, fn] \<Rightarrow>
         h = ''reallocHook'' \<and> lid = Int64 (-1) \<and> bb = NullPtr \<and> fn = NullPtr
     | _ \<Rightarrow> False)"

lemma hooked_new:
  "hooked ts is ys \<Longrightarrow> y \<in> set ys \<Longrightarrow>
    y \<in> set is \<or> (\<exists>i name as. hook_for ts i = Some (name, as) \<and> y = CallBase (inst_id y) CallInst (Func name) as)"
proof (induction "is" arbitrary: ys)
  case (Cons i "is")
  show ?case
  proof (cases "hook_for ts i")
    case None
    then obtain zs where "ys = i # zs" "hooked ts is zs" using Cons.prems(1) by (cases ys) auto
    then show ?thesis using Cons.IH [of zs] Cons.prems(2) by auto
  next
    case (Some na)
    then obtain name as h zs where "hook_for ts i = Some (name, as)" "ys = i # h # zs"
      "h = CallBase (inst_id h) CallInst (Func name) as" "hooked ts is zs"
      using Cons.prems(1) by (cases na; cases ys; cases "tl ys") auto
    then show ?thesis using Cons.IH [of zs] Cons.prems(2) by auto
  qed
qed simp

lemma new_hook_placeholder:
  assumes "hook_for ts i = Some (name, as)" and "y = CallBase n CallInst (Func name) as" and "numbered y"
  shows "placeholder_hook y"
  using assms
  by (cases "(ts, i)" rule: hook_for.cases) (auto simp: placeholder_hook_def hook_index_cases split: if_splits)

lemma pre_hooks_placeholders:
  assumes "module_hooked api ts m m1" and "well_formed m" and "no_hooks m"
    and "y \<in> set (all_insts m1)" and "numbered y"
  shows "placeholder_hook y"
proof -
  obtain ds where ds: "mod_funcs (declare_hooks m) = mod_funcs m @ ds" "\<forall>d\<in>set ds. is_declaration d"
    using declare_hooks_keeps(2) by blast
  obtain g b where g: "g \<in> set (mod_funcs m1)" "b \<in> set (fn_blocks g)" "y \<in> set (bb_insts b)"
    using assms(4) by (auto simp: all_insts_def)
  then obtain f where f: "f \<in> set (mod_funcs (declare_hooks m))" "if is_declaration f then g = f else func_hooked api ts f g"
    using list_all2_mem2 [OF assms(1) [unfolded module_hooked_def]] by blast
  have fh: "func_hooked api ts f g" and fm: "f \<in> set (mod_funcs m)"
    using f g(2) ds by (auto simp: is_declaration_def split: if_splits)
  have labels: "map bb_label (fn_blocks g) = map bb_label (fn_blocks f)" using fh by (simp add: func_hooked_def)
  have "distinct (map bb_label (fn_blocks g))" using assms(2) fm labels by (simp add: well_formed_def)
  then have y: "y \<in> set (insts_of g (bb_label b))" using insts_of_block [OF g(2)] g(3) by simp
  have l: "bb_label b \<in> set (map bb_label (fn_blocks f))" using g(2) labels by (metis image_eqI list.set_map)
  have old: "x \<notin> set (insts_of f (bb_label b))" if "is_hook x" for x
    using that insts_of_subset [OF fm] assms(3) by (auto simp: no_hooks_def)
  have hook: "is_hook y" by (rule numbered_is_hook [OF assms(5)])
  have "if bb_label b \<in> set (rpo api f) then hooked ts (insts_of f (bb_label b)) (insts_of g (bb_label b))
      else insts_of g (bb_label b) = insts_of f (bb_label b)"
    using fh l unfolding func_hooked_def by blast
  then have "hooked ts (insts_of f (bb_label b)) (insts_of g (bb_label b))"
    using y old [OF hook] by (auto split: if_splits)
  from hooked_new [OF this y] old [OF hook] obtain i name as where
    "hook_for ts i = Some (name, as)" "y = CallBase (inst_id y) CallInst (Func name) as" by blast
  then show ?thesis using assms(5) by (rule new_hook_placeholder)
qed

text \<open>Executed as it is, such a hook stops the program.\<close>

lemma placeholder_stops:
  assumes "placeholder_hook i" and "runtime_inv rt"
  shows "exec_hook pf v i rt \<noteq> Inr rt'"
proof -
  obtain h where h: "the_handler (getOrInit pf rt) = Inr h" using getOrInit_handle [OF assms(2)] by blast
  have bad: "make_site p sz lid None fn pk re = Inl NullCString" for p sz lid fn pk re
    by (simp add: make_site_def)
  show ?thesis
    using assms(1) h
    by (auto simp: placeholder_hook_def allocHook_def reallocHook_def bad Let_def
        split: instr.splits callee.splits list.splits)
qed

text \<open>Numbered and named, it is an event of the runtime.\<close>

definition event_key :: "rt_event \<Rightarrow> site_key list" where
  "event_key e = alloc_keys [e] @ realloc_keys [e]"

lemma named_hook_event:
  assumes "placeholder_hook i" and "\<not> RemoveHooks opts"
  shows "\<exists>e. (\<forall>pf rt. exec_hook pf v (with_id opts fn bb j i) rt = rt_step pf e rt) \<and> event_key e = [(fn, bb, of_nat j)]"
proof -
  consider n k p sz where "i = CallBase n k (Func ''allocHook'') [p, sz, Int64 (-1), NullPtr, NullPtr]"
    | n k np nsz op osz where "i = CallBase n k (Func ''reallocHook'') [np, nsz, op, osz, Int64 (-1), NullPtr, NullPtr]"
    using assms(1) by (auto simp: placeholder_hook_def split: instr.splits callee.splits list.splits)
  then show ?thesis
  proof cases
    case 1
    then show ?thesis
      using assms(2)
      by (intro exI [of _ "Alloc (number v p) (number v sz) (of_nat j) bb fn"])
         (simp add: with_id_def hook_index_cases event_key_def numeral_2_eq_2)
  next
    case 2
    then show ?thesis
      using assms(2)
      by (intro exI [of _ "Realloc (number v np) (number v nsz) (number v op) (number v osz) (of_nat j) bb fn"])
         (simp add: with_id_def hook_index_cases event_key_def eval_nat_numeral)
  qed
qed

subsection \<open>The post pass on a module without hooks\<close>

lemma assign_insts_none:
  "\<forall>i\<in>set is. \<not> is_hook i \<Longrightarrow> assign_insts api opts fm m fn bb is lid ps = Inr (is, lid, ps)"
proof (induction "is" arbitrary: lid)
  case (Cons i "is")
  then have "assign_inst api opts fm m fn bb i lid ps = Inr (i, lid, ps)"
    by (cases i; cases "callee i") (auto simp: is_hook_def patchArgIndexMap_def)
  then show ?case using Cons by simp
qed simp

lemma assign_blocks_none:
  assumes "\<forall>b\<in>set (fn_blocks f). \<forall>i\<in>set (bb_insts b). \<not> is_hook i" and "distinct (map bb_label (fn_blocks f))"
  shows "assign_blocks api opts fm m f ls f lid ps = Inr (f, ps)"
proof (induction ls arbitrary: lid)
  case (Cons l ls)
  have "\<forall>i\<in>set (insts_of f l). \<not> is_hook i"
    using assms(1) by (auto simp: insts_of_def block_of_def split: option.splits dest: find_Some_mem [OF sym])
  then show ?case
    using Cons assign_insts_none set_insts_same [OF assms(2)] by (simp split: option.splits)
qed simp

lemma assign_funcs_none:
  assumes "\<forall>f\<in>set (mod_funcs m). \<forall>b\<in>set (fn_blocks f). \<forall>i\<in>set (bb_insts b). \<not> is_hook i" and "well_formed m"
  shows "set fs \<subseteq> set (mod_funcs m) \<Longrightarrow> assign_funcs api opts fm m0 fs m ps = Inr (m, ps)"
proof (induction fs)
  case (Cons f fs)
  have "assign_func api opts fm m0 f ps = Inr (f, ps)"
    unfolding assign_func_def using Cons.prems assms by (intro assign_blocks_none) (auto simp: well_formed_def)
  moreover have "replace_func f m = m"
    using Cons.prems assms(2)
    by (auto simp: replace_func_def well_formed_def distinct_map inj_on_def intro!: ir_module.equality map_idI)
  ultimately show ?case using Cons by simp
qed simp

lemma post_without_hooks:
  assumes "run_post api fe j1 j2 opts m post_globals0 = Inr (m', gs')" and "no_hooks m" and "well_formed m"
  shows "m' = m\<lparr>mod_AllocSiteTotal := Some 0\<rparr> \<and> gs' = post_globals0"
proof -
  have none: "\<forall>f\<in>set (mod_funcs m). \<forall>b\<in>set (fn_blocks f). \<forall>i\<in>set (bb_insts b). \<not> is_hook i"
    using assms(2) by (auto simp: no_hooks_def all_insts_def)
  have funcs: "assign_funcs api opts fm m (worklist m) m ps = Inr (m, ps)" for fm ps
    by (rule assign_funcs_none [OF none assms(3)]) (simp add: set_worklist)
  have "remove_hook_function h m = Inr m" if "h \<in> hook_names" for h
    using assms(2) that by (auto simp: remove_hook_function_def no_hooks_def get_function_None)
  then have "removeHooks m post_globals0 = Inr m" by (simp add: removeHooks_def post_globals0_def)
  then show ?thesis
    using assms(1) funcs by (auto simp: run_post_def assignLocalIDs_def and_then_eq_Inr post_globals0_def split: if_splits)
qed

subsection \<open>Properties\<close>

text \<open>C4: In a build without a profile, plugins in the order of the manual, of a source without hook calls
  that calls the functions to hook by plain calls with enough arguments, where no hook is a target and the
  traversal visits a block once, every numbered hook call is an
  event of the runtime, whatever the registers hold: the \<open>j\<close>-th hook of a function executes
  exactly as \<open>allocHook\<close> or \<open>reallocHook\<close> with identifier \<open>j\<close> and the names of its block and function. So the
  positions the runtime reports are those the post pass looks up in the profile.\<close>

theorem built_hooks_are_events:
  assumes "compile tc env preopts test_options0 [pre_plugin, post_plugin] later (m, ps, post_globals0) =
      Some (Inr (m', ps', gs'))"
    and "env ''PROVSAN_PATH'' = None" and "env ''PROVSAN_HOOK'' = None"
    and "pre_input_ok (tc_api tc) (find_targets (read_options env preopts) m) m ps" and "no_hooks m"
    and "traversal_ok (tc_api tc)"
  shows "\<exists>m1 m2. run_pre (tc_api tc) env preopts m ps = Some (Inr (m1, ps')) \<and> m' = fold (tc_other tc) later m2 \<and>
    (\<forall>f\<in>set (mod_funcs m1). \<not> is_declaration f \<longrightarrow>
      (\<exists>g\<in>set (mod_funcs m2). fn_name g = fn_name f \<and>
        (\<forall>(j, bb, i)\<in>set (enumerate 0 (hook_seq (tc_api tc) f (rpo (tc_api tc) f) g)).
          \<exists>e. (\<forall>pf rt. exec_hook pf v i rt = rt_step pf e rt) \<and> event_key e = [(fn_name f, bb, of_nat j)])))"
proof -
  let ?opts = "\<lparr>MPKProfilePath = [], RemoveHooks = False\<rparr>" and ?api = "tc_api tc"
  obtain m1 m2 where pre: "run_pre ?api env preopts m ps = Some (Inr (m1, ps'))"
    and post: "run_post ?api (tc_files tc) (fst (tc_unset tc)) (snd (tc_unset tc)) ?opts m1 post_globals0 = Inr (m2, gs')"
    and m': "m' = fold (tc_other tc) later m2"
    by (rule compile_pre_post [OF assms(1) options_from_variables(2) [OF assms(2,3)]])
  have m1: "module_hooked ?api (find_targets (read_options env preopts) m) m m1" "well_formed m1"
    using run_pre_result [OF refl assms(4)] pre by simp_all
  have wf: "well_formed m" using assms(4) by (simp add: pre_input_ok_def)
  obtain m3 where num: "module_numbered ?api ?opts m1 m3" and m2: "mod_funcs m2 = mod_funcs m3"
  proof (rule run_post_cases [OF post m1(2) traversal_well_formed [OF assms(6) m1(2)]])
    fix fm m3 ps m4 m5
    assume "module_numbered ?api ?opts m1 m3"
      "m4 = map_insts (\<lambda>i. if MPKProfilePath ?opts \<noteq> [] \<and> blamed ?api fm m1 (inst_id i) then retarget m1 i else i) m3"
      "if RemoveHooks ?opts then removeHooks m4 ps = Inr m5 else m5 = m4" "m2 = m5\<lparr>mod_AllocSiteTotal := Some (IDG post_globals0)\<rparr>"
    with that show thesis by (simp add: map_insts_id)
  qed (simp_all add: post_globals0_def)
  have "\<exists>g\<in>set (mod_funcs m2). fn_name g = fn_name f \<and>
      (\<forall>(j, bb, i)\<in>set (enumerate 0 (hook_seq ?api f (rpo ?api f) g)).
        \<exists>e. (\<forall>pf rt. exec_hook pf v i rt = rt_step pf e rt) \<and> event_key e = [(fn_name f, bb, of_nat j)])"
    if f: "f \<in> set (mod_funcs m1)" "\<not> is_declaration f" for f
  proof -
    obtain g where g: "g \<in> set (mod_funcs m3)" "func_numbered ?api ?opts f g" by (rule module_numbered_func [OF num f])
    have "\<exists>e. (\<forall>pf rt. exec_hook pf v i rt = rt_step pf e rt) \<and> event_key e = [(fn_name f, bb, of_nat j)]"
      if jbi: "(j, bb, i) \<in> set (enumerate 0 (hook_seq ?api f (rpo ?api f) g))" for j bb i
    proof -
      have "hook_seq ?api f (rpo ?api f) g = numbered_seq ?opts (fn_name f) 0 (hook_seq ?api f (rpo ?api f) f)"
        using g(2) by (simp add: func_numbered_def)
      then obtain i0 where i0: "(bb, i0) \<in> set (hook_seq ?api f (rpo ?api f) f)" "i = with_id ?opts (fn_name f) bb j i0"
        using jbi by (auto simp: numbered_seq_def in_set_enumerate_eq nth_enumerate_eq split: prod.splits)
           (metis fst_conv nth_mem snd_conv surj_pair)
      then have "numbered i0" "i0 \<in> set (all_insts m1)"
        using hook_seq_mem insts_of_subset [OF f(1)] by blast+
      then have "placeholder_hook i0" by (intro pre_hooks_placeholders [OF m1(1) wf assms(5)])
      then show ?thesis unfolding i0(2) by (rule named_hook_event) simp
    qed
    then show ?thesis using g m2 by (auto simp: func_numbered_def)
  qed
  then show ?thesis using pre m' by blast
qed

theorem built_hooks_are_events_witness:
  "\<exists>m' ps' gs'. compile demo_tc (\<lambda>_. None) no_options test_options0 [pre_plugin, post_plugin] []
      (demo_source, demo_pre_state, post_globals0) = Some (Inr (m', ps', gs')) \<and>
    (\<exists>f g. g \<in> set (mod_funcs m') \<and> fn_name g = ''f'' \<and> length (hook_seq demo_api f (rpo demo_api f) g) = 2 \<and>
      (\<forall>(j, bb, i)\<in>set (enumerate 0 (hook_seq demo_api f (rpo demo_api f) g)).
        \<exists>e. (\<forall>pf rt. exec_hook pf (\<lambda>_. 0x2000) i rt = rt_step pf e rt) \<and> event_key e = [(''f'', bb, of_nat j)]))"
proof -
  let ?run = "compile demo_tc (\<lambda>_. None) no_options test_options0 [pre_plugin, post_plugin] []
      (demo_source, demo_pre_state, post_globals0)"
  let ?f = "the (get_function demo_hooked ''f'')"
  have "case ?run of Some (Inr (m', _)) \<Rightarrow>
      (\<forall>g\<in>set (mod_funcs m'). fn_name g = ''f'' \<longrightarrow> length (hook_seq demo_api ?f (rpo demo_api ?f) g) = 2) | _ \<Rightarrow> False"
    by code_simp
  then obtain m' ps' gs' where run: "?run = Some (Inr (m', ps', gs'))"
    and two: "\<forall>g\<in>set (mod_funcs m'). fn_name g = ''f'' \<longrightarrow> length (hook_seq demo_api ?f (rpo demo_api ?f) g) = 2"
    by (auto split: option.splits sum.splits)
  have f: "?f \<in> set (mod_funcs demo_hooked)" "\<not> is_declaration ?f" "fn_name ?f = ''f''" by code_simp+
  have input: "pre_input_ok (tc_api demo_tc) (find_targets (read_options (\<lambda>_. None) no_options) demo_source) demo_source demo_pre_state"
    using demo_pre_input demo_targets by simp
  have none: "no_hooks demo_source" by code_simp
  have trav: "traversal_ok (tc_api demo_tc)" using demo_traversal by simp
  obtain m1 m2 where m1: "run_pre demo_api (\<lambda>_. None) no_options demo_source demo_pre_state = Some (Inr (m1, ps'))"
    and m2: "m' = m2"
    and all: "\<forall>f\<in>set (mod_funcs m1). \<not> is_declaration f \<longrightarrow>
      (\<exists>g\<in>set (mod_funcs m2). fn_name g = fn_name f \<and>
        (\<forall>(j, bb, i)\<in>set (enumerate 0 (hook_seq demo_api f (rpo demo_api f) g)).
          \<exists>e. (\<forall>pf rt. exec_hook pf (\<lambda>_. 0x2000) i rt = rt_step pf e rt) \<and> event_key e = [(fn_name f, bb, of_nat j)]))"
    using built_hooks_are_events [OF run refl refl input none trav, of "\<lambda>_. 0x2000", unfolded demo_tc_simps fold_simps]
    by (elim exE conjE) (rule that)
  have "m1 = demo_hooked" using m1 by (simp add: demo_hooked_def)
  from all [unfolded this, THEN bspec, OF f(1), THEN mp, OF f(2), unfolded f(3)]
  obtain g where g: "g \<in> set (mod_funcs m2)" "fn_name g = ''f''"
    "\<forall>(j, bb, i)\<in>set (enumerate 0 (hook_seq demo_api ?f (rpo demo_api ?f) g)).
      \<exists>e. (\<forall>pf rt. exec_hook pf (\<lambda>_. 0x2000) i rt = rt_step pf e rt) \<and> event_key e = [(''f'', bb, of_nat j)]"
    by (elim bexE conjE) (rule that)
  have "length (hook_seq demo_api ?f (rpo demo_api ?f) g) = 2" using two g(1,2) m2 by simp
  with run g show ?thesis unfolding m2 by (intro exI conjI)
qed

text \<open>C13: With the plugins the other way round, and a source without hook calls that calls the functions to
  hook by plain calls with enough arguments, no hook being a target, the compiler says nothing, but the
  post pass has met no hook: whatever the options from the environment are, it numbers and redirects nothing, and every allocation or reallocation hook of the
  program keeps its placeholders and stops the program when it is executed.\<close>

theorem plugins_swapped:
  assumes "compile tc env preopts test_options0 [post_plugin, pre_plugin] later (m, ps, post_globals0) =
      Some (Inr (m', ps', gs'))"
    and "ProvsanPost env [] False = Inr popts"
    and "pre_input_ok (tc_api tc) (find_targets (read_options env preopts) m) m ps" and "no_hooks m"
  shows "gs' = post_globals0 \<and>
    (\<exists>m2. m' = fold (tc_other tc) later m2 \<and>
      module_hooked (tc_api tc) (find_targets (read_options env preopts) m) (m\<lparr>mod_AllocSiteTotal := Some 0\<rparr>) m2 \<and>
      (\<forall>i\<in>set (all_insts m2). numbered i \<longrightarrow>
        (\<forall>pf v rt rt'. runtime_inv rt \<longrightarrow> exec_hook pf v i rt \<noteq> Inr rt')))"
proof -
  let ?m = "m\<lparr>mod_AllocSiteTotal := Some 0\<rparr>" and ?ts = "find_targets (read_options env preopts) m"
  obtain m1 m2 where post: "run_post (tc_api tc) (tc_files tc) (fst (tc_unset tc)) (snd (tc_unset tc)) popts m post_globals0 = Inr (m1, gs')"
    and pre: "run_pre (tc_api tc) env preopts m1 ps = Some (Inr (m2, ps'))" and m': "m' = fold (tc_other tc) later m2"
    by (rule compile_post_pre [OF assms(1,2)])
  have wf: "well_formed m" using assms(3) by (simp add: pre_input_ok_def)
  have m1: "m1 = ?m" "gs' = post_globals0" using post_without_hooks [OF post assms(4) wf] by blast+
  have "?ts = find_targets (read_options env preopts) ?m"
    by (simp add: find_targets_def GetTargetFunctionSet_def get_function_def)
  moreover have "pre_input_ok (tc_api tc) ?ts ?m ps"
    using assms(3) by (simp add: pre_input_ok_def well_formed_def all_insts_def)
  ultimately have hooked: "module_hooked (tc_api tc) ?ts ?m m2"
    using run_pre_result [of ?ts env preopts ?m "tc_api tc" ps] pre m1(1) by simp
  have "well_formed ?m" "no_hooks ?m" using wf assms(4) by (simp_all add: well_formed_def no_hooks_def all_insts_def)
  note hooks = pre_hooks_placeholders [OF hooked this]
  have "exec_hook pf v i rt \<noteq> Inr rt'" if "i \<in> set (all_insts m2)" "numbered i" "runtime_inv rt" for i pf v rt rt'
    by (rule placeholder_stops [OF hooks [OF that(1,2)] that(3)])
  then show ?thesis using m' m1(2) hooked by blast
qed

theorem plugins_swapped_witness:
  "\<exists>m' ps' gs' i. compile demo_tc (\<lambda>_. None) no_options test_options0 [post_plugin, pre_plugin] []
      (demo_source, demo_pre_state, post_globals0) = Some (Inr (m', ps', gs')) \<and>
    i \<in> set (all_insts m') \<and> numbered i \<and> (\<nexists>rt'. exec_hook demo_pf (\<lambda>_. 0x2000) i (runtime0 (\<lambda>_. zero_sa)) = Inr rt')"
proof -
  let ?run = "compile demo_tc (\<lambda>_. None) no_options test_options0 [post_plugin, pre_plugin] []
      (demo_source, demo_pre_state, post_globals0)"
  have "case ?run of Some (Inr (m', _)) \<Rightarrow> list_ex numbered (all_insts m') | _ \<Rightarrow> False" by code_simp
  then obtain m' ps' gs' where run: "?run = Some (Inr (m', ps', gs'))" and "list_ex numbered (all_insts m')"
    by (auto split: option.splits sum.splits)
  then obtain i where i: "i \<in> set (all_insts m')" "numbered i" by (auto simp: list_ex_iff)
  have opts: "ProvsanPost (\<lambda>_. None) [] False = Inr \<lparr>MPKProfilePath = [], RemoveHooks = False\<rparr>"
    by (rule options_from_variables(2)) simp_all
  have input: "pre_input_ok (tc_api demo_tc) (find_targets (read_options (\<lambda>_. None) no_options) demo_source) demo_source demo_pre_state"
    using demo_pre_input demo_targets by simp
  have "no_hooks demo_source" by code_simp
  from plugins_swapped [OF run opts input this] have "exec_hook demo_pf (\<lambda>_. 0x2000) i (runtime0 (\<lambda>_. zero_sa)) \<noteq> Inr rt'" for rt'
    using i runtime_inv0 by auto
  then show ?thesis using run i by blast
qed

end
