(* ===== verification/Post_Pass_Messages.thy ===== *)
theory Post_Pass_Messages
  imports Post_Pass_Walk
begin

section \<open>The post pass tells what it redirects\<close>

text \<open>
  Every call that gets into the list of calls to redirect is printed with its position when it
  gets there, behind a warning when the profile has another block for its hook, and nothing else is:
  the error stream and the list stay in step.
\<close>

text \<open>The message for a collected call; one without a location was never collected.\<close>

definition violation :: "llvm_api \<Rightarrow> inst_id \<Rightarrow> stream_item list" where
  "violation api a = (case PrintFaultingLocation (debug_location api a) of Inl e \<Rightarrow> [] | Inr msg \<Rightarrow> msg)"

text \<open>The collected calls, with the blocks of their hooks and the entries of the profile.\<close>

type_synonym leak = "inst_id \<times> string \<times> FaultingSite"

definition leak :: "fault_map \<Rightarrow> ir_module \<Rightarrow> string \<Rightarrow> nat \<times> string \<times> instr \<Rightarrow> leak list" where
  "leak fm m funcName = (\<lambda>(j, bb, i).
    (case (alloc_of m i, fault_at fm funcName (of_nat j)) of
       (Some a, Some site) \<Rightarrow> [(a, bb, site)]
     | _ \<Rightarrow> []))"

definition leaks :: "llvm_api \<Rightarrow> fault_map \<Rightarrow> ir_module \<Rightarrow> leak list" where
  "leaks api fm m =
    concat (map (\<lambda>f. concat (map (leak fm m (fn_name f)) (enumerate 0 (hook_seq api f (rpo api f) f)))) (worklist m))"

definition report :: "llvm_api \<Rightarrow> leak \<Rightarrow> stream_item list" where
  "report api = (\<lambda>(a, bb, site).
    (if bb \<noteq> fs_bbName site then [Out (mismatch_text site bb)] else []) @ violation api a)"

text \<open>A part of the run has collected and told the leaks \<open>xs\<close>.\<close>

definition told :: "llvm_api \<Rightarrow> leak list \<Rightarrow> post_globals \<Rightarrow> post_globals \<Rightarrow> bool" where
  "told api xs ps ps' \<longleftrightarrow>
    err_stream ps' = err_stream ps @ concat (map (report api) xs) \<and>
    patchList ps' = patchList ps @ map fst xs \<and> (\<forall>a\<in>fst ` set xs. debug_location api a \<noteq> None)"

lemma told_refl [simp]: "told api [] ps ps"
  by (simp add: told_def)

lemma told_trans: "told api xs p q \<Longrightarrow> told api ys q r \<Longrightarrow> told api (xs @ ys) p r"
  by (auto simp: told_def)

lemma told_register [simp]: "told api xs (register_hook opts h n ps) ps' = told api xs ps ps'"
  by (simp add: told_def)

lemma told_collect:
  assumes "collect_patch api fm m fn bb (of_nat j) as ps = Inr ps'" and "as \<noteq> []" and "hd as = hd as0" and "as0 \<noteq> []"
  shows "told api (leak fm m fn (j, bb, CallBase n k c as0)) ps ps'"
proof -
  obtain v r r0 where "as = v # r" "as0 = v # r0" using assms(2-4) by (metis hd_Cons_tl)
  then show ?thesis
    using assms(1)
    by (auto simp: collect_patch_def leak_def alloc_of_def is_call_def fault_at_def told_def report_def violation_def
        and_then_eq_Inr PrintFaultingLocation_def Let_def
        split: option.splits operand.splits instr.splits if_splits)
qed

text \<open>What a visit of an instruction tells; without a profile nothing.\<close>

definition visit_leak :: "post_options \<Rightarrow> fault_map \<Rightarrow> ir_module \<Rightarrow> visit \<Rightarrow> leak list" where
  "visit_leak opts fm m = (\<lambda>(fn, j, bb, i).
    if numbered i then (if MPKProfilePath opts = [] then [] else leak fm m fn (j, bb, i)) else [])"

lemma told_inst:
  assumes "assign_inst api opts fm m fn bb i (of_nat j) ps = Inr (i', lid', ps')"
  shows "told api (visit_leak opts fm m (fn, j, bb, i)) ps ps'"
proof (cases "numbered i")
  case False
  then show ?thesis
    using assms by (cases i; cases "callee i")
      (auto simp: visit_leak_def hook_index_cases patchArgIndexMap_def Let_def told_def split: if_splits)
next
  case True
  then obtain n k h as x where i: "i = CallBase n k (Func h) as" "hook_index i = Some x"
    by (cases i; cases "callee i") (auto simp: hook_index_cases)
  then have x: "patchArgIndexMap h = Some (int x)" "0 < x"
    by (auto simp: hook_index_cases patchArgIndexMap_def split: if_splits)
  obtain as' where a: "hook_args opts x (of_nat j) bb fn as = Inr as'"
    "(if MPKProfilePath opts \<noteq> [] then collect_patch api fm m fn bb (of_nat j) as' (register_hook opts h n ps)
      else Inr (register_hook opts h n ps)) = Inr ps'"
    using assms x by (auto simp: i(1) Let_def and_then_eq_Inr)
  show ?thesis
  proof (cases "MPKProfilePath opts = []")
    case True
    then have "told api [] (register_hook opts h n ps) ps'" using a(2) by (simp del: told_register)
    then show ?thesis using True by (simp add: visit_leak_def)
  next
    case False
    then have c: "collect_patch api fm m fn bb (of_nat j) as' (register_hook opts h n ps) = Inr ps'" using a(2) by simp
    have "as' \<noteq> []" "hd as' = hd as" "as \<noteq> []"
      using hd_hook_args [OF x(2) a(1)] a(1) by (auto simp: hook_args_Inr)
    from told_collect [OF c this] have "told api (leak fm m fn (j, bb, i)) (register_hook opts h n ps) ps'"
      unfolding i(1) .
    then show ?thesis using True False by (simp add: visit_leak_def)
  qed
qed

lemma told_patch: "patchInstruction a (m, ps) = Inr (m', ps') \<Longrightarrow> told api [] ps ps'"
  by (auto simp: patchInstruction_def told_def split: option.splits instr.splits callee.splits if_splits)

interpretation telling: numbering_effect api opts fm m "\<lambda>xs. told api (concat (map (visit_leak opts fm m) xs))"
  for api opts fm m
  by unfold_locales (auto intro: told_trans told_patch told_inst)

text \<open>The collected calls are the blamed ones.\<close>

lemma leak_mem:
  "a \<in> fst ` set (leak fm m fn (j, bb, i)) \<longleftrightarrow> alloc_of m i = Some a \<and> fault_at fm fn (of_nat j) \<noteq> None"
  by (cases "alloc_of m i"; cases "fault_at fm fn (of_nat j)") (auto simp: leak_def)

lemma leaks_mem:
  "a \<in> fst ` set (leaks api fm m) \<longleftrightarrow>
    (\<exists>f\<in>set (worklist m). \<exists>(j, bb, i)\<in>set (enumerate 0 (hook_seq api f (rpo api f) f)).
      a \<in> fst ` set (leak fm m (fn_name f) (j, bb, i)))"
  by (simp add: leaks_def image_UN split_beta)

lemma leaks_blamed: "fst ` set (leaks api fm m) = {a. blamed api fm m a}"
  unfolding set_eq_iff leaks_mem leak_mem blamed_def set_worklist mem_Collect_eq by blast

lemma run_post_told:
  assumes "run_post api fe j1 j2 opts m post_globals0 = Inr (m', ps')" and path: "MPKProfilePath opts \<noteq> []"
    and fm: "getFaultingAllocMap fe j1 j2 (MPKProfilePath opts) = Inr fm"
    and "\<forall>f\<in>set (mod_funcs m). rpo_ok api f"
  shows "told api (leaks api fm m) post_globals0 ps'"
proof -
  have "visit_leak opts fm m = (\<lambda>(fn, j, bb, i). if numbered i then leak fm m fn (j, bb, i) else [])"
    using path by (simp add: visit_leak_def fun_eq_iff)
  then show ?thesis using telling.E_run [OF assms(1,4) fm] by (simp only: module_visits_hooks leaks_def)
qed

text \<open>One line of the report, as it is read.\<close>

definition violation_line :: "debug_loc \<Rightarrow> string" where
  "violation_line loc =
    ''Error: Compartment Violation from memory originally allocated at '' @ hd (frames loc) @
    concat (map (\<lambda>p. inlined_text @ p @ '' ]'') (tl (frames loc))) @ [CHR 0x0A]"

definition report_text :: "llvm_api \<Rightarrow> leak \<Rightarrow> string" where
  "report_text api = (\<lambda>(a, bb, site).
    (if bb \<noteq> fs_bbName site then mismatch_text site bb else []) @ violation_line (the (debug_location api a)))"

lemma violation_read:
  assumes "debug_location api a = Some loc"
  shows "plain_text (violation api a) = violation_line loc" "text_in YELLOW now (violation api a) = last (frames loc)"
    "final_color now (violation api a) = WHITE"
proof -
  obtain msg where msg: "PrintFaultingLocation (Some loc) = Inr msg" by (simp add: PrintFaultingLocation_def)
  with violation_text [OF this] assms
  show "plain_text (violation api a) = violation_line loc" "text_in YELLOW now (violation api a) = last (frames loc)"
    by (simp_all add: violation_def violation_line_def)
  show "final_color now (violation api a) = WHITE"
    using msg assms getDiagMessage_highlight [of WHITE loc True] by (auto simp: violation_def PrintFaultingLocation_def)
qed

lemma report_read:
  assumes "debug_location api (fst x) \<noteq> None"
  shows "plain_text (report api x) = report_text api x" "final_color now (report api x) = WHITE"
    "now \<noteq> YELLOW \<Longrightarrow> text_in YELLOW now (report api x) = last (frames (the (debug_location api (fst x))))"
  using assms by (cases x; auto simp: report_def report_text_def violation_read)+

lemma reports_read:
  "\<forall>a\<in>fst ` set xs. debug_location api a \<noteq> None \<Longrightarrow> now \<noteq> YELLOW \<Longrightarrow>
    plain_text (concat (map (report api) xs)) = concat (map (report_text api) xs) \<and>
    text_in YELLOW now (concat (map (report api) xs)) = concat (map (\<lambda>x. last (frames (the (debug_location api (fst x))))) xs)"
  by (induction xs arbitrary: now) (simp_all add: report_read)

text \<open>C38: A run of the post pass with a profile that returns has reported exactly the calls the profile
  blames, which are the ones it redirects, in the order it collects them and nothing else: one line each,
  with the position of the call and behind it the positions it was inlined at, innermost first, of
  which exactly the outermost is highlighted. A warning stands before the line of a call whose hook lies
  in another block than the entry of the profile says.\<close>

theorem violations_reported:
  assumes "run_post api fe j1 j2 opts m post_globals0 = Inr (m', ps')" and "MPKProfilePath opts \<noteq> []"
    and "getFaultingAllocMap fe j1 j2 (MPKProfilePath opts) = Inr fm"
    and "\<forall>f\<in>set (mod_funcs m). rpo_ok api f" and "now \<noteq> YELLOW"
  shows "patchList ps' = map fst (leaks api fm m) \<and> set (patchList ps') = {a. blamed api fm m a} \<and>
    (\<forall>a\<in>set (patchList ps'). debug_location api a \<noteq> None) \<and>
    plain_text (err_stream ps') = concat (map (report_text api) (leaks api fm m)) \<and>
    text_in YELLOW now (err_stream ps') = concat (map (\<lambda>a. last (frames (the (debug_location api a)))) (patchList ps'))"
proof -
  from run_post_told [OF assms(1-4)]
  have ps': "err_stream ps' = concat (map (report api) (leaks api fm m))" "patchList ps' = map fst (leaks api fm m)"
    and loc: "\<forall>a\<in>fst ` set (leaks api fm m). debug_location api a \<noteq> None"
    by (simp_all add: told_def post_globals0_def)
  from reports_read [OF loc assms(5)] show ?thesis
    using loc leaks_blamed [of api fm m] by (simp add: ps' o_def)
qed

text \<open>The call to redirect of the example was inlined twice.\<close>

definition inlined_api :: llvm_api where
  "inlined_api = demo_api\<lparr>debug_location := (\<lambda>_. Some (DebugLoc ''a.c'' 3 7
    (Some (DebugLoc ''b.c'' 20 0 (Some (DebugLoc ''main.c'' 41 5 None))))))\<rparr>"

theorem violations_reported_witness:
  "\<exists>m' ps'. run_post inlined_api demo_files 0 0 profile_build demo_module post_globals0 = Inr (m', ps') \<and>
    patchList ps' = [3] \<and> text_in YELLOW DefaultColor (err_stream ps') = ''main.c:41:5''"
proof -
  let ?run = "run_post inlined_api demo_files 0 0 profile_build demo_module post_globals0"
  let ?fm = "[(''f'', [(1, \<lparr>fs_localID = 1, fs_pkey = 1, fs_bbName = ''block1'', fs_funcName = ''f''\<rparr>)])]"
  have "map_sum (\<lambda>_. ()) (\<lambda>r. patchList (snd r)) ?run = Inr [3]" by code_simp
  then obtain m' ps' where run: "?run = Inr (m', ps')" and "patchList ps' = [3]"
    by (cases ?run) auto
  moreover have "last (frames (the (debug_location inlined_api 3))) = ''main.c:41:5''" by code_simp
  moreover have "getFaultingAllocMap demo_files 0 0 (MPKProfilePath profile_build) = Inr ?fm" by code_simp
  note report = violations_reported [OF run _ this, of DefaultColor]
  have "text_in YELLOW DefaultColor (err_stream ps') =
      concat (map (\<lambda>a. last (frames (the (debug_location inlined_api a)))) (patchList ps'))"
    using report demo_module_ok(2) by (simp add: inlined_api_def rpo_ok_def)
  ultimately show ?thesis by auto
qed

subsection \<open>A profile of the same module\<close>

text \<open>Every entry of the profile comes from a hook call of the profiled program.\<close>

definition profile_of :: "ir_module \<Rightarrow> fault_map \<Rightarrow> bool" where
  "profile_of m fm \<longleftrightarrow>
    (\<forall>(fn, sites)\<in>set fm. \<forall>(lid, site)\<in>set sites.
      list_ex (\<lambda>i. hook_operands i = Some (Int64 lid, GlobalStr (fs_bbName site), GlobalStr fn)) (all_insts m))"

text \<open>The hooks are as the pre pass leaves them, and a 64-bit number can count those of a function.\<close>

definition unnamed_hooks :: "llvm_api \<Rightarrow> ir_module \<Rightarrow> bool" where
  "unnamed_hooks api m \<longleftrightarrow>
    (\<forall>i\<in>set (all_insts m). case hook_operands i of Some (lid, bb, fn) \<Rightarrow> fn = NullPtr | None \<Rightarrow> True) \<and>
    (\<forall>f\<in>set (mod_funcs m). length (hook_seq api f (rpo api f) f) \<le> 2 ^ 64)"

lemma hook_seq_memI:
  "l \<in> set ls \<Longrightarrow> block_of f l = Some b \<Longrightarrow> i \<in> set (insts_of g l) \<Longrightarrow> numbered i \<Longrightarrow>
    (block_name api f b, i) \<in> set (hook_seq api f ls g)"
  by (force simp: hook_seq_def)

lemma hook_operands_numbered: "hook_operands i = Some x \<Longrightarrow> numbered i"
  by (auto simp: hook_operands_def split: instr.splits option.splits)

lemma same_number:
  assumes "(j, bb, i) \<in> set (enumerate 0 xs)" and "(k, bb', i') \<in> set (enumerate 0 xs)"
    and "length xs \<le> 2 ^ 64" and "(of_nat j :: u64) = of_nat k"
  shows "bb = bb'"
proof -
  from assms(1,2) have j: "j < length xs" "xs ! j = (bb, i)" and k: "k < length xs" "xs ! k = (bb', i')"
    by (auto simp: in_set_enumerate_eq)
  have "unat (of_nat j :: u64) = j" "unat (of_nat k :: u64) = k"
    using j(1) k(1) assms(3) by (auto simp: unat_of_nat)
  then have "j = k" using assms(4) by metis
  then show ?thesis using j(2) k(2) by simp
qed

text \<open>A named hook of a numbered module, and where it was in the module before.\<close>

lemma named_hook_origin:
  assumes "module_numbered api opts m m1" and "\<not> RemoveHooks opts" and "well_formed m" and "unnamed_hooks api m"
    and "i \<in> set (all_insts m1)" and "hook_operands i = Some (Int64 lid, GlobalStr bb, GlobalStr fn)"
  obtains f j i0 where "f \<in> set (mod_funcs m)" "fn_name f = fn"
    "(j, bb, i0) \<in> set (enumerate 0 (hook_seq api f (rpo api f) f))" "lid = of_nat j"
proof -
  obtain g b where g: "g \<in> set (mod_funcs m1)" "b \<in> set (fn_blocks g)" "i \<in> set (bb_insts b)"
    using assms(5) by (auto simp: all_insts_def)
  obtain f where f: "f \<in> set (mod_funcs m)" "if is_declaration f then g = f else func_numbered api opts f g"
    using list_all2_mem2 [OF assms(1) [unfolded module_numbered_def] g(1)] by blast
  then have num: "func_numbered api opts f g" using g(2) by (auto simp: is_declaration_def split: if_splits)
  let ?l = "bb_label b"
  have labels: "map bb_label (fn_blocks g) = map bb_label (fn_blocks f)" using num by (simp add: func_numbered_def)
  have "distinct (map bb_label (fn_blocks g))" using assms(3) f(1) labels by (simp add: well_formed_def)
  then have i: "i \<in> set (insts_of g ?l)" using insts_of_block [OF g(2)] g(3) by simp
  have "?l \<in> set (map bb_label (fn_blocks f))" using g(2) labels by (metis image_eqI list.set_map)
  then obtain b' where b': "block_of f ?l = Some b'" using block_of_label by blast
  have "?l \<in> set (rpo api f)"
  proof (rule ccontr)
    assume "?l \<notin> set (rpo api f)"
    then have "i \<in> set (insts_of f ?l)" using num i by (simp add: func_numbered_def)
    then have "i \<in> set (all_insts m)" using insts_of_subset [OF f(1)] by blast
    then show False using assms(4,6) by (force simp: unnamed_hooks_def)
  qed
  from hook_seq_memI [OF this b' i hook_operands_numbered [OF assms(6)], of api] num
  have "(block_name api f b', i) \<in> set (numbered_seq opts (fn_name f) 0 (hook_seq api f (rpo api f) f))"
    by (simp add: func_numbered_def)
  then obtain j i0 where j: "(j, block_name api f b', i0) \<in> set (enumerate 0 (hook_seq api f (rpo api f) f))"
    "i = with_id opts (fn_name f) (block_name api f b') j i0"
    by (auto simp: numbered_seq_def)
  have "numbered i0 \<and> arity_ok opts i0"
    using hook_seq_mem [OF enumerate_mem [OF j(1)]] num by (auto simp: func_numbered_def)
  then have "lid = of_nat j" "bb = block_name api f b'" "fn = fn_name f"
    using hook_operands_with_id [of i0 opts "fn_name f" "block_name api f b'" j] assms(2,6) j(2) by simp_all
  then show ?thesis using that f(1) j(1) by blast
qed

lemma same_module_leaks:
  assumes "module_numbered api opts m m1" and "\<not> RemoveHooks opts" and "well_formed m" and "unnamed_hooks api m"
    and "profile_of m1 fm" and "(a, bb, site) \<in> set (leaks api fm m)"
  shows "bb = fs_bbName site"
proof -
  obtain f j i where f: "f \<in> set (mod_funcs m)" "(j, bb, i) \<in> set (enumerate 0 (hook_seq api f (rpo api f) f))"
    "fault_at fm (fn_name f) (of_nat j) = Some site"
    using assms(6) by (fastforce simp: leaks_def leak_def set_worklist split: option.splits)
  then obtain sites where "(fn_name f, sites) \<in> set fm" "(of_nat j, site) \<in> set sites"
    by (auto simp: fault_at_def split: option.splits dest!: map_of_SomeD)
  then obtain i1 where i1: "i1 \<in> set (all_insts m1)"
    "hook_operands i1 = Some (Int64 (of_nat j), GlobalStr (fs_bbName site), GlobalStr (fn_name f))"
    using assms(5) by (fastforce simp: profile_of_def list_ex_iff)
  obtain f' j' i0 where f': "f' \<in> set (mod_funcs m)" "fn_name f' = fn_name f"
    "(j', fs_bbName site, i0) \<in> set (enumerate 0 (hook_seq api f' (rpo api f') f'))" "(of_nat j :: u64) = of_nat j'"
    by (rule named_hook_origin [OF assms(1-4) i1])
  have "f' = f" using assms(3) f(1) f'(1,2) by (auto simp: well_formed_def distinct_map dest: inj_onD)
  then show ?thesis
    using same_number [OF f(2), of j' "fs_bbName site" i0] f'(3,4) assms(4) f(1) by (auto simp: unnamed_hooks_def)
qed

text \<open>C39: When the profile comes from a run of the same module, built without a profile and with its
  hooks, no call is reported in another block than the profile has: the report of the build with the
  profile is just the lines of the calls it redirects. The hooks of the module
  must still carry the placeholder for the name of the function, as the pre pass leaves them, and the identifiers of a
  function may not wrap around.\<close>

theorem same_module_no_warning:
  assumes "run_post api fe1 i1 i2 opts1 m post_globals0 = Inr (m1, ps1)"
    and "\<not> RemoveHooks opts1" and "MPKProfilePath opts1 = []"
    and "run_post api fe2 j1 j2 opts2 m post_globals0 = Inr (m2, ps2)" and "MPKProfilePath opts2 \<noteq> []"
    and "getFaultingAllocMap fe2 j1 j2 (MPKProfilePath opts2) = Inr fm" and "profile_of m1 fm"
    and "well_formed m" and "\<forall>f\<in>set (mod_funcs m). rpo_ok api f" and "unnamed_hooks api m"
  shows "plain_text (err_stream ps2) = concat (map (\<lambda>a. violation_line (the (debug_location api a))) (patchList ps2))"
proof -
  obtain fm3 m3 where num: "module_numbered api opts1 m m3" and "all_insts m1 = all_insts m3"
  proof (rule run_post_cases [OF assms(1,8,9)])
    fix fm3 m3 ps m4 m5
    assume "module_numbered api opts1 m m3" and
      "m4 = map_insts (\<lambda>i. if MPKProfilePath opts1 \<noteq> [] \<and> blamed api fm3 m (inst_id i) then retarget m i else i) m3"
      "if RemoveHooks opts1 then removeHooks m4 ps = Inr m5 else m5 = m4" "m1 = m5\<lparr>mod_AllocSiteTotal := Some (IDG post_globals0)\<rparr>"
    with that show thesis using assms(2,3) by (simp add: map_insts_id all_insts_def)
  qed (simp_all add: post_globals0_def)
  then have "profile_of m3 fm" using assms(7) by (simp add: profile_of_def)
  note match = same_module_leaks [OF num assms(2,8,10) this]
  from run_post_told [OF assms(4-6,9)]
  have ps2: "err_stream ps2 = concat (map (report api) (leaks api fm m))" "patchList ps2 = map fst (leaks api fm m)"
    and loc: "\<forall>a\<in>fst ` set (leaks api fm m). debug_location api a \<noteq> None"
    by (simp_all add: told_def post_globals0_def)
  have "report_text api x = violation_line (the (debug_location api (fst x)))" if "x \<in> set (leaks api fm m)" for x
    using match [of "fst x" "fst (snd x)" "snd (snd x)"] that by (cases x) (simp add: report_text_def)
  then have "map (report_text api) (leaks api fm m) =
      map (\<lambda>a. violation_line (the (debug_location api a))) (patchList ps2)"
    by (simp add: ps2(2))
  then show ?thesis using reports_read [OF loc, of DefaultColor] by (simp add: ps2(1))
qed

theorem same_module_no_warning_witness:
  "\<exists>m1 ps1 m2 ps2. run_post inlined_api demo_files 0 0 hook_build demo_module post_globals0 = Inr (m1, ps1) \<and>
    run_post inlined_api demo_files 0 0 profile_build demo_module post_globals0 = Inr (m2, ps2) \<and>
    plain_text (err_stream ps2) = concat (map (\<lambda>a. violation_line (the (debug_location inlined_api a))) (patchList ps2))"
proof -
  let ?run1 = "run_post inlined_api demo_files 0 0 hook_build demo_module post_globals0"
  let ?run2 = "run_post inlined_api demo_files 0 0 profile_build demo_module post_globals0"
  let ?fm = "[(''f'', [(1, \<lparr>fs_localID = 1, fs_pkey = 1, fs_bbName = ''block1'', fs_funcName = ''f''\<rparr>)])]"
  have "case ?run1 of Inr (m1, _) \<Rightarrow> profile_of m1 ?fm | _ \<Rightarrow> False" by code_simp
  then obtain m1 ps1 where run1: "?run1 = Inr (m1, ps1)" and profile: "profile_of m1 ?fm"
    by (cases ?run1) auto
  have "\<not> isl ?run2" by code_simp
  then obtain m2 ps2 where run2: "?run2 = Inr (m2, ps2)" by (cases ?run2) auto
  have fm: "getFaultingAllocMap demo_files 0 0 (MPKProfilePath profile_build) = Inr ?fm" by code_simp
  have "\<forall>i\<in>set (all_insts demo_module). case hook_operands i of Some (lid, bb, fn) \<Rightarrow> fn = NullPtr | None \<Rightarrow> True"
    "\<forall>f\<in>set (mod_funcs demo_module). length (hook_seq inlined_api f (rpo inlined_api f) f) \<le> 2" by code_simp+
  then have hooks: "unnamed_hooks inlined_api demo_module" by (fastforce simp: unnamed_hooks_def)
  have rpo: "\<forall>f\<in>set (mod_funcs demo_module). rpo_ok inlined_api f" by code_simp
  have "plain_text (err_stream ps2) = concat (map (\<lambda>a. violation_line (the (debug_location inlined_api a))) (patchList ps2))"
    by (rule same_module_no_warning [OF run1 _ _ run2 _ fm profile demo_module_ok(1) rpo hooks]) simp_all
  with run1 run2 show ?thesis by (intro exI conjI)
qed

end
