(* ===== verification/Module_Sequence.thy ===== *)
theory Module_Sequence
  imports Post_Pass_Spec
begin

section \<open>Several modules in one process\<close>

text \<open>
  The lists and counters of the post pass are variables of the process: what the pass leaves in
  them for one module is there when it runs on the next. The run on the next module is compared with the
  run from the initial values: without profile and removal the two are the same up to the values
  left over, otherwise the pointers left over are used again.
\<close>

subsection \<open>Values left over\<close>

definition add_counts :: "hook_counts \<Rightarrow> hook_counts \<Rightarrow> hook_counts" where
  "add_counts c d =
    \<lparr>n_allocHook = n_allocHook c + n_allocHook d, n_reallocHook = n_reallocHook c + n_reallocHook d,
     n_deallocHook = n_deallocHook c + n_deallocHook d\<rparr>"

text \<open>The variables \<open>ps\<close> of a run that started behind a run that left \<open>old\<close>.\<close>

definition behind :: "post_globals \<Rightarrow> post_globals \<Rightarrow> post_globals" where
  "behind old ps =
    \<lparr>hookList = hookList old @ hookList ps, patchList = patchList old @ patchList ps,
     total_hooks = total_hooks old + total_hooks ps,
     modified_inst_count = modified_inst_count old + modified_inst_count ps,
     hookCountMap = add_counts (hookCountMap old) (hookCountMap ps), IDG = IDG old + IDG ps,
     err_stream = err_stream old @ err_stream ps\<rparr>"

lemma behind_simps [simp]:
  "hookList (behind old ps) = hookList old @ hookList ps"
  "patchList (behind old ps) = patchList old @ patchList ps"
  "IDG (behind old ps) = IDG old + IDG ps"
  by (simp_all add: behind_def)

lemma behind_start: "behind old post_globals0 = old"
  by (simp add: behind_def post_globals0_def add_counts_def)

lemma behind_collect:
  "behind old (ps\<lparr>patchList := patchList ps @ xs, err_stream := err_stream ps @ ys\<rparr>) =
    (behind old ps)\<lparr>patchList := patchList (behind old ps) @ xs, err_stream := err_stream (behind old ps) @ ys\<rparr>"
  by (simp add: behind_def)

lemma behind_register: "register_hook opts h n (behind old ps) = behind old (register_hook opts h n ps)"
  by (simp add: register_hook_def behind_def count_hook_def add_counts_def Let_def)

lemma behind_modified:
  "(behind old ps)\<lparr>modified_inst_count := modified_inst_count (behind old ps) + 1\<rparr> =
    behind old (ps\<lparr>modified_inst_count := modified_inst_count ps + 1\<rparr>)"
  by (simp add: behind_def)

subsection \<open>The numbering goes on behind them\<close>

lemma and_then_map [simp]: "and_then (map_sum id g r) f = and_then r (\<lambda>x. f (g x))"
  by (cases r) simp_all

lemma map_and_then [simp]: "map_sum id g (and_then r f) = and_then r (\<lambda>x. map_sum id g (f x))"
  by (cases r) simp_all

lemma collect_behind:
  "collect_patch api fm m fn bb lid as (behind old ps) = map_sum id (behind old) (collect_patch api fm m fn bb lid as ps)"
  by (auto simp: collect_patch_def Let_def behind_def split: option.split list.split operand.split instr.split)

lemma assign_inst_behind:
  "assign_inst api opts fm m fn bb i lid (behind old ps) =
    map_sum id (\<lambda>(i, lid, ps). (i, lid, behind old ps)) (assign_inst api opts fm m fn bb i lid ps)"
proof (cases i)
  case (CallBase n k c as)
  show ?thesis
  proof (cases "MPKProfilePath opts = []")
    case True
    then show ?thesis by (simp add: CallBase behind_register Let_def split: callee.split option.split)
  next
    case False
    then show ?thesis
      by (simp add: CallBase behind_register collect_behind Let_def split: callee.split option.split)
  qed
qed simp

lemma assign_insts_behind:
  "assign_insts api opts fm m fn bb is lid (behind old ps) =
    map_sum id (\<lambda>(is, lid, ps). (is, lid, behind old ps)) (assign_insts api opts fm m fn bb is lid ps)"
  by (induction "is" arbitrary: lid ps) (simp_all add: assign_inst_behind split_beta)

lemma assign_blocks_behind:
  "assign_blocks api opts fm m f ls g lid (behind old ps) =
    map_sum id (\<lambda>(g, ps). (g, behind old ps)) (assign_blocks api opts fm m f ls g lid ps)"
  by (induction ls arbitrary: g lid ps) (simp_all add: assign_insts_behind split_beta split: option.split)

lemma assign_funcs_behind:
  "assign_funcs api opts fm m0 fs m (behind old ps) =
    map_sum id (\<lambda>(m, ps). (m, behind old ps)) (assign_funcs api opts fm m0 fs m ps)"
  by (induction fs arbitrary: m ps) (simp_all add: assign_func_def assign_blocks_behind split_beta)

lemma assignLocalIDs_behind:
  "assignLocalIDs api fe j1 j2 opts m (behind old ps) =
    map_sum id (\<lambda>(m, ps). (m, behind old ps)) (assignLocalIDs api fe j1 j2 opts m ps)"
  by (simp add: assignLocalIDs_def assign_funcs_behind)

lemma patchInstruction_behind:
  "patchInstruction a (m, behind old ps) = map_sum id (\<lambda>(m, ps). (m, behind old ps)) (patchInstruction a (m, ps))"
  by (auto simp: patchInstruction_def behind_modified split: option.split instr.split callee.split)

lemma patch_all_behind:
  "patch_all as (m, behind old ps) = map_sum id (\<lambda>(m, ps). (m, behind old ps)) (patch_all as (m, ps))"
  by (induction as arbitrary: m ps) (simp_all add: patchInstruction_behind split_beta)

subsection \<open>The pointers are used again\<close>

abbreviation inst_ids :: "ir_module \<Rightarrow> inst_id set" where
  "inst_ids m \<equiv> inst_id ` set (all_insts m)"

lemma get_inst_known: "get_inst m a \<noteq> None \<longleftrightarrow> a \<in> inst_ids m"
  by (auto simp: get_inst_def find_None_iff)

lemma patch_foreign: "as \<noteq> [] \<Longrightarrow> set as \<inter> inst_ids m = {} \<Longrightarrow> patch_all (as @ bs) (m, ps) = Inl ForeignInstruction"
  using get_inst_known [of m "hd as"] by (cases as) (auto simp: patchInstruction_def split: option.split)

lemma erase_foreign: "ns \<noteq> [] \<Longrightarrow> set ns \<inter> inst_ids m = {} \<Longrightarrow> erase_hooks (ns @ ks) m = Inl ForeignInstruction"
  using get_inst_known [of m "hd ns"] by (cases ns) auto

lemma patch_all_ids:
  assumes "patch_all as (m, ps) = Inr (m', ps')"
  shows "inst_ids m' = inst_ids m" "patchList ps' = patchList ps" "hookList ps' = hookList ps" "IDG ps' = IDG ps"
proof -
  have "inst_ids m' = inst_ids m \<and> patchList ps' = patchList ps \<and> hookList ps' = hookList ps \<and> IDG ps' = IDG ps"
    using assms
  proof (induction as arbitrary: m ps)
    case (Cons a as)
    obtain m1 ps1 where one: "patchInstruction a (m, ps) = Inr (m1, ps1)" and rest: "patch_all as (m1, ps1) = Inr (m', ps')"
      using Cons.prems by (auto simp: and_then_eq_Inr)
    have "inst_ids m1 = inst_ids m"
    proof (cases "m1 = m")
      case False
      then obtain n k c xs r where m1: "m1 = map_insts (\<lambda>i. if inst_id i = a then CallBase n k (Func r) xs else i) m"
        and "get_inst m a = Some (CallBase n k c xs)"
        using one by (auto simp: patchInstruction_def split: option.splits instr.splits callee.splits if_splits)
      then have "n = a" using find_Some_mem [of _ _ "CallBase n k c xs"] by (force simp: get_inst_def)
      then have "map inst_id (all_insts m1) = map inst_id (all_insts m)" unfolding m1 all_insts_map by simp
      then show ?thesis by (metis list.set_map)
    qed simp
    moreover have "patchList ps1 = patchList ps \<and> hookList ps1 = hookList ps \<and> IDG ps1 = IDG ps"
      using one by (auto simp: patchInstruction_def split: option.splits instr.splits callee.splits if_splits)
    ultimately show ?case using Cons.IH [OF rest] by simp
  qed simp
  then show "inst_ids m' = inst_ids m" "patchList ps' = patchList ps" "hookList ps' = hookList ps" "IDG ps' = IDG ps"
    by blast+
qed

lemma alloc_of_known: "alloc_of m i = Some a \<Longrightarrow> a \<in> inst_ids m"
proof -
  assume "alloc_of m i = Some a"
  then have "is_call m a" by (auto simp: alloc_of_def split: instr.splits list.splits operand.splits if_splits)
  then have "get_inst m a \<noteq> None" by (cases "get_inst m a") (simp_all add: is_call_def)
  then show ?thesis by (simp only: get_inst_known)
qed

lemma blamed_known: "blamed api fm m a \<Longrightarrow> a \<in> inst_ids m"
  using alloc_of_known by (auto simp: blamed_def)

text \<open>What a run leaves in the lists.\<close>

lemma lists_left:
  assumes "run_post api fe j1 j2 opts m post_globals0 = Inr (m', ps')"
    and "well_formed m" and "\<forall>f\<in>set (mod_funcs m). rpo_ok api f"
    and "getFaultingAllocMap fe j1 j2 (MPKProfilePath opts) = Inr fm"
  shows "set (hookList ps') = (if RemoveHooks opts then inst_id ` traversed_hooks api m else {})"
    "set (patchList ps') = {a. MPKProfilePath opts \<noteq> [] \<and> blamed api fm m a}" "IDG ps' = 0"
proof -
  obtain m1 ps1 m2 where a: "assignLocalIDs api fe j1 j2 opts m post_globals0 = Inr (m1, ps1)"
    and p: "(if MPKProfilePath opts \<noteq> [] then patch_all (patchList ps1) (m1, ps1) else Inr (m1, ps1)) = Inr (m2, ps')"
    using assms(1) by (auto simp: run_post_def and_then_eq_Inr)
  have same: "patchList ps' = patchList ps1 \<and> hookList ps' = hookList ps1 \<and> IDG ps' = IDG ps1"
    using p patch_all_ids(2-4) by (auto split: if_splits)
  have lists: "patchList ps' = concat (map (func_patches api opts fm m) (worklist m))"
    "hookList ps' = concat (map (func_hooks api opts) (worklist m))" "IDG ps' = 0"
    using assignLocalIDs_spec [OF a assms(2,3)] same assms(4) by (auto simp: post_globals0_def)
  then show "set (hookList ps') = (if RemoveHooks opts then inst_id ` traversed_hooks api m else {})" "IDG ps' = 0"
    using func_hooks_set [of opts api m] by (auto simp: func_hooks_def)
  show "set (patchList ps') = {a. MPKProfilePath opts \<noteq> [] \<and> blamed api fm m a}"
  proof (cases "MPKProfilePath opts = []")
    case True
    then show ?thesis using lists(1) by (auto simp: func_patches_def patched_by_def split: option.splits)
  next
    case False
    then have "a \<in> set (patchList ps') \<longleftrightarrow> blamed api fm m a" for a
      unfolding lists(1) by (rule func_patches_set)
    then show ?thesis using False by blast
  qed
qed

lemma run_post_behind:
  assumes alone: "run_post api fe j1 j2 opts n post_globals0 = Inr (n', qs)"
    and "well_formed n" and "\<forall>f\<in>set (mod_funcs n). rpo_ok api f" and "IDG old = 0"
    and foreign: "(set (hookList old) \<union> set (patchList old)) \<inter> inst_ids n = {}"
    and profile: "MPKProfilePath opts = [] \<Longrightarrow> patchList old = []" and remove: "\<not> RemoveHooks opts \<Longrightarrow> hookList old = []"
  shows "run_post api fe j1 j2 opts n old =
    (if hookList old = [] \<and> patchList old = [] then Inr (n', behind old qs) else Inl ForeignInstruction)"
proof -
  obtain n1 ps1 n2 n3 where a: "assignLocalIDs api fe j1 j2 opts n post_globals0 = Inr (n1, ps1)"
    and p: "(if MPKProfilePath opts \<noteq> [] then patch_all (patchList ps1) (n1, ps1) else Inr (n1, ps1)) = Inr (n2, qs)"
    and r: "(if RemoveHooks opts then removeHooks n2 qs else Inr n2) = Inr n3"
    and n': "n' = n3\<lparr>mod_AllocSiteTotal := Some (IDG qs)\<rparr>"
    using alone by (auto simp: run_post_def and_then_eq_Inr)
  have num: "module_numbered api opts n n1" by (rule assignLocalIDs_spec [OF a assms(2,3)])
  have "map inst_id (all_insts n1) = map inst_id (all_insts n)"
    by (rule same_call_ids [OF module_insts_same [OF num assms(2)]])
  then have n1: "inst_ids n1 = inst_ids n" by (metis list.set_map)
  then have n2: "inst_ids n2 = inst_ids n" using p patch_all_ids(1) by (auto split: if_splits)
  have a': "assignLocalIDs api fe j1 j2 opts n old = Inr (n1, behind old ps1)"
    using assignLocalIDs_behind [of api fe j1 j2 opts n old post_globals0] a by (simp add: behind_start)
  show ?thesis
  proof (cases "patchList old = []")
    case False
    then have "MPKProfilePath opts \<noteq> []" using profile by blast
    moreover have "patch_all (patchList old @ patchList ps1) (n1, behind old ps1) = Inl ForeignInstruction"
      using False foreign n1 by (intro patch_foreign) auto
    ultimately show ?thesis using a' False by (simp add: run_post_def)
  next
    case True
    then have p': "(if MPKProfilePath opts \<noteq> [] then patch_all (patchList (behind old ps1)) (n1, behind old ps1)
        else Inr (n1, behind old ps1)) = Inr (n2, behind old qs)"
      using p by (auto simp: patch_all_behind split: if_splits)
    show ?thesis
    proof (cases "hookList old = []")
      case hooks: True
      then have "removeHooks n2 (behind old qs) = removeHooks n2 qs" by (simp add: removeHooks_def)
      then show ?thesis using True hooks a' p' r n' assms(4) by (cases "RemoveHooks opts") (simp_all add: run_post_def)
    next
      case False
      then have "RemoveHooks opts" using remove by blast
      moreover have "erase_hooks (hookList old @ hookList qs) n2 = Inl ForeignInstruction"
        using False foreign n2 by (intro erase_foreign) auto
      ultimately show ?thesis using False a' p' by (simp add: run_post_def removeHooks_def)
    qed
  qed
qed

text \<open>C14: What the post pass leaves of one module when the process goes on to the next, which alone it
  could compile: without removal of hooks and without a blamed call the next module is compiled exactly as
  alone, with the counters going on; but when the first module had a hook that was removed, or
  a call that was redirected, the pointer to it is still in its list and used again, although it
  is dangling or leads into the first module.\<close>

theorem modules_share_lists:
  assumes "run_post api fe j1 j2 opts m post_globals0 = Inr (m', ps')"
    and "run_post api fe j1 j2 opts n post_globals0 = Inr (n', qs)"
    and "getFaultingAllocMap fe j1 j2 (MPKProfilePath opts) = Inr fm"
    and "well_formed m" and "well_formed n" and "\<forall>f\<in>set (mod_funcs m) \<union> set (mod_funcs n). rpo_ok api f"
    and "inst_ids m \<inter> inst_ids n = {}"
  shows "run_post api fe j1 j2 opts n ps' =
    (if (RemoveHooks opts \<and> traversed_hooks api m \<noteq> {}) \<or> (MPKProfilePath opts \<noteq> [] \<and> (\<exists>a. blamed api fm m a))
     then Inl ForeignInstruction else Inr (n', behind ps' qs))"
proof -
  have m: "\<forall>f\<in>set (mod_funcs m). rpo_ok api f" and n: "\<forall>f\<in>set (mod_funcs n). rpo_ok api f"
    using assms(6) by auto
  note left = lists_left [OF assms(1,4) m assms(3)]
  have "inst_id ` traversed_hooks api m \<subseteq> inst_ids m" using traversed_subset by (rule image_mono)
  moreover have "{a. MPKProfilePath opts \<noteq> [] \<and> blamed api fm m a} \<subseteq> inst_ids m" using blamed_known by blast
  ultimately have "set (hookList ps') \<union> set (patchList ps') \<subseteq> inst_ids m" unfolding left(1,2) by simp
  then have foreign: "(set (hookList ps') \<union> set (patchList ps')) \<inter> inst_ids n = {}"
    using assms(7) by blast
  have "hookList ps' = [] \<longleftrightarrow> \<not> (RemoveHooks opts \<and> traversed_hooks api m \<noteq> {})"
    unfolding set_empty [symmetric] left(1) by simp
  moreover have "patchList ps' = [] \<longleftrightarrow> \<not> (MPKProfilePath opts \<noteq> [] \<and> (\<exists>a. blamed api fm m a))"
    unfolding set_empty [symmetric] left(2) by simp
  ultimately show ?thesis
    using run_post_behind [OF assms(2,5) n left(3) foreign] by auto
qed

definition next_module :: ir_module where
  "next_module =
    \<lparr>mod_funcs = [\<lparr>fn_name = ''g'', fn_blocks = [\<lparr>bb_label = 0, bb_name = ''entry'', bb_insts = [OtherInst 7 []]\<rparr>]\<rparr>],
     mod_AllocSiteTotal = None\<rparr>"

theorem modules_share_lists_witness:
  "\<exists>m' ps'. run_post demo_api demo_files 0 0 profile_build demo_module post_globals0 = Inr (m', ps') \<and>
    run_post demo_api demo_files 0 0 profile_build next_module ps' = Inl ForeignInstruction"
proof -
  obtain m' ps' where run: "run_post demo_api demo_files 0 0 profile_build demo_module post_globals0 = Inr (m', ps')"
    using demo_runs(3) by blast
  have "\<not> isl (run_post demo_api demo_files 0 0 profile_build next_module post_globals0)" by code_simp
  then obtain n' qs where alone: "run_post demo_api demo_files 0 0 profile_build next_module post_globals0 = Inr (n', qs)"
    by (cases "run_post demo_api demo_files 0 0 profile_build next_module post_globals0") auto
  have "\<not> isl (getFaultingAllocMap demo_files 0 0 (MPKProfilePath profile_build))" by code_simp
  then obtain fm where fm: "getFaultingAllocMap demo_files 0 0 (MPKProfilePath profile_build) = Inr fm"
    by (cases "getFaultingAllocMap demo_files 0 0 (MPKProfilePath profile_build)") auto
  have n: "well_formed next_module" "\<forall>f\<in>set (mod_funcs next_module). rpo_ok demo_api f" by code_simp+
  have "CallBase 1 CallInst (Func ''allocHook'') [Result 0, Int64 16, Int64 (-1), NullPtr, NullPtr] \<in> set (insts_of demo_f 0)"
    by (simp add: demo_module_def insts_of_def block_of_def)
  moreover have "0 \<in> set (rpo demo_api demo_f)" by (simp add: demo_api_def demo_module_def)
  moreover have "is_hook (CallBase 1 CallInst (Func ''allocHook'') [Result 0, Int64 16, Int64 (-1), NullPtr, NullPtr])"
    by (simp add: is_hook_def)
  ultimately have "traversed_hooks demo_api demo_module \<noteq> {}"
    using demo_f(1,2) unfolding traversed_hooks_def by blast
  moreover have "inst_ids demo_module \<inter> inst_ids next_module = {}"
    by (simp add: demo_module_def next_module_def all_insts_def)
  ultimately show ?thesis
    using run modules_share_lists [OF run alone fm demo_module_ok(1) n(1)] demo_module_ok(2) n(2) by auto
qed

end
