(* ===== verification/Pass_Stats.thy ===== *)
theory Pass_Stats
  imports Formatter Pre_Pass Post_Pass
begin

section \<open>The statistics the passes leave behind\<close>

text \<open>
  \<open>printStats\<close> of both passes: the counters go to a temporary file that is kept, in the directory
  \<open>TestResults\<close>. Directories and temporary files are LLVM's, a record of parameters over the table of
  files of \<open>Formatter\<close>; an error of either is dropped, as in the code.
\<close>

record temp_files =
  tf_is_directory :: "string \<Rightarrow> fsys \<Rightarrow> bool" \<comment> \<open>\<open>sys::fs::is_directory\<close>\<close>
  tf_create_directory :: "string \<Rightarrow> fsys \<Rightarrow> fsys" \<comment> \<open>\<open>sys::fs::create_directory\<close>\<close>
  tf_create :: "string \<Rightarrow> fsys \<Rightarrow> (string \<times> fsys) option" \<comment> \<open>\<open>TempFile::create\<close>\<close>
  tf_keep :: "string \<Rightarrow> fsys \<Rightarrow> fsys" \<comment> \<open>\<open>TempFile::keep\<close>\<close>

definition print_stats :: "temp_files \<Rightarrow> string \<Rightarrow> string \<Rightarrow> fsys \<Rightarrow> fsys" where
  "print_stats tf model text fs =
    (let TestDirectory = ''TestResults'';
         fs = (if \<not> tf_is_directory tf TestDirectory fs then tf_create_directory tf TestDirectory fs else fs)
     in case tf_create tf (TestDirectory @ model) fs of
          None \<Rightarrow> fs
        | Some (PreStats, fs) \<Rightarrow> tf_keep tf PreStats (append_text PreStats text fs))"

definition printStats_pre :: "temp_files \<Rightarrow> pre_state \<Rightarrow> fsys \<Rightarrow> fsys" where
  "printStats_pre tf ps = print_stats tf ''/static-pre-%%%%%%%.stat'' (pre_stats_text ps)"

definition printStats_post :: "temp_files \<Rightarrow> post_globals \<Rightarrow> fsys \<Rightarrow> fsys" where
  "printStats_post tf ps = print_stats tf ''/static-post-%%%%%%%.stat'' (post_stats_text ps)"

text \<open>What LLVM promises of temporary files and directories: a fresh name, and other files alone.\<close>

definition temp_ok :: "temp_files \<Rightarrow> bool" where
  "temp_ok tf \<longleftrightarrow>
    (\<forall>d fs. fs_text (tf_create_directory tf d fs) = fs_text fs) \<and>
    (\<forall>model fs f fs'. tf_create tf model fs = Some (f, fs') \<longrightarrow>
      fs_text fs f = None \<and> fs_text fs' = (fs_text fs)(f \<mapsto> [])) \<and>
    (\<forall>f fs. fs_text (tf_keep tf f fs) = fs_text fs)"

lemma print_stats_files:
  assumes "temp_ok tf"
  shows "fs_text (print_stats tf model text fs) = fs_text fs \<or>
    (\<exists>f. fs_text fs f = None \<and> fs_text (print_stats tf model text fs) = (fs_text fs)(f \<mapsto> text))"
proof -
  define d where "d = (if \<not> tf_is_directory tf ''TestResults'' fs then tf_create_directory tf ''TestResults'' fs else fs)"
  have d: "fs_text d = fs_text fs" using assms by (simp add: d_def temp_ok_def)
  show ?thesis
  proof (cases "tf_create tf (''TestResults'' @ model) d")
    case None
    then show ?thesis using d by (simp add: print_stats_def Let_def d_def [symmetric])
  next
    case (Some r)
    then obtain f d' where r: "tf_create tf (''TestResults'' @ model) d = Some (f, d')" by (cases r) simp
    then have "fs_text d f = None" "fs_text d' = (fs_text d)(f \<mapsto> [])" using assms unfolding temp_ok_def by blast+
    moreover have "fs_text (print_stats tf model text fs) = (fs_text d')(f \<mapsto> (case fs_text d' f of None \<Rightarrow> text | Some u \<Rightarrow> u @ text))"
      using assms r by (simp add: print_stats_def Let_def d_def [symmetric] append_text_def temp_ok_def)
    ultimately show ?thesis using d by auto
  qed
qed

text \<open>So neither pass ever changes a file that was there, and what it adds is its report.\<close>

lemma stats_keep_files:
  assumes "temp_ok tf" and "fs_text fs f = Some t"
  shows "fs_text (printStats_pre tf ps fs) f = Some t" "fs_text (printStats_post tf qs fs) f = Some t"
  using print_stats_files [OF assms(1), of "''/static-pre-%%%%%%%.stat''" "pre_stats_text ps" fs]
    print_stats_files [OF assms(1), of "''/static-post-%%%%%%%.stat''" "post_stats_text qs" fs] assms(2)
  by (auto simp: printStats_pre_def printStats_post_def)

text \<open>The passes with their reports; the post pass prints before it sets \<open>AllocSiteTotal\<close>.\<close>

definition run_pre_stats ::
    "temp_files \<Rightarrow> llvm_api \<Rightarrow> environment \<Rightarrow> pre_options \<Rightarrow> ir_module \<Rightarrow> pre_state \<Rightarrow> fsys
      \<Rightarrow> (pass_error + (ir_module \<times> pre_state) \<times> fsys) option" where
  "run_pre_stats tf api env opts m ps fs =
    map_option (map_sum id (\<lambda>(m, ps). ((m, ps), printStats_pre tf ps fs))) (run_pre api env opts m ps)"

definition run_post_stats ::
    "temp_files \<Rightarrow> llvm_api \<Rightarrow> file_env \<Rightarrow> i64 \<Rightarrow> i64 \<Rightarrow> post_options \<Rightarrow> ir_module \<Rightarrow> post_globals \<Rightarrow> fsys
      \<Rightarrow> pass_error + (ir_module \<times> post_globals) \<times> fsys" where
  "run_post_stats tf api fe j1 j2 opts m ps fs =
    map_sum id (\<lambda>(m, ps). ((m, ps), printStats_post tf ps fs)) (run_post api fe j1 j2 opts m ps)"

end
