(* ===== verification/Spec2Isabelle.thy ===== *)
theory Spec2Isabelle
  imports Single_Step Process_Exit Mutexes Call_Types Hook_Counts Hook_Calls Post_Pass_Messages Module_Sequence Pass_Stats
begin

text \<open>
  ProvSan finds, at run time, the heap allocations that untrusted code reaches over a memory
  protection boundary (Intel protection keys), so that a second build can allocate just these from
  untrusted memory. This development models the C++ code of the repository and proves what makes
  it correct.

  \<^bold>\<open>The program.\<close> The pre pass (\<open>Passes/DynUntrustedAllocPre\<close>) puts a call of a hook behind every
  call of an allocation function. The post pass (\<open>Passes/DynUntrustedAllocPost\<close>) numbers the hooks
  of every function. The instrumented program runs with the runtime (\<open>Runtime\<close>): the hooks keep a
  map from addresses to allocation sites; an access to protected memory raises a signal, whose
  handler looks up the block of the address, adds its site and the sites it was reallocated from
  to the fault set, and opens the key for one instruction, after which a step trap closes it again.
  At exit the fault set is written as a JSON profile. A second build, with the profile, redirects
  the allocation calls it names and erases the hooks.

  \<^bold>\<open>Theories of the runtime.\<close>
  \<^item> \<open>Provsan_Prelude\<close>: machine types, errors, sequencing, numbers as text, word and list lemmas.
  \<^item> \<open>Std_Containers\<close>: \<open>std::map\<close> as an association list in key order with iterators as positions,
    \<open>std::unordered_map\<close> and \<open>std::unordered_set\<close> as lists without duplicates under the key
    comparison; their interfaces as locales with interpretations.
  \<^item> \<open>Alloc_Site\<close>, \<open>Site_Handler\<close>: the classes of \<open>alloc_site_handler.h\<close>, one definition per method.
    \<open>Handler_Spec\<close>: their contracts and the invariant of the handler.
  \<^item> \<open>Alloc_Hooks\<close>: the global handler and the hooks of \<open>alloc_site_handler.cpp\<close>, the constructor of
    \<open>provsan_init.cpp\<close>. \<open>Runtime_Spec\<close>: an abstract state of live sites, reports, chains and waiting
    keys, which the hooks and faults refine. \<open>Provenance\<close>: runs over a conforming allocator, and
    which positions a fault adds to the report. \<open>Interleaving\<close>: the hooks and
    the signal handlers as the sequences of their critical sections, threads whose allocator calls,
    signals and sections interleave, the invariant of the map between them, and the race that breaks
    it. A signal may interrupt a hook between two of its sections (\<open>of_handler\<close> tells whose sections
    are pending); the invariant is for runs in which no address a pending hook is about is handed out
    (\<open>conc_reach\<close>), the race for one in which one is. \<open>Interleaved_Faults\<close>: a fault between other threads is
    recorded, and stays. \<open>Mutexes\<close>: a section as the list of its statements (locking, the accesses to a field,
    unlocking) between which other threads run; a simulation shows the sections atomic, a measure
    and the order of the mutexes show that every hook and handler returns. Its states are those of
    \<open>lock_reach\<close>, with addresses of pending hooks handed out again or not; signals come at rest and between two
    sections, and a fault inside a section, at which the handler waits for a mutex its own thread
    holds, is treated by \<open>fault_inside_stuck\<close>.
  \<^item> \<open>Signal_Setup\<close>: the signal actions of \<open>provsan_init.cpp\<close>. \<open>Pkey_Utils\<close>: the key register of
    \<open>provsan_utils.cpp\<close>. \<open>Fault_Handler\<close>: the handlers of \<open>provsan_fault_handler.cpp\<close>, in thread and
    in page mode. \<open>Single_Step\<close>: threads that fault and trap, as a step relation with its invariant.
  \<^item> \<open>Formatter\<close>: file names, JSON text, statistics and the exit handler of \<open>provsan_formatter.cpp\<close>.
    \<open>Process_Exit\<close>: its registration, and the exit functions that run in front of it and behind it.

  \<^bold>\<open>Theories of the passes.\<close>
  \<^item> \<open>Pass_Options\<close>: environment variables and flags. \<open>Module_IR\<close>: functions, blocks and
    instructions as far as the passes look at them.
  \<^item> \<open>Pre_Pass\<close>: \<open>DynUntrustedAllocPre.cpp\<close>; the walk that inserts into the block it walks is
    proved equal to a recursion over the original block. \<open>Pre_Pass_Invokes\<close>: targets called by
    \<open>invoke\<close> and \<open>callbr\<close>, with split edges; every target of a visited block gets its one hook, and
    the hook of an invoke is on its normal edge.
  \<^item> \<open>Fault_Profile\<close>: the profile reader of \<open>DynUntrustedAllocPost.cpp\<close>. \<open>Post_Pass\<close>: numbering,
    patching and removal, with a reference description of the numbering. \<open>Post_Pass_Spec\<close>: the
    module after each phase. \<open>Post_Pass_Walk\<close>: the calls the numbering visits, in order, and a locale
    for whatever the numbering accumulates on the way. \<open>Diagnostics\<close>, \<open>Post_Pass_Messages\<close>: the
    report of every call that is going to be redirected, with its inlined positions and the
    warnings about other blocks. \<open>Module_Sequence\<close>: the next module of the same process, which meets the
    lists of the first. \<open>Pass_Stats\<close>: the statistics files of both passes.
  \<^item> \<open>Json_Text\<close>: a grammar of JSON, and that the profile is a text of it. \<open>Json_Parser\<close>: a parser for
    the grammar, which shows that the assumption on LLVM's parser can be met.
  \<^item> \<open>Pipeline\<close>: the two passes in a row. \<open>Build\<close>: the plugins, the callbacks they register
    (\<open>llvmGetPassPluginInfo\<close> of both passes), and a run of the compiler over one module with other
    passes behind. \<open>Hook_Counts\<close>: the counters of both passes agree. \<open>Call_Types\<close>: the types of the
    hooks, and that both passes keep every call well typed.
  \<^item> \<open>Hook_Calls\<close>: a hook call of the compiled program as a call of the runtime, which joins the model of
    the passes with that of the runtime. \<open>End_To_End\<close>: a fault in a run of the profiled program,
    the profile its exit writes, and the fault map the second build reads from it.

  \<^bold>\<open>Parameters.\<close> Code outside the repository is an argument: the record \<open>platform\<close> (the safe
  address test and the constants of the linked program, process and thread identifiers, the state
  component of the key register as \<open>cpuid\<close> reports it), the record \<open>os_env\<close> (random numbers,
  whether the system creates directories and files), \<open>file_env\<close> (LLVM's file system and JSON
  parser), \<open>llvm_api\<close> (traversal order, edge splitting, insertion points, slots, debug
  locations), \<open>toolchain\<close> (these two, and what other optimisation passes make of a module) and
  \<open>temp_files\<close> (LLVM's temporary files). What a property needs of them is a hypothesis:
  \<open>conforming\<close> allocators, \<open>parses_json\<close>, \<open>reads_files\<close> (the pass sees the files the process left),
  \<open>rpo_ok\<close> and \<open>traversal_ok\<close> (the traversal visits blocks of the function, each once), \<open>split_ok\<close> and
  \<open>split_keeps_calls\<close> (what \<open>SplitEdge\<close> adds and redirects), \<open>insertion_ok\<close>, \<open>temp_ok\<close>.

  \<^bold>\<open>Errors.\<close> A failed assertion, a null or dangling pointer that is used or an exception is a value of \<open>rt_error\<close> or
  \<open>pass_error\<close>, and a step that may stop returns a sum; \<open>and_then\<close> sequences them.

  \<^bold>\<open>Termination.\<close> Loops are structural recursions, or functions with a measure (the attempts for a
  fresh file name, counted in a byte up to 128; the pieces of an environment list; digits of a
  number). Two may not end and are \<open>partial_function\<close>: a signal handler that forwards to itself
  (\<open>second_install_loops\<close> shows when), and the pre pass, which would hook its own hooks
  (\<open>pre_pass_hooks_calls\<close> shows that it returns when they are not targets). The reference parser is
  bounded by the length of its text, which is enough for every text of the grammar.

  \<^bold>\<open>Not modelled.\<close> Messages on stderr other than those about the redirected calls,
  attributes and linkage of the declared hooks (in the untyped model a hook name with another type
  is not an error, \<open>declare_hook_types\<close> covers that), the assertion on users of a hook that are no calls, and, between threads, the counters of \<open>MPK_STATS\<close>,
  which no mutex guards, and the lazy construction of the handler by two threads at once. At exit the
  threads other than the one that exits are taken to be gone. Memory is sequentially consistent, as
  it is for fields under a mutex. Pointers of the instrumented program are 64-bit words, \<open>int\<close>
  counters of the passes are unbounded.
\<close>

end
